(* ===== verification/Prelude.thy ===== *)
theory Prelude
  imports Main "HOL-Library.Word"
begin

section \<open>Byte strings, results and the parts of Rust's standard library the code uses\<close>

text \<open>
  A Rust \<open>&str\<close> is a sequence of UTF-8 bytes, and its lengths, offsets and slices count bytes.
  An Isabelle \<open>char\<close> is one byte, so a \<open>str\<close> here is the byte sequence itself. Code points
  (Rust's \<open>char\<close>) are natural numbers, read off the bytes by \<open>segs\<close> and \<open>code_point\<close>.
  Slicing with \<open>get\<close> fails when an end of the range is not a character boundary, exactly as in
  Rust, so that no definition of the development assumes more of its input than the code does.

  Errors are the left summand of a sum type and results the right one.
\<close>

type_synonym str = string
type_synonym uchar = nat
type_synonym ('e, 'a) result = "'e + 'a"

named_theorems str_simps \<open>equations of the string operations\<close>
named_theorems res_simps \<open>case equations of results and options\<close>

subsection \<open>Results and options\<close>

fun and_then :: "('e, 'a) result \<Rightarrow> ('a \<Rightarrow> ('e, 'b) result) \<Rightarrow> ('e, 'b) result" where
  "and_then (Inl e) f = Inl e"
| "and_then (Inr x) f = f x"

fun map_err :: "('e \<Rightarrow> 'f) \<Rightarrow> ('e, 'a) result \<Rightarrow> ('f, 'a) result" where
  "map_err f (Inl e) = Inl (f e)"
| "map_err f (Inr x) = Inr x"

fun ok_or :: "'e \<Rightarrow> 'a option \<Rightarrow> ('e, 'a) result" where
  "ok_or e None = Inl e"
| "ok_or e (Some x) = Inr x"

fun unwrap_or :: "'a \<Rightarrow> 'a option \<Rightarrow> 'a" where
  "unwrap_or d None = d"
| "unwrap_or d (Some x) = x"

fun is_ok :: "('e, 'a) result \<Rightarrow> bool" where
  "is_ok (Inl _) = False"
| "is_ok (Inr _) = True"

fun result_ok :: "('e, 'a) result \<Rightarrow> 'a option" where
  "result_ok (Inl _) = None"
| "result_ok (Inr x) = Some x"

lemma and_then_Inr [res_simps]:
  "and_then r f = Inr y \<longleftrightarrow> (\<exists>x. r = Inr x \<and> f x = Inr y)"
  by (cases r) auto

lemma and_then_Inl [res_simps]:
  "and_then r f = Inl e \<longleftrightarrow> r = Inl e \<or> (\<exists>x. r = Inr x \<and> f x = Inl e)"
  by (cases r) auto

lemma map_err_Inr [res_simps]: "map_err f r = Inr x \<longleftrightarrow> r = Inr x"
  by (cases r) auto

lemma map_err_Inl [res_simps]: "map_err f r = Inl e \<longleftrightarrow> (\<exists>d. r = Inl d \<and> e = f d)"
  by (cases r) auto

lemma ok_or_Inr [res_simps]: "ok_or e m = Inr x \<longleftrightarrow> m = Some x"
  by (cases m) auto

lemma ok_or_Inl [res_simps]: "ok_or e m = Inl d \<longleftrightarrow> m = None \<and> d = e"
  by (cases m) auto

lemma is_ok_iff: "is_ok r \<longleftrightarrow> (\<exists>x. r = Inr x)"
  by (cases r) auto

lemma result_ok_Some [res_simps]: "result_ok r = Some x \<longleftrightarrow> r = Inr x"
  by (cases r) auto

lemma result_ok_None [res_simps]: "result_ok r = None \<longleftrightarrow> (\<exists>e. r = Inl e)"
  by (cases r) auto

text \<open>\<open>slice::get\<close>: out of range is \<open>None\<close>.\<close>

definition get :: "'a list \<Rightarrow> nat \<Rightarrow> 'a option" where
  "get xs i = (if i < length xs then Some (xs ! i) else None)"

lemma get_Some: "get xs i = Some x \<longleftrightarrow> i < length xs \<and> x = xs ! i"
  by (auto simp: get_def)

lemma get_None: "get xs i = None \<longleftrightarrow> length xs \<le> i"
  by (auto simp: get_def)

lemma get_drop: "drop n xs = x # ys \<Longrightarrow> get xs n = Some x"
  by (metis get_Some hd_drop_conv_nth linorder_not_le drop_all list.distinct(1) list.sel(1))

lemma get_simps [simp]:
  "get [] i = None" "get (x # xs) 0 = Some x" "get (x # xs) (Suc i) = get xs i"
  by (simp_all add: get_def)

subsection \<open>Bytes and ASCII classes\<close>

abbreviation ord :: "char \<Rightarrow> nat" where
  "ord c \<equiv> of_char c"

definition is_ascii_upper :: "char \<Rightarrow> bool" where
  "is_ascii_upper c \<longleftrightarrow> 65 \<le> ord c \<and> ord c \<le> 90"

definition is_ascii_lower :: "char \<Rightarrow> bool" where
  "is_ascii_lower c \<longleftrightarrow> 97 \<le> ord c \<and> ord c \<le> 122"

definition is_ascii_digit :: "char \<Rightarrow> bool" where
  "is_ascii_digit c \<longleftrightarrow> 48 \<le> ord c \<and> ord c \<le> 57"

definition is_ascii :: "char \<Rightarrow> bool" where
  "is_ascii c \<longleftrightarrow> ord c < 128"

definition upper :: "char \<Rightarrow> char" where
  "upper c = (if is_ascii_lower c then char_of (ord c - 32) else c)"

definition lower :: "char \<Rightarrow> char" where
  "lower c = (if is_ascii_upper c then char_of (ord c + 32) else c)"

definition to_ascii_uppercase :: "str \<Rightarrow> str" where
  "to_ascii_uppercase s = map upper s"

definition to_ascii_lowercase :: "str \<Rightarrow> str" where
  "to_ascii_lowercase s = map lower s"

definition eq_ignore_ascii_case :: "str \<Rightarrow> str \<Rightarrow> bool" where
  "eq_ignore_ascii_case s t \<longleftrightarrow> map lower s = map lower t"

lemma char_eq_iff_ord: "c = d \<longleftrightarrow> ord c = ord d"
  by simp

lemma ord_char_of_lt: "n < 256 \<Longrightarrow> ord (char_of n) = n"
  by simp

lemma ord_upper: "ord (upper c) = (if 97 \<le> ord c \<and> ord c \<le> 122 then ord c - 32 else ord c)"
  by (auto simp: upper_def is_ascii_lower_def)

lemma ord_lower: "ord (lower c) = (if 65 \<le> ord c \<and> ord c \<le> 90 then ord c + 32 else ord c)"
  by (auto simp: lower_def is_ascii_upper_def)

lemma lower_upper [simp]: "lower (upper c) = lower c"
  by (rule iffD2 [OF char_eq_iff_ord]) (auto simp: ord_lower ord_upper)

lemma upper_lower [simp]: "upper (lower c) = upper c"
  by (rule iffD2 [OF char_eq_iff_ord]) (auto simp: ord_lower ord_upper)

lemma lower_lower [simp]: "lower (lower c) = lower c"
  by (rule iffD2 [OF char_eq_iff_ord]) (auto simp: ord_lower)

lemma upper_upper [simp]: "upper (upper c) = upper c"
  by (rule iffD2 [OF char_eq_iff_ord]) (auto simp: ord_upper)

lemma upper_eq_iff_lower_eq: "upper c = upper d \<longleftrightarrow> lower c = lower d"
  by (metis lower_upper upper_lower)

lemma eq_ignore_refl [simp]: "eq_ignore_ascii_case s s"
  by (simp add: eq_ignore_ascii_case_def)

lemma eq_ignore_sym: "eq_ignore_ascii_case s t \<Longrightarrow> eq_ignore_ascii_case t s"
  by (simp add: eq_ignore_ascii_case_def)

lemma eq_ignore_trans:
  "eq_ignore_ascii_case s t \<Longrightarrow> eq_ignore_ascii_case t u \<Longrightarrow> eq_ignore_ascii_case s u"
  by (simp add: eq_ignore_ascii_case_def)

lemma eq_ignore_length: "eq_ignore_ascii_case s t \<Longrightarrow> length s = length t"
  unfolding eq_ignore_ascii_case_def by (metis length_map)

lemma map_lower_upper: "map lower s = map lower t \<longleftrightarrow> map upper s = map upper t"
proof -
  have "map lower s = map lower (map upper s)" for s by simp
  moreover have "map upper s = map upper (map lower s)" for s by simp
  ultimately show ?thesis by metis
qed

lemma eq_ignore_iff_uppercase:
  "eq_ignore_ascii_case s t \<longleftrightarrow> to_ascii_uppercase s = to_ascii_uppercase t"
  by (simp add: eq_ignore_ascii_case_def to_ascii_uppercase_def map_lower_upper)

lemma uppercase_idem [simp]: "to_ascii_uppercase (to_ascii_uppercase s) = to_ascii_uppercase s"
  by (simp add: to_ascii_uppercase_def)

lemma length_uppercase [simp]: "length (to_ascii_uppercase s) = length s"
  by (simp add: to_ascii_uppercase_def)

lemma eq_ignore_uppercase [simp]: "eq_ignore_ascii_case (to_ascii_uppercase s) s"
  by (simp add: eq_ignore_iff_uppercase)

subsection \<open>UTF-8: character boundaries, segments and code points\<close>

text \<open>
  \<open>is_cont\<close> recognises a continuation byte (\<open>10xxxxxx\<close>). An offset is a character boundary when
  it is an end of the string or the byte it points at is not a continuation byte.
\<close>

definition is_cont :: "char \<Rightarrow> bool" where
  "is_cont c \<longleftrightarrow> 128 \<le> ord c \<and> ord c < 192"

definition is_char_boundary :: "str \<Rightarrow> nat \<Rightarrow> bool" where
  "is_char_boundary s i \<longleftrightarrow>
     i = 0 \<or> i = length s \<or> (i < length s \<and> \<not> is_cont (s ! i))"

definition get_to :: "str \<Rightarrow> nat \<Rightarrow> str option" where
  "get_to s j = (if is_char_boundary s j then Some (take j s) else None)"

definition get_from :: "str \<Rightarrow> nat \<Rightarrow> str option" where
  "get_from s i = (if is_char_boundary s i then Some (drop i s) else None)"

definition get_range :: "str \<Rightarrow> nat \<Rightarrow> nat \<Rightarrow> str option" where
  "get_range s i j =
     (if i \<le> j \<and> is_char_boundary s i \<and> is_char_boundary s j
      then Some (drop i (take j s)) else None)"

lemma get_to_length [simp]: "get_to s (length s) = Some s"
  by (simp add: get_to_def is_char_boundary_def)

lemma get_to_0 [simp]: "get_to s 0 = Some []"
  by (simp add: get_to_def is_char_boundary_def)

lemma get_from_0 [simp]: "get_from s 0 = Some s"
  by (simp add: get_from_def is_char_boundary_def)

lemma get_from_Some: "get_from s i = Some t \<longleftrightarrow> is_char_boundary s i \<and> t = drop i s"
  by (auto simp: get_from_def)

lemma get_to_Some: "get_to s i = Some t \<longleftrightarrow> is_char_boundary s i \<and> t = take i s"
  by (auto simp: get_to_def)

lemma boundary_at_ascii: "i < length s \<Longrightarrow> is_ascii (s ! i) \<Longrightarrow> is_char_boundary s i"
  by (simp add: is_char_boundary_def is_ascii_def is_cont_def)

lemma boundary_append: "is_ascii c \<Longrightarrow> is_char_boundary (a @ c # b) (length a)"
  by (rule boundary_at_ascii) simp_all

lemma boundary_le: "is_char_boundary s i \<Longrightarrow> i \<le> length s"
  by (auto simp: is_char_boundary_def)

text \<open>The byte classes on the bits of a byte, for the evaluation of concrete texts.\<close>

lemma upper_code [code]:
  "upper (Char b0 b1 b2 b3 b4 b5 b6 b7) =
     Char b0 b1 b2 b3 b4
       (b5 \<and> \<not> (b6 \<and> \<not> b7 \<and> (b0 \<or> b1 \<or> b2 \<or> b3 \<or> b4) \<and> \<not> (b4 \<and> b3 \<and> (b2 \<or> b1 \<and> b0)))) b6 b7"
  by (cases b0; cases b1; cases b2; cases b3; cases b4; cases b5; cases b6; cases b7;
      simp add: upper_def is_ascii_lower_def char_of_def bit_0)

lemma lower_code [code]:
  "lower (Char b0 b1 b2 b3 b4 b5 b6 b7) =
     Char b0 b1 b2 b3 b4
       (b5 \<or> (b6 \<and> \<not> b7 \<and> (b0 \<or> b1 \<or> b2 \<or> b3 \<or> b4) \<and> \<not> (b4 \<and> b3 \<and> (b2 \<or> b1 \<and> b0)))) b6 b7"
  by (cases b0; cases b1; cases b2; cases b3; cases b4; cases b5; cases b6; cases b7;
      simp add: lower_def is_ascii_upper_def char_of_def bit_0)

lemma is_cont_code [code]: "is_cont (Char b0 b1 b2 b3 b4 b5 b6 b7) \<longleftrightarrow> b7 \<and> \<not> b6"
  by (cases b0; cases b1; cases b2; cases b3; cases b4; cases b5; cases b6; cases b7;
      simp add: is_cont_def)

lemma is_ascii_code [code]: "is_ascii (Char b0 b1 b2 b3 b4 b5 b6 b7) \<longleftrightarrow> \<not> b7"
  by (cases b0; cases b1; cases b2; cases b3; cases b4; cases b5; cases b6; cases b7;
      simp add: is_ascii_def)

lemma is_ascii_digit_code [code]:
  "is_ascii_digit (Char b0 b1 b2 b3 b4 b5 b6 b7) \<longleftrightarrow>
     b4 \<and> b5 \<and> \<not> b6 \<and> \<not> b7 \<and> \<not> (b3 \<and> (b2 \<or> b1))"
  by (cases b0; cases b1; cases b2; cases b3; cases b4; cases b5; cases b6; cases b7;
      simp add: is_ascii_digit_def)

text \<open>The length in bytes of the character a lead byte opens, and the code point of a character.\<close>

definition utf8_width :: "char \<Rightarrow> nat" where
  "utf8_width b = (if ord b < 128 then 1 else if ord b < 224 then 2
                   else if ord b < 240 then 3 else 4)"

function segs :: "str \<Rightarrow> str list" where
  "segs [] = []"
| "segs (b # bs) = (b # take (utf8_width b - 1) bs) # segs (drop (utf8_width b - 1) bs)"
  by pat_completeness auto
termination
  by (relation "measure length") auto

fun decode_seg :: "str \<Rightarrow> uchar" where
  "decode_seg [] = 0"
| "decode_seg [a] = ord a"
| "decode_seg [a, b] = (ord a mod 32) * 64 + ord b mod 64"
| "decode_seg [a, b, c] = (ord a mod 16) * 4096 + (ord b mod 64) * 64 + ord c mod 64"
| "decode_seg (a # b # c # d # _) =
     (ord a mod 8) * 262144 + (ord b mod 64) * 4096 + (ord c mod 64) * 64 + ord d mod 64"

text \<open>
  \<open>core::str::from_utf8\<close>: the well-formed byte sequences of Unicode table 3-7 (no overlong form,
  no surrogate, nothing above U+10FFFF).
\<close>

definition in_range :: "nat \<Rightarrow> nat \<Rightarrow> char \<Rightarrow> bool" where
  "in_range lo hi c \<longleftrightarrow> lo \<le> ord c \<and> ord c \<le> hi"

fun valid_seg :: "str \<Rightarrow> bool" where
  "valid_seg [a] = is_ascii a"
| "valid_seg [a, b] = (in_range 194 223 a \<and> is_cont b)"
| "valid_seg [a, b, c] =
     (is_cont c \<and>
      (ord a = 224 \<and> in_range 160 191 b \<or> in_range 225 236 a \<and> is_cont b \<or>
       ord a = 237 \<and> in_range 128 159 b \<or> in_range 238 239 a \<and> is_cont b))"
| "valid_seg [a, b, c, d] =
     (is_cont c \<and> is_cont d \<and>
      (ord a = 240 \<and> in_range 144 191 b \<or> in_range 241 243 a \<and> is_cont b \<or>
       ord a = 244 \<and> in_range 128 143 b))"
| "valid_seg _ = False"

text \<open>
  The code point of one segment. A \<open>&str\<close> has well-formed segments only; an ill-formed one, which
  no Rust string contains, reads as the replacement character.
\<close>

definition code_point :: "str \<Rightarrow> uchar" where
  "code_point w = (if valid_seg w then decode_seg w else 65533)"

lemma code_point_ascii [simp]: "is_ascii a \<Longrightarrow> code_point [a] = ord a"
  by (simp add: code_point_def)

lemma mod_by_offset:
  fixes n k m :: nat
  assumes "k \<le> n" and "n < k + m" and "m dvd k"
  shows "n mod m = n - k"
proof -
  have "n mod m = (k + (n - k)) mod m"
    using assms(1) by simp
  also have "\<dots> = (k mod m + (n - k)) mod m"
    by (simp only: mod_add_left_eq)
  also have "\<dots> = n - k"
    using assms by (simp add: dvd_imp_mod_0)
  finally show ?thesis .
qed

lemma code_point_less_128:
  assumes "code_point w < 128"
  obtains a where "w = [a]" and "is_ascii a" and "code_point w = ord a"
proof -
  from assms have v: "valid_seg w" and d: "decode_seg w < 128"
    by (auto simp: code_point_def split: if_splits)
  then have "\<exists>a. w = [a] \<and> is_ascii a"
  proof (cases w rule: valid_seg.cases)
    case (2 a b)
    with v have "ord a mod 32 = ord a - 192" and "194 \<le> ord a"
      using mod_by_offset [of 192 "ord a" 32] by (auto simp: in_range_def)
    with d 2 show ?thesis by auto
  next
    case (3 a b c)
    have "ord a = 224 \<and> ord b mod 64 = ord b - 128 \<and> 160 \<le> ord b \<or>
        ord a mod 16 = ord a - 224 \<and> 225 \<le> ord a"
      using v 3 mod_by_offset [of 128 "ord b" 64] mod_by_offset [of 224 "ord a" 16]
      by (auto simp: in_range_def)
    with d 3 show ?thesis by auto
  next
    case (4 a b c e)
    have "ord a = 240 \<and> ord b mod 64 = ord b - 128 \<and> 144 \<le> ord b \<or>
        ord a mod 8 = ord a - 240 \<and> 241 \<le> ord a"
      using v 4 mod_by_offset [of 128 "ord b" 64] mod_by_offset [of 240 "ord a" 8]
      by (auto simp: in_range_def)
    with d 4 show ?thesis by auto
  qed auto
  then obtain a where "w = [a]" "is_ascii a" by blast
  then show thesis using that by simp
qed

definition chars :: "str \<Rightarrow> uchar list" where
  "chars s = map code_point (segs s)"

text \<open>\<open>str::contains(char)\<close>.\<close>

definition contains_char :: "str \<Rightarrow> uchar \<Rightarrow> bool" where
  "contains_char s c \<longleftrightarrow> c \<in> set (chars s)"

lemma concat_segs [simp]: "concat (segs s) = s"
  by (induction s rule: segs.induct) auto

lemma segs_nonempty: "w \<in> set (segs s) \<Longrightarrow> w \<noteq> []"
  by (induction s rule: segs.induct) auto

lemma segs_ascii_Cons: "is_ascii b \<Longrightarrow> segs (b # bs) = [b] # segs bs"
  by (simp add: is_ascii_def utf8_width_def)

lemma segs_ascii: "list_all is_ascii s \<Longrightarrow> segs s = map (\<lambda>b. [b]) s"
  by (induction s) (auto simp: segs_ascii_Cons simp del: segs.simps(2))

lemma chars_ascii: "list_all is_ascii s \<Longrightarrow> chars s = map ord s"
  by (auto simp: chars_def segs_ascii list_all_iff)

definition valid_utf8 :: "str \<Rightarrow> bool" where
  "valid_utf8 s \<longleftrightarrow> list_all valid_seg (segs s)"

lemma valid_utf8_ascii: "list_all is_ascii s \<Longrightarrow> valid_utf8 s"
  by (auto simp: valid_utf8_def segs_ascii list_all_iff)

lemma valid_utf8_Nil [simp]: "valid_utf8 []"
  by (simp add: valid_utf8_def)

lemma valid_seg_head_not_cont: "valid_seg (a # w) \<Longrightarrow> \<not> is_cont a"
  by (cases "a # w" rule: valid_seg.cases)
     (auto simp: in_range_def is_ascii_def is_cont_def)

lemma valid_utf8_head_not_cont: "valid_utf8 (a # s) \<Longrightarrow> \<not> is_cont a"
  by (auto simp: valid_utf8_def dest: valid_seg_head_not_cont)

lemma valid_utf8_ascii_Cons: "is_ascii a \<Longrightarrow> valid_utf8 (a # s) \<longleftrightarrow> valid_utf8 s"
  by (simp add: valid_utf8_def segs_ascii_Cons del: segs.simps(2))

text \<open>In a well-formed string whatever follows an ASCII byte starts at a boundary.\<close>

lemma valid_seg_ascii_single:
  "valid_seg w \<Longrightarrow> a \<in> set w \<Longrightarrow> is_ascii a \<Longrightarrow> w = [a]"
  by (cases w rule: valid_seg.cases) (auto simp: is_ascii_def is_cont_def in_range_def)

lemma valid_utf8_split_ascii:
  assumes "valid_utf8 (u @ a # v)" and "is_ascii a"
  shows "valid_utf8 u \<and> valid_utf8 v"
  using assms(1)
proof (induction "u" rule: segs.induct)
  case 1
  then show ?case using assms(2) by (simp add: valid_utf8_ascii_Cons)
next
  case (2 b bs)
  define n where "n = utf8_width b - 1"
  let ?rest = "bs @ a # v"
  have seg: "valid_seg (b # take n ?rest)" and rest: "valid_utf8 (drop n ?rest)"
    using "2.prems" by (auto simp: valid_utf8_def n_def)
  have len: "n \<le> length bs"
  proof (rule ccontr)
    assume "\<not> n \<le> length bs"
    then have "a \<in> set (take n ?rest)"
      by (auto simp: take_Cons' not_le)
    then have "b # take n ?rest = [a]"
      using valid_seg_ascii_single [OF seg _ assms(2)] by simp
    then show False
      using \<open>a \<in> set (take n ?rest)\<close> \<open>\<not> n \<le> length bs\<close> by auto
  qed
  then have "take n ?rest = take n bs" and d: "drop n ?rest = drop n bs @ a # v"
    by auto
  then have "valid_seg (b # take n bs)" and "valid_utf8 (drop n bs @ a # v)"
    using seg rest by simp_all
  with "2.IH" show ?case by (simp add: n_def valid_utf8_def)
qed

subsection \<open>Searching, stripping and splitting\<close>

primrec find_byte :: "char \<Rightarrow> str \<Rightarrow> nat option" where
  "find_byte c [] = None"
| "find_byte c (x # xs) = (if x = c then Some 0 else map_option Suc (find_byte c xs))"

lemma find_byte_None [str_simps]: "find_byte c s = None \<longleftrightarrow> c \<notin> set s"
  by (induction s) auto

lemma find_byte_append [str_simps]: "c \<notin> set a \<Longrightarrow> find_byte c (a @ c # b) = Some (length a)"
  by (induction a) auto

lemma find_byte_SomeD:
  "find_byte c s = Some i \<Longrightarrow>
     i < length s \<and> s = take i s @ c # drop (Suc i) s \<and> c \<notin> set (take i s)"
  by (induction s arbitrary: i) (auto split: if_splits)

lemma find_byte_SomeE:
  assumes "find_byte c s = Some i"
  obtains a b where "s = a @ c # b" and "c \<notin> set a" and "i = length a"
proof -
  from find_byte_SomeD [OF assms] show thesis
    by (intro that [of "take i s" "drop (Suc i) s"]) auto
qed

definition strip_prefix_char :: "char \<Rightarrow> str \<Rightarrow> str option" where
  "strip_prefix_char c s = (case s of x # xs \<Rightarrow> if x = c then Some xs else None | [] \<Rightarrow> None)"

definition strip_suffix_char :: "char \<Rightarrow> str \<Rightarrow> str option" where
  "strip_suffix_char c s = (if s \<noteq> [] \<and> last s = c then Some (butlast s) else None)"

fun strip_prefix :: "str \<Rightarrow> str \<Rightarrow> str option" where
  "strip_prefix [] s = Some s"
| "strip_prefix (p # ps) [] = None"
| "strip_prefix (p # ps) (x # xs) = (if p = x then strip_prefix ps xs else None)"

lemma strip_suffix_char_Some:
  "strip_suffix_char c s = Some t \<longleftrightarrow> s = t @ [c]"
  unfolding strip_suffix_char_def by (metis option.inject option.distinct(1) snoc_eq_iff_butlast)

lemma strip_suffix_char_None:
  "strip_suffix_char c s = None \<longleftrightarrow> (\<forall>t. s \<noteq> t @ [c])"
  using strip_suffix_char_Some by (metis not_Some_eq)

lemma strip_prefix_Some: "strip_prefix p s = Some t \<longleftrightarrow> s = p @ t"
  by (induction p s rule: strip_prefix.induct) auto

text \<open>\<open>str::split\<close> on a predicate of ASCII bytes: always at least one field.\<close>

fun split_by :: "(char \<Rightarrow> bool) \<Rightarrow> str \<Rightarrow> str list" where
  "split_by P [] = [[]]"
| "split_by P (x # xs) =
     (if P x then [] # split_by P xs
      else (case split_by P xs of [] \<Rightarrow> [[x]] | w # ws \<Rightarrow> (x # w) # ws))"

abbreviation split_on :: "char \<Rightarrow> str \<Rightarrow> str list" where
  "split_on c \<equiv> split_by (\<lambda>x. x = c)"

fun join :: "str \<Rightarrow> str list \<Rightarrow> str" where
  "join sep [] = []"
| "join sep [w] = w"
| "join sep (w # v # ws) = w @ sep @ join sep (v # ws)"

lemma split_by_not_Nil [simp]: "split_by P s \<noteq> []"
  by (induction s) (auto split: list.splits)

lemma split_by_no_sep: "w \<in> set (split_by P s) \<Longrightarrow> x \<in> set w \<Longrightarrow> \<not> P x"
proof (induction s arbitrary: w x)
  case Nil
  then show ?case by simp
next
  case (Cons y s)
  then show ?case by (fastforce split: list.splits if_splits)
qed

lemma split_by_none: "list_all (\<lambda>x. \<not> P x) s \<Longrightarrow> split_by P s = [s]"
  by (induction s) auto

lemma split_by_append_sep:
  "list_all (\<lambda>x. \<not> P x) w \<Longrightarrow> P c \<Longrightarrow> split_by P (w @ c # s) = w # split_by P s"
  by (induction w) auto

lemma join_Cons_head: "join sep ((x # w) # ws) = x # join sep (w # ws)"
  by (cases ws) auto

lemma join_split_on: "join [c] (split_on c s) = s"
proof (induction s)
  case Nil
  then show ?case by simp
next
  case (Cons x s)
  obtain w ws where "split_on c s = w # ws"
    using split_by_not_Nil [of "\<lambda>x. x = c" s] by (cases "split_on c s") auto
  with Cons show ?case by (simp add: join_Cons_head)
qed

lemma split_on_join:
  "ws \<noteq> [] \<Longrightarrow> (\<And>w. w \<in> set ws \<Longrightarrow> c \<notin> set w) \<Longrightarrow> split_on c (join [c] ws) = ws"
proof (induction "[c]" ws rule: join.induct)
  case 1
  then show ?case by simp
next
  case (2 w)
  then have "c \<notin> set w" by simp
  then have "list_all (\<lambda>x. x \<noteq> c) w" by (auto simp: list_all_iff)
  then show ?case by (simp add: split_by_none)
next
  case (3 w v ws)
  then have w: "c \<notin> set w" by simp
  then have "list_all (\<lambda>x. x \<noteq> c) w" by (auto simp: list_all_iff)
  with 3 show ?case by (simp add: split_by_append_sep)
qed

text \<open>The tokens of \<open>split_ascii_whitespace\<close>: space, tab, LF, FF and CR separate.\<close>

definition is_ascii_ws :: "char \<Rightarrow> bool" where
  "is_ascii_ws c \<longleftrightarrow> ord c = 32 \<or> ord c = 9 \<or> ord c = 10 \<or> ord c = 12 \<or> ord c = 13"

definition split_ascii_whitespace :: "str \<Rightarrow> str list" where
  "split_ascii_whitespace s = filter (\<lambda>w. w \<noteq> []) (split_by is_ascii_ws s)"

lemma split_ws_token:
  "w \<in> set (split_ascii_whitespace s) \<Longrightarrow> w \<noteq> [] \<and> list_all (\<lambda>x. \<not> is_ascii_ws x) w"
  by (auto simp: split_ascii_whitespace_def list_all_iff dest: split_by_no_sep)

lemma split_ws_join:
  "(\<And>w. w \<in> set ws \<Longrightarrow> w \<noteq> [] \<and> list_all (\<lambda>x. \<not> is_ascii_ws x) w) \<Longrightarrow>
     split_ascii_whitespace (join [CHR '' ''] ws) = ws"
proof (induction "[CHR '' '']" ws rule: join.induct)
  case 1
  then show ?case by (simp add: split_ascii_whitespace_def)
next
  case (2 w)
  then show ?case by (simp add: split_ascii_whitespace_def split_by_none)
next
  case (3 w v ws)
  have sp: "is_ascii_ws CHR '' ''" by (simp add: is_ascii_ws_def)
  have "split_ascii_whitespace (w @ [CHR '' ''] @ join [CHR '' ''] (v # ws)) =
      w # split_ascii_whitespace (join [CHR '' ''] (v # ws))"
    using 3 sp by (simp add: split_ascii_whitespace_def split_by_append_sep)
  with 3 show ?case by simp
qed

end
