(* ===== verification/Text_Num.thy ===== *)
theory Text_Num
  imports Prelude
begin

section \<open>Trimming, integer parsing and printing\<close>

text \<open>
  The rest of the string library: trimming of Unicode white space (\<open>trim\<close>, \<open>trim_end\<close>), the
  \<open>FromStr\<close> instances of \<open>u16\<close>, \<open>u64\<close> and \<open>i32\<close>, and decimal printing. The round trip
  \<open>parse_nat (show_nat n) = Some n\<close> is the lemma every printer of the program rests on.
\<close>

subsection \<open>Unicode white space\<close>

definition is_whitespace :: "uchar \<Rightarrow> bool" where
  "is_whitespace c \<longleftrightarrow>
     9 \<le> c \<and> c \<le> 13 \<or> c = 32 \<or> c = 133 \<or> c = 160 \<or> c = 5760 \<or>
     8192 \<le> c \<and> c \<le> 8202 \<or> c = 8232 \<or> c = 8233 \<or> c = 8239 \<or> c = 8287 \<or> c = 12288"

definition ws_seg :: "str \<Rightarrow> bool" where
  "ws_seg w \<longleftrightarrow> is_whitespace (code_point w)"

definition trim_start :: "str \<Rightarrow> str" where
  "trim_start s = concat (dropWhile ws_seg (segs s))"

definition trim_end :: "str \<Rightarrow> str" where
  "trim_end s = concat (rev (dropWhile ws_seg (rev (segs s))))"

definition trim :: "str \<Rightarrow> str" where
  "trim s = trim_end (trim_start s)"

lemma trim_end_prefix: "\<exists>t. s = trim_end s @ t"
proof -
  have "rev (segs s) = takeWhile ws_seg (rev (segs s)) @ dropWhile ws_seg (rev (segs s))"
    by simp
  then have "segs s =
      rev (dropWhile ws_seg (rev (segs s))) @ rev (takeWhile ws_seg (rev (segs s)))"
    by (metis rev_append rev_rev_ident)
  then have "concat (segs s) =
      trim_end s @ concat (rev (takeWhile ws_seg (rev (segs s))))"
    unfolding trim_end_def by (metis concat_append)
  then show ?thesis by auto
qed

lemma segs_append: "valid_utf8 s \<Longrightarrow> segs (s @ t) = segs s @ segs t"
proof (induction s rule: segs.induct)
  case 1
  then show ?case by simp
next
  case (2 b bs)
  define n where "n = utf8_width b - 1"
  have "valid_seg (b # take n bs)" and v: "valid_utf8 (drop n bs)"
    using "2.prems" by (simp_all add: valid_utf8_def n_def)
  then have len: "n \<le> length bs"
  proof (cases "b # take n bs" rule: valid_seg.cases)
    case (1 a)
    with \<open>valid_seg (b # take n bs)\<close> show ?thesis
      by (auto simp: n_def utf8_width_def is_ascii_def)
  qed (auto simp: n_def utf8_width_def in_range_def split: if_splits
         dest!: arg_cong [where f = length])
  with "2.IH" v show ?case by (simp add: n_def)
qed

text \<open>Trimming the end ignores ASCII white space that follows.\<close>

lemma trim_end_append_ws:
  assumes "valid_utf8 s" and "list_all (\<lambda>c. is_ascii c \<and> is_whitespace (ord c)) t"
  shows "trim_end (s @ t) = trim_end s"
proof -
  have a: "list_all is_ascii t" using assms(2) by (simp add: list_all_iff)
  have "list_all ws_seg (rev (segs t))"
    using assms(2) segs_ascii [OF a] by (auto simp: list_all_iff ws_seg_def)
  then have "dropWhile ws_seg (rev (segs t) @ u) = dropWhile ws_seg u" for u
    by (intro dropWhile_append2) (simp add: list_all_iff)
  then show ?thesis
    using segs_append [OF assms(1)] by (simp add: trim_end_def)
qed

subsection \<open>Decimal digits\<close>

definition digit_val :: "char \<Rightarrow> nat" where
  "digit_val c = ord c - 48"

definition digit_char :: "nat \<Rightarrow> char" where
  "digit_char d = char_of (48 + d)"

lemma digit_char_digit: "d < 10 \<Longrightarrow> is_ascii_digit (digit_char d) \<and> digit_val (digit_char d) = d"
  by (simp add: digit_char_def is_ascii_digit_def digit_val_def)

lemma digit_val_less: "is_ascii_digit c \<Longrightarrow> digit_val c < 10"
  unfolding is_ascii_digit_def digit_val_def by linarith

definition digits_val :: "str \<Rightarrow> nat" where
  "digits_val s = foldl (\<lambda>n c. 10 * n + digit_val c) 0 s"

definition parse_nat :: "str \<Rightarrow> nat option" where
  "parse_nat s = (if s \<noteq> [] \<and> list_all is_ascii_digit s then Some (digits_val s) else None)"

fun show_nat :: "nat \<Rightarrow> str" where
  "show_nat n = (if n < 10 then [digit_char n] else show_nat (n div 10) @ [digit_char (n mod 10)])"

declare show_nat.simps [simp del]

lemma digits_val_snoc: "digits_val (s @ [c]) = 10 * digits_val s + digit_val c"
  by (simp add: digits_val_def)

lemma digits_val_Nil [simp]: "digits_val [] = 0"
  by (simp add: digits_val_def)

lemma show_nat_not_Nil [simp]: "show_nat n \<noteq> []"
  by (subst show_nat.simps) simp

lemma show_nat_digits: "list_all is_ascii_digit (show_nat n)"
proof (induction n rule: show_nat.induct)
  case (1 n)
  then show ?case
    by (subst show_nat.simps) (auto simp: digit_char_digit)
qed

lemma digits_val_show_nat: "digits_val (show_nat n) = n"
proof (induction n rule: show_nat.induct)
  case (1 n)
  show ?case
  proof (cases "n < 10")
    case True
    then show ?thesis
      by (subst show_nat.simps) (simp add: digits_val_def digit_char_digit)
  next
    case False
    with 1 have "digits_val (show_nat (n div 10)) = n div 10" by simp
    with False show ?thesis
      by (subst show_nat.simps) (simp add: digits_val_snoc digit_char_digit)
  qed
qed

lemma parse_show_nat [str_simps]: "parse_nat (show_nat n) = Some n"
  by (simp add: parse_nat_def show_nat_digits digits_val_show_nat)

lemma parse_nat_SomeD: "parse_nat s = Some n \<Longrightarrow> s \<noteq> [] \<and> list_all is_ascii_digit s"
  by (auto simp: parse_nat_def split: if_splits)

subsection \<open>\<open>FromStr\<close> of the integer types\<close>

text \<open>
  An unsigned type accepts one leading plus sign, a signed type one sign; then at least one digit;
  a value out of range is an error. Where the code maps every parse error to the same error of its
  own, the result is an option.
\<close>

definition strip_plus :: "str \<Rightarrow> str" where
  "strip_plus s = unwrap_or s (strip_prefix_char CHR ''+'' s)"

definition parse_unsigned :: "nat \<Rightarrow> str \<Rightarrow> nat option" where
  "parse_unsigned bits s =
     (case parse_nat (strip_plus s) of
        None \<Rightarrow> None
      | Some n \<Rightarrow> if n < 2 ^ bits then Some n else None)"

definition parse_signed :: "nat \<Rightarrow> str \<Rightarrow> int option" where
  "parse_signed bits s =
     (case strip_prefix_char CHR ''-'' s of
        Some t \<Rightarrow>
          (case parse_nat t of
             None \<Rightarrow> None
           | Some n \<Rightarrow> if int n \<le> 2 ^ (bits - 1) then Some (- int n) else None)
      | None \<Rightarrow>
          (case parse_nat (strip_plus s) of
             None \<Rightarrow> None
           | Some n \<Rightarrow> if int n < 2 ^ (bits - 1) then Some (int n) else None))"

abbreviation parse_u16 :: "str \<Rightarrow> nat option" where
  "parse_u16 \<equiv> parse_unsigned 16"

abbreviation parse_u64 :: "str \<Rightarrow> nat option" where
  "parse_u64 \<equiv> parse_unsigned 64"

abbreviation parse_i32 :: "str \<Rightarrow> int option" where
  "parse_i32 \<equiv> parse_signed 32"

definition show_int :: "int \<Rightarrow> str" where
  "show_int i = (if i < 0 then CHR ''-'' # show_nat (nat (- i)) else show_nat (nat i))"

lemma digit_not_sign:
  "is_ascii_digit c \<Longrightarrow> c \<noteq> CHR ''+'' \<and> c \<noteq> CHR ''-''"
  by (auto simp: is_ascii_digit_def)

lemma show_nat_hd: "\<exists>c cs. show_nat n = c # cs \<and> is_ascii_digit c"
  using show_nat_not_Nil [of n] show_nat_digits [of n] by (cases "show_nat n") auto

lemma strip_plus_show_nat [str_simps]: "strip_plus (show_nat n) = show_nat n"
  using show_nat_hd [of n] by (auto simp: strip_plus_def strip_prefix_char_def dest: digit_not_sign)

lemma parse_unsigned_show_nat [str_simps]:
  "n < 2 ^ bits \<Longrightarrow> parse_unsigned bits (show_nat n) = Some n"
  by (simp add: parse_unsigned_def str_simps)

lemma parse_unsigned_bound: "parse_unsigned bits s = Some n \<Longrightarrow> n < 2 ^ bits"
  by (auto simp: parse_unsigned_def split: option.splits if_splits)

lemma parse_signed_show_int [str_simps]:
  assumes "- (2 ^ (bits - 1)) \<le> i" and "i < 2 ^ (bits - 1)"
  shows "parse_signed bits (show_int i) = Some i"
proof (cases "i < 0")
  case True
  with assms show ?thesis
    by (simp add: parse_signed_def show_int_def strip_prefix_char_def str_simps)
next
  case False
  then have "strip_prefix_char CHR ''-'' (show_nat (nat i)) = None"
    using show_nat_hd [of "nat i"] by (auto simp: strip_prefix_char_def dest: digit_not_sign)
  with False assms show ?thesis
    by (simp add: parse_signed_def show_int_def str_simps)
qed

lemma parse_signed_bounds:
  "parse_signed bits s = Some i \<Longrightarrow> - (2 ^ (bits - 1)) \<le> i \<and> i < 2 ^ (bits - 1)"
proof -
  have lo: "- (2 ^ k) \<le> int n" and hi: "- int n < 2 ^ k" for k n
    by (rule order_trans [of _ 0], simp_all) (rule le_less_trans [of _ 0], simp_all)
  assume "parse_signed bits s = Some i"
  then show ?thesis
    by (auto simp: parse_signed_def lo hi split: option.splits if_splits)
qed

end
