(* ===== verification/Interfaces.thy ===== *)
theory Interfaces
  imports Text_Num
begin

section \<open>Interfaces between the components\<close>

text \<open>
  The contracts several components share, stated once as locales. Each is interpreted on the
  model's own definitions in the theory that provides them.
  \<^item> \<open>wire_codec\<close>: a parser and a printer where printing and parsing again gives the value back
    (callsigns, packets, q codes, intervals). \<open>exact_codec\<close> adds that the printer reproduces the
    very text that was parsed.
  \<^item> \<open>inductive_invariant\<close>: a transition system with an invariant that its steps keep (the line
    decoder, the position cache, the client registry, the server, its sessions and its shutdown).
\<close>

locale wire_codec =
  fixes parse :: "str \<Rightarrow> ('e, 'a) result"
    and render :: "'a \<Rightarrow> str"
    and wf :: "'a \<Rightarrow> bool"
  assumes parse_wf: "parse s = Inr x \<Longrightarrow> wf x"
    and parse_render: "wf x \<Longrightarrow> parse (render x) = Inr x"
begin

lemma render_inj: "wf x \<Longrightarrow> wf y \<Longrightarrow> render x = render y \<Longrightarrow> x = y"
  by (metis parse_render sum.inject(2))

lemma wf_iff_parsed: "wf x \<longleftrightarrow> (\<exists>s. parse s = Inr x)"
  using parse_wf parse_render by blast

text \<open>A parsed value survives being printed and parsed any number of times.\<close>

lemma reparse: "parse s = Inr x \<Longrightarrow> parse (render x) = Inr x"
  using parse_wf parse_render by blast

lemma inj_on_wf: "inj_on render {x. wf x}"
  by (rule inj_onI) (auto intro: render_inj)

end

locale exact_codec = wire_codec +
  assumes render_parse: "parse s = Inr x \<Longrightarrow> render x = s"
begin

lemma parse_iff: "parse s = Inr x \<longleftrightarrow> wf x \<and> s = render x"
  using parse_wf parse_render render_parse by metis

lemma parse_inj: "parse s = Inr x \<Longrightarrow> parse t = Inr x \<Longrightarrow> s = t"
  using render_parse by metis

end

locale inductive_invariant =
  fixes init :: "'s \<Rightarrow> bool"
    and step :: "'s \<Rightarrow> 's \<Rightarrow> bool"
    and inv :: "'s \<Rightarrow> bool"
  assumes init_inv: "init s \<Longrightarrow> inv s"
    and step_inv: "inv s \<Longrightarrow> step s t \<Longrightarrow> inv t"
begin

lemma steps_inv: "step\<^sup>*\<^sup>* s t \<Longrightarrow> inv s \<Longrightarrow> inv t"
  by (induction rule: rtranclp_induct) (auto intro: step_inv)

lemma reachable_inv: "init s \<Longrightarrow> step\<^sup>*\<^sup>* s t \<Longrightarrow> inv t"
  using steps_inv init_inv by blast

end

text \<open>
  A window of remembered items: \<open>check\<close> says whether an item was remembered, \<open>first_seen\<close> when it was
  first let through. The laws say that a check answers from the memory as it stands at the
  check's time, that what is let through is remembered with that time, and that nothing within the
  window is forgotten. The client's lemma is that two passes of the same item are more than a
  window apart.
\<close>

locale recent_window =
  fixes check :: "'s \<Rightarrow> 'd \<Rightarrow> nat \<Rightarrow> bool \<times> 's"
    and inv :: "'s \<Rightarrow> bool"
    and clock :: "'s \<Rightarrow> nat"
    and window :: "'s \<Rightarrow> nat"
    and first_seen :: "'s \<Rightarrow> 'd \<Rightarrow> nat option"
  assumes check_inv: "inv s \<Longrightarrow> inv (snd (check s d t))"
    and check_window: "inv s \<Longrightarrow> window (snd (check s d t)) = window s"
    and check_clock: "inv s \<Longrightarrow> clock (snd (check s d t)) = max (clock s) t"
    and check_keeps: "inv s \<Longrightarrow> first_seen s e = Some u \<Longrightarrow> max (clock s) t - u \<le> window s \<Longrightarrow>
          first_seen (snd (check s d t)) e = Some u"
    and check_hit: "inv s \<Longrightarrow> first_seen s d = Some u \<Longrightarrow> max (clock s) t - u \<le> window s \<Longrightarrow>
          fst (check s d t)"
    and check_pass: "inv s \<Longrightarrow> \<not> fst (check s d t) \<Longrightarrow>
          first_seen (snd (check s d t)) d = Some (max (clock s) t)"
begin

fun run :: "'s \<Rightarrow> ('d \<times> nat) list \<Rightarrow> 's" where
  "run s [] = s"
| "run s ((d, t) # ops) = run (snd (check s d t)) ops"

lemma run_inv: "inv s \<Longrightarrow> inv (run s ops)"
  by (induction s ops rule: run.induct) (auto intro: check_inv)

lemma run_window: "inv s \<Longrightarrow> window (run s ops) = window s"
  by (induction s ops rule: run.induct) (auto simp: check_inv check_window)

lemma run_clock_mono: "inv s \<Longrightarrow> clock s \<le> clock (run s ops)"
proof (induction s ops rule: run.induct)
  case (2 s d t ops)
  then show ?case using check_clock [of s d t] check_inv [of s d t] by fastforce
qed simp

lemma run_clock_le:
  "inv s \<Longrightarrow> clock s \<le> b \<Longrightarrow> list_all (\<lambda>(d, t). t \<le> b) ops \<Longrightarrow> clock (run s ops) \<le> b"
  by (induction s ops rule: run.induct) (auto simp: check_clock check_inv)

lemma run_keeps:
  "inv s \<Longrightarrow> first_seen s e = Some u \<Longrightarrow> clock (run s ops) - u \<le> window s \<Longrightarrow>
     first_seen (run s ops) e = Some u"
proof (induction s ops rule: run.induct)
  case (2 s d t ops)
  let ?s = "snd (check s d t)"
  have i: "inv ?s" using 2 check_inv by blast
  have "clock ?s \<le> clock (run ?s ops)" using run_clock_mono [OF i] .
  then have "max (clock s) t - u \<le> window s"
    using "2.prems" check_clock [of s d t] diff_le_mono [of "max (clock s) t" "clock (run ?s ops)" u]
    by simp
  then have "first_seen ?s e = Some u" using check_keeps "2.prems" by blast
  with "2.IH" [OF i] "2.prems" check_window [of s d t] show ?case by simp
qed simp

text \<open>An item let through is refused until the window has passed.\<close>

lemma pass_then_hit:
  assumes "inv s" and "\<not> fst (check s d t)"
    and "max (clock (run (snd (check s d t)) ops)) t' - max (clock s) t \<le> window s"
  shows "fst (check (run (snd (check s d t)) ops) d t')"
proof -
  let ?s = "snd (check s d t)"
  have i: "inv ?s" "inv (run ?s ops)" using assms(1) check_inv run_inv by blast+
  have w: "window (run ?s ops) = window s" using run_window [OF i(1)] check_window [OF assms(1)] by simp
  have "first_seen ?s d = Some (max (clock s) t)" using check_pass [OF assms(1,2)] .
  then have "first_seen (run ?s ops) d = Some (max (clock s) t)"
    by (rule run_keeps [OF i(1)]) (use assms(3) check_window [OF assms(1)] in simp)
  then show ?thesis using check_hit [OF i(2)] assms(3) w by simp
qed

end

end
