(* ===== verification/Callsign.thy ===== *)
theory Callsign
  imports Interfaces
begin

section \<open>Callsign validation (\<open>aprsr-core/src/callsign.rs\<close>)\<close>

text \<open>
  The validator that runs over the source and destination of every packet and over every login
  callsign, the \<open>Callsign\<close> type with its base and SSID, and the wildcard comparison the filters
  use. The central lemma \<open>validate_iff\<close> characterises the accepted strings by a grammar.
\<close>

definition MAX_CALLSIGN_LEN :: nat where "MAX_CALLSIGN_LEN = 9"
definition MIN_LOGIN_LEN :: nat where "MIN_LOGIN_LEN = 3"
definition MAX_SSID_LEN :: nat where "MAX_SSID_LEN = 2"

datatype callsign_error =
    CallEmpty
  | CallTooLong nat
  | TooShortForLogin nat
  | InvalidCharacter uchar
  | MultipleSeparators
  | EmptyBase
  | EmptySsid
  | SsidTooLong

record callsign =
  cs_raw :: str
  cs_separator :: "nat option"

fun char_indices_from :: "nat \<Rightarrow> str list \<Rightarrow> (nat \<times> uchar) list" where
  "char_indices_from i [] = []"
| "char_indices_from i (w # ws) = (i, code_point w) # char_indices_from (i + length w) ws"

definition char_indices :: "str \<Rightarrow> (nat \<times> uchar) list" where
  "char_indices s = char_indices_from 0 (segs s)"

text \<open>The loop of \<open>validate\<close>; the separator offset is cast to \<open>u8\<close>.\<close>

fun validate_loop ::
  "nat option \<Rightarrow> (nat \<times> uchar) list \<Rightarrow> (callsign_error, nat option) result" where
  "validate_loop sep [] = Inr sep"
| "validate_loop sep ((i, ch) # rest) =
     (if 65 \<le> ch \<and> ch \<le> 90 \<or> 48 \<le> ch \<and> ch \<le> 57 then validate_loop sep rest
      else if ch = 45 then
        (if sep \<noteq> None then Inl MultipleSeparators
         else if i = 0 then Inl EmptyBase
         else validate_loop (Some (i mod 256)) rest)
      else Inl (InvalidCharacter ch))"

definition validate :: "str \<Rightarrow> (callsign_error, nat option) result" where
  "validate s =
     (if s = [] then Inl CallEmpty
      else if length s > MAX_CALLSIGN_LEN then Inl (CallTooLong (length s))
      else and_then (validate_loop None (char_indices s)) (\<lambda>sep.
        case sep of
          None \<Rightarrow> Inr None
        | Some i \<Rightarrow>
            (let ssid_len = length s - i - 1 in
             if ssid_len = 0 then Inl EmptySsid
             else if ssid_len > MAX_SSID_LEN then Inl SsidTooLong
             else Inr (Some i))))"

definition callsign_parse :: "str \<Rightarrow> (callsign_error, callsign) result" where
  "callsign_parse s =
     and_then (validate s) (\<lambda>sep. Inr \<lparr>cs_raw = s, cs_separator = sep\<rparr>)"

definition parse_login :: "str \<Rightarrow> (callsign_error, callsign) result" where
  "parse_login s =
     (if length s < MIN_LOGIN_LEN then Inl (TooShortForLogin (length s)) else callsign_parse s)"

definition callsign_as_str :: "callsign \<Rightarrow> str" where
  "callsign_as_str c = cs_raw c"

definition callsign_base :: "callsign \<Rightarrow> str" where
  "callsign_base c =
     (case cs_separator c of Some i \<Rightarrow> unwrap_or (cs_raw c) (get_to (cs_raw c) i) | None \<Rightarrow> cs_raw c)"

definition callsign_ssid :: "callsign \<Rightarrow> str option" where
  "callsign_ssid c =
     (case cs_separator c of None \<Rightarrow> None | Some i \<Rightarrow> get_from (cs_raw c) (i + 1))"

definition validate_for_packet :: "str \<Rightarrow> (callsign_error, unit) result" where
  "validate_for_packet s = and_then (validate s) (\<lambda>_. Inr ())"

definition is_valid :: "str \<Rightarrow> bool" where
  "is_valid s \<longleftrightarrow> is_ok (validate s)"

definition starts_with_ignore_case :: "str \<Rightarrow> str \<Rightarrow> bool" where
  "starts_with_ignore_case haystack prefix \<longleftrightarrow>
     length prefix \<le> length haystack \<and>
     eq_ignore_ascii_case (take (length prefix) haystack) prefix"

definition matches_pattern :: "str \<Rightarrow> str \<Rightarrow> bool" where
  "matches_pattern pat call =
     (case strip_suffix_char CHR ''*'' pat of
        Some prefix \<Rightarrow> length prefix \<le> length call \<and> starts_with_ignore_case call prefix
      | None \<Rightarrow> eq_ignore_ascii_case pat call)"

subsection \<open>The accepted language\<close>

definition is_call_char :: "char \<Rightarrow> bool" where
  "is_call_char c \<longleftrightarrow> is_ascii_upper c \<or> is_ascii_digit c"

definition alnum_word :: "str \<Rightarrow> bool" where
  "alnum_word w \<longleftrightarrow> w \<noteq> [] \<and> list_all is_call_char w"

lemma is_call_char_ascii: "is_call_char c \<Longrightarrow> is_ascii c"
  by (auto simp: is_call_char_def is_ascii_upper_def is_ascii_digit_def is_ascii_def)

lemma is_call_char_iff_ord:
  "is_call_char c \<longleftrightarrow> 65 \<le> ord c \<and> ord c \<le> 90 \<or> 48 \<le> ord c \<and> ord c \<le> 57"
  by (simp add: is_call_char_def is_ascii_upper_def is_ascii_digit_def)

lemma hyphen_not_call_char [simp]: "\<not> is_call_char CHR ''-''"
  by (simp add: is_call_char_iff_ord)

lemma char_indices_from_ascii:
  "list_all is_ascii s \<Longrightarrow>
     char_indices_from i (segs s) = zip [i ..< i + length s] (map ord s)"
proof (induction s arbitrary: i)
  case Nil
  then show ?case by simp
next
  case (Cons a s)
  then show ?case
    by (simp add: segs_ascii_Cons upt_conv_Cons del: segs.simps(2) upt_Suc)
qed

text \<open>The loop over a string of callsign characters keeps the separator it has.\<close>

lemma validate_loop_word:
  "list_all is_call_char w \<Longrightarrow>
     validate_loop sep (char_indices_from i (segs (w @ t))) =
     validate_loop sep (char_indices_from (i + length w) (segs t))"
proof (induction w arbitrary: i)
  case Nil
  then show ?case by simp
next
  case (Cons a w)
  then have a: "is_call_char a" by simp
  with Cons show ?case
    by (simp add: segs_ascii_Cons is_call_char_ascii is_call_char_iff_ord del: segs.simps(2))
qed

lemma code_point_call_char:
  assumes "65 \<le> code_point w \<and> code_point w \<le> 90 \<or> 48 \<le> code_point w \<and> code_point w \<le> 57"
  obtains a where "w = [a]" and "is_call_char a"
proof -
  from assms have "code_point w < 128" by auto
  then obtain a where "w = [a]" "code_point w = ord a" by (rule code_point_less_128)
  with assms that show thesis by (auto simp: is_call_char_iff_ord)
qed

lemma code_point_hyphen: "code_point w = 45 \<Longrightarrow> w = [CHR ''-'']"
proof -
  assume h: "code_point w = 45"
  then have "code_point w < 128" by simp
  then obtain a where "w = [a]" "code_point w = ord a" by (rule code_point_less_128)
  with h have "ord a = ord CHR ''-''" by simp
  with \<open>w = [a]\<close> show ?thesis by (simp only: of_char_eq_iff)
qed

text \<open>What a successful run says of the segments it went over.\<close>

lemma validate_loop_SomeD:
  assumes "validate_loop (Some k) (char_indices_from i ws) = Inr r"
  shows "list_all is_call_char (concat ws) \<and> r = Some k"
  using assms
proof (induction ws arbitrary: i)
  case Nil
  then show ?case by simp
next
  case (Cons w ws)
  then have "65 \<le> code_point w \<and> code_point w \<le> 90 \<or> 48 \<le> code_point w \<and> code_point w \<le> 57"
    by (auto split: if_splits)
  then obtain a where "w = [a]" "is_call_char a" by (rule code_point_call_char)
  with Cons show ?case by (auto split: if_splits)
qed

lemma validate_loop_NoneD:
  assumes "validate_loop None (char_indices_from i ws) = Inr r"
  shows "r = None \<and> list_all is_call_char (concat ws) \<or>
    (\<exists>b d. concat ws = b @ CHR ''-'' # d \<and> list_all is_call_char b \<and>
       list_all is_call_char d \<and> i + length b \<noteq> 0 \<and> r = Some ((i + length b) mod 256))"
  using assms
proof (induction ws arbitrary: i)
  case Nil
  then show ?case by simp
next
  case (Cons w ws)
  show ?case
  proof (cases "65 \<le> code_point w \<and> code_point w \<le> 90 \<or> 48 \<le> code_point w \<and> code_point w \<le> 57")
    case True
    then obtain a where a: "w = [a]" "is_call_char a" by (rule code_point_call_char)
    from True Cons.prems a have "validate_loop None (char_indices_from (Suc i) ws) = Inr r"
      by (auto split: if_splits)
    from Cons.IH [OF this] show ?thesis
    proof
      assume "r = None \<and> list_all is_call_char (concat ws)"
      with a show ?thesis by simp
    next
      assume "\<exists>b d. concat ws = b @ CHR ''-'' # d \<and> list_all is_call_char b \<and>
        list_all is_call_char d \<and> Suc i + length b \<noteq> 0 \<and>
        r = Some ((Suc i + length b) mod 256)"
      then obtain b d where "concat ws = b @ CHR ''-'' # d" "list_all is_call_char b"
        "list_all is_call_char d" "r = Some ((Suc i + length b) mod 256)" by blast
      with a have "concat (w # ws) = (a # b) @ CHR ''-'' # d \<and> list_all is_call_char (a # b) \<and>
        list_all is_call_char d \<and> i + length (a # b) \<noteq> 0 \<and> r = Some ((i + length (a # b)) mod 256)"
        by simp
      then show ?thesis by blast
    qed
  next
    case False
    with Cons.prems have h: "code_point w = 45" and i: "i \<noteq> 0"
      and v: "validate_loop (Some (i mod 256)) (char_indices_from (i + length w) ws) = Inr r"
      by (auto split: if_splits)
    from validate_loop_SomeD [OF v] code_point_hyphen [OF h] i
    have "concat (w # ws) = [] @ CHR ''-'' # concat ws \<and> list_all is_call_char ([] :: str) \<and>
        list_all is_call_char (concat ws) \<and> i + length ([] :: str) \<noteq> 0 \<and>
        r = Some ((i + length ([] :: str)) mod 256)"
      by simp
    then show ?thesis by blast
  qed
qed

lemma validate_word:
  "alnum_word s \<Longrightarrow> length s \<le> MAX_CALLSIGN_LEN \<Longrightarrow> validate s = Inr None"
  using validate_loop_word [of s None 0 "[]"]
  by (auto simp: validate_def char_indices_def alnum_word_def)

lemma validate_word_ssid:
  assumes "alnum_word b" and "alnum_word d" and "length d \<le> MAX_SSID_LEN"
    and "length b + 1 + length d \<le> MAX_CALLSIGN_LEN"
  shows "validate (b @ CHR ''-'' # d) = Inr (Some (length b))"
proof -
  have ascii: "is_ascii CHR ''-''" by (simp add: is_ascii_def)
  have "validate_loop None (char_indices (b @ CHR ''-'' # d)) =
      validate_loop (Some (length b mod 256)) (char_indices_from (Suc (length b)) (segs (d @ [])))"
    using assms(1) ascii unfolding char_indices_def alnum_word_def
    by (simp add: validate_loop_word segs_ascii_Cons del: segs.simps(2))
  also have "\<dots> = Inr (Some (length b mod 256))"
    using assms(2) by (subst validate_loop_word) (auto simp: alnum_word_def)
  finally show ?thesis
    using assms by (auto simp: validate_def MAX_CALLSIGN_LEN_def alnum_word_def)
qed

lemma validate_InrD:
  assumes "validate s = Inr r"
  shows "s \<noteq> [] \<and> length s \<le> MAX_CALLSIGN_LEN \<and>
    validate_loop None (char_indices s) = Inr r \<and>
    (\<forall>i. r = Some i \<longrightarrow> length s - i - 1 \<noteq> 0 \<and> length s - i - 1 \<le> MAX_SSID_LEN)"
proof -
  from assms have len: "s \<noteq> []" "length s \<le> MAX_CALLSIGN_LEN"
    by (auto simp: validate_def split: if_splits)
  with assms obtain sep where sep: "validate_loop None (char_indices s) = Inr sep"
    and c: "(case sep of None \<Rightarrow> Inr None | Some i \<Rightarrow>
        if length s \<le> Suc i then Inl EmptySsid
        else if MAX_SSID_LEN < length s - Suc i then Inl SsidTooLong else Inr (Some i)) = Inr r"
    by (auto simp: validate_def and_then_Inr)
  from c have "r = sep \<and>
      (\<forall>i. r = Some i \<longrightarrow> length s - i - 1 \<noteq> 0 \<and> length s - i - 1 \<le> MAX_SSID_LEN)"
    by (cases sep) (auto split: if_splits)
  with len sep show ?thesis by simp
qed

theorem validate_iff:
  "validate s = Inr r \<longleftrightarrow>
     length s \<le> MAX_CALLSIGN_LEN \<and>
     (alnum_word s \<and> r = None \<or>
      (\<exists>b d. s = b @ CHR ''-'' # d \<and> alnum_word b \<and> alnum_word d \<and>
         length d \<le> MAX_SSID_LEN \<and> r = Some (length b)))"
  (is "?l \<longleftrightarrow> ?r")
proof
  assume v: ?l
  then have len: "s \<noteq> []" "length s \<le> MAX_CALLSIGN_LEN"
    and loop: "validate_loop None (char_indices_from 0 (segs s)) = Inr r"
    and ssid: "\<And>i. r = Some i \<Longrightarrow> length s - i - 1 \<noteq> 0 \<and> length s - i - 1 \<le> MAX_SSID_LEN"
    using validate_InrD [of s r] by (simp_all add: char_indices_def)
  from validate_loop_NoneD [OF loop] show ?r
  proof (elim disjE exE conjE)
    assume "r = None" and "list_all is_call_char (concat (segs s))"
    with len show ?r by (simp add: alnum_word_def)
  next
    fix b d
    assume s: "concat (segs s) = b @ CHR ''-'' # d" and w: "list_all is_call_char b"
      "list_all is_call_char d" and b: "0 + length b \<noteq> 0"
      and r: "r = Some ((0 + length b) mod 256)"
    from s len have "length b < 256" by (simp add: MAX_CALLSIGN_LEN_def)
    with r have r': "r = Some (length b)" by simp
    from ssid [OF r'] s have "d \<noteq> []" "length d \<le> MAX_SSID_LEN" by auto
    with s w b r' len show ?r by (auto simp: alnum_word_def)
  qed
next
  assume ?r
  then show ?l using validate_word validate_word_ssid by fastforce
qed

subsection \<open>The parsed type\<close>

definition callsign_wf :: "callsign \<Rightarrow> bool" where
  "callsign_wf c \<longleftrightarrow>
     length (cs_raw c) \<le> MAX_CALLSIGN_LEN \<and>
     (case cs_separator c of
        None \<Rightarrow> alnum_word (cs_raw c)
      | Some i \<Rightarrow>
          i < length (cs_raw c) \<and> cs_raw c ! i = CHR ''-'' \<and> alnum_word (take i (cs_raw c)) \<and>
          alnum_word (drop (Suc i) (cs_raw c)) \<and> length (drop (Suc i) (cs_raw c)) \<le> MAX_SSID_LEN)"

lemma callsign_wf_SomeE:
  assumes "callsign_wf c" and "cs_separator c = Some i"
  obtains b d where "cs_raw c = b @ CHR ''-'' # d" and "alnum_word b" and "alnum_word d"
    and "length d \<le> MAX_SSID_LEN" and "i = length b"
proof (rule that)
  from assms show "cs_raw c = take i (cs_raw c) @ CHR ''-'' # drop (Suc i) (cs_raw c)"
    using id_take_nth_drop [of i "cs_raw c"] by (auto simp: callsign_wf_def)
qed (use assms in \<open>auto simp: callsign_wf_def\<close>)

lemma callsign_parse_wf_iff: "callsign_parse s = Inr c \<longleftrightarrow> callsign_wf c \<and> s = cs_raw c"
proof
  assume "callsign_parse s = Inr c"
  then have v: "validate s = Inr (cs_separator c)" and r: "cs_raw c = s"
    by (auto simp: callsign_parse_def res_simps)
  from v show "callsign_wf c \<and> s = cs_raw c"
    unfolding validate_iff using r by (auto simp: callsign_wf_def nth_append split: option.splits)
next
  assume c: "callsign_wf c \<and> s = cs_raw c"
  have "validate s = Inr (cs_separator c)"
  proof (cases "cs_separator c")
    case None
    with c show ?thesis by (auto simp: validate_iff callsign_wf_def)
  next
    case (Some i)
    with c callsign_wf_SomeE [OF _ Some] show ?thesis
      unfolding validate_iff by (metis callsign_wf_def)
  qed
  with c show "callsign_parse s = Inr c" by (simp add: callsign_parse_def)
qed

interpretation callsign_codec: exact_codec callsign_parse callsign_as_str callsign_wf
  by unfold_locales (auto simp: callsign_parse_wf_iff callsign_as_str_def)

text \<open>The two parts a parsed callsign splits into, and how they make up the whole again.\<close>

lemma callsign_parts:
  assumes "callsign_parse s = Inr c"
  shows "alnum_word (callsign_base c)"
    and "case callsign_ssid c of
           None \<Rightarrow> s = callsign_base c
         | Some d \<Rightarrow> s = callsign_base c @ CHR ''-'' # d \<and> alnum_word d \<and>
             length d \<le> MAX_SSID_LEN"
proof -
  from assms have wf: "callsign_wf c" and s: "s = cs_raw c" by (auto simp: callsign_parse_wf_iff)
  have "alnum_word (callsign_base c) \<and> (case callsign_ssid c of
           None \<Rightarrow> s = callsign_base c
         | Some d \<Rightarrow> s = callsign_base c @ CHR ''-'' # d \<and> alnum_word d \<and>
             length d \<le> MAX_SSID_LEN)"
  proof (cases "cs_separator c")
    case None
    with wf s show ?thesis by (simp add: callsign_wf_def callsign_base_def callsign_ssid_def)
  next
    case (Some i)
    from wf Some obtain b d where bd: "cs_raw c = b @ CHR ''-'' # d" "alnum_word b" "alnum_word d"
      "length d \<le> MAX_SSID_LEN" "i = length b" by (rule callsign_wf_SomeE)
    have "is_char_boundary (cs_raw c) (length b)"
      using bd by (intro boundary_at_ascii) (auto simp: is_ascii_def)
    moreover have "is_char_boundary (cs_raw c) (Suc (length b))"
      using bd by (cases d) (auto simp: alnum_word_def nth_append is_ascii_def
          dest!: is_call_char_ascii intro!: boundary_at_ascii)
    ultimately show ?thesis
      using Some s bd by (simp add: callsign_base_def callsign_ssid_def get_to_def get_from_def)
  qed
  then show "alnum_word (callsign_base c)"
    and "case callsign_ssid c of
           None \<Rightarrow> s = callsign_base c
         | Some d \<Rightarrow> s = callsign_base c @ CHR ''-'' # d \<and> alnum_word d \<and>
             length d \<le> MAX_SSID_LEN"
    by simp_all
qed

lemma alnum_word_ascii: "alnum_word w \<Longrightarrow> list_all is_ascii w"
  by (auto simp: alnum_word_def list_all_iff is_call_char_ascii)

lemma validate_Inr_chars:
  "validate s = Inr r \<Longrightarrow> s \<noteq> [] \<and> list_all (\<lambda>c. is_call_char c \<or> c = CHR ''-'') s"
  by (auto simp: validate_iff alnum_word_def list_all_iff)

lemma validate_for_packet_Inr: "validate_for_packet s = Inr u \<longleftrightarrow> (\<exists>r. validate s = Inr r)"
  by (auto simp: validate_for_packet_def res_simps)

lemma validate_for_packet_chars:
  "validate_for_packet s = Inr u \<Longrightarrow> s \<noteq> [] \<and> list_all (\<lambda>c. is_call_char c \<or> c = CHR ''-'') s"
  unfolding validate_for_packet_Inr using validate_Inr_chars by blast

lemma validate_for_packet_ascii: "validate_for_packet s = Inr u \<Longrightarrow> list_all is_ascii s"
  by (drule validate_for_packet_chars)
     (auto simp: list_all_iff is_ascii_def dest: is_call_char_ascii [unfolded is_ascii_def])

lemma validate_for_packet_notin:
  "validate_for_packet s = Inr u \<Longrightarrow> \<not> is_call_char c \<Longrightarrow> c \<noteq> CHR ''-'' \<Longrightarrow> c \<notin> set s"
  by (drule validate_for_packet_chars) (auto simp: list_all_iff)

subsection \<open>Wildcards\<close>

lemma starts_with_ignore_case_iff:
  "starts_with_ignore_case s p \<longleftrightarrow>
     (\<exists>u v. s = u @ v \<and> to_ascii_uppercase u = to_ascii_uppercase p)"
proof
  assume "starts_with_ignore_case s p"
  then show "\<exists>u v. s = u @ v \<and> to_ascii_uppercase u = to_ascii_uppercase p"
    unfolding starts_with_ignore_case_def eq_ignore_iff_uppercase
    by (metis append_take_drop_id)
next
  assume "\<exists>u v. s = u @ v \<and> to_ascii_uppercase u = to_ascii_uppercase p"
  then obtain u v where "s = u @ v" and uv: "to_ascii_uppercase u = to_ascii_uppercase p" by blast
  moreover from uv have "length u = length p" by (metis length_uppercase)
  ultimately show "starts_with_ignore_case s p"
    by (auto simp: starts_with_ignore_case_def eq_ignore_iff_uppercase)
qed

lemma matches_pattern_wild:
  "matches_pattern (p @ ''*'') call \<longleftrightarrow>
     (\<exists>u v. call = u @ v \<and> to_ascii_uppercase u = to_ascii_uppercase p)"
proof -
  have "strip_suffix_char CHR ''*'' (p @ ''*'') = Some p"
    by (simp add: strip_suffix_char_Some)
  then have "matches_pattern (p @ ''*'') call \<longleftrightarrow> starts_with_ignore_case call p"
    by (auto simp: matches_pattern_def starts_with_ignore_case_def)
  then show ?thesis by (simp only: starts_with_ignore_case_iff)
qed

lemma matches_pattern_exact:
  "last p \<noteq> CHR ''*'' \<Longrightarrow>
     matches_pattern p call \<longleftrightarrow> to_ascii_uppercase p = to_ascii_uppercase call"
  by (auto simp: matches_pattern_def strip_suffix_char_def eq_ignore_iff_uppercase
           split: option.splits if_splits)

lemma matches_pattern_case:
  assumes "to_ascii_uppercase call = to_ascii_uppercase call'"
  shows "matches_pattern p call \<longleftrightarrow> matches_pattern p call'"
proof -
  have "length call = length call'" using assms by (metis length_uppercase)
  moreover have "to_ascii_uppercase (take n call) = to_ascii_uppercase (take n call')" for n
    using assms by (metis to_ascii_uppercase_def take_map)
  ultimately show ?thesis
    using assms by (auto simp: matches_pattern_def starts_with_ignore_case_def
        eq_ignore_iff_uppercase split: option.splits)
qed

subsection \<open>Properties\<close>

text \<open>The validator accepts exactly the callsigns of at most nine bytes made of upper-case
  letters and digits, optionally followed by one hyphen and an SSID of one or two such characters.\<close>

theorem callsign_grammar:
  "is_valid s \<longleftrightarrow>
     length s \<le> 9 \<and>
     (alnum_word s \<or>
      (\<exists>b d. s = b @ CHR ''-'' # d \<and> alnum_word b \<and> alnum_word d \<and> length d \<le> 2))"
  unfolding is_valid_def is_ok_iff validate_iff MAX_CALLSIGN_LEN_def MAX_SSID_LEN_def by blast

text \<open>A parsed callsign renders as the very text it was parsed from, that text is its base
  followed by the hyphen and the SSID when there is one, and rendering it gives a text that parses
  to the same value again.\<close>

theorem callsign_text_parts:
  assumes "callsign_parse s = Inr c"
  shows "callsign_as_str c = s \<and> callsign_parse (callsign_as_str c) = Inr c \<and>
    (case callsign_ssid c of
       None \<Rightarrow> callsign_base c = s \<and> alnum_word s
     | Some d \<Rightarrow> s = callsign_base c @ CHR ''-'' # d \<and> alnum_word (callsign_base c) \<and>
                 alnum_word d \<and> length d \<le> 2)"
  using callsign_codec.reparse [OF assms] callsign_codec.render_parse [OF assms]
    callsign_parts [OF assms] by (auto simp: MAX_SSID_LEN_def split: option.splits)

theorem callsign_text_parts_witness:
  "\<exists>c. callsign_parse ''N0CALL-10'' = Inr c \<and> callsign_ssid c = Some ''10'' \<and>
     callsign_parse (callsign_as_str c) = Inr c"
proof -
  have "callsign_parse ''N0CALL-10'' = Inr \<lparr>cs_raw = ''N0CALL-10'', cs_separator = Some 6\<rparr>"
    by code_simp
  moreover have "callsign_ssid \<lparr>cs_raw = ''N0CALL-10'', cs_separator = Some 6\<rparr> = Some ''10''"
    by code_simp
  ultimately show ?thesis using callsign_text_parts by blast
qed

end
