(* ===== verification/Passcode.thy ===== *)
theory Passcode
  imports Callsign
begin

section \<open>Passcodes (\<open>aprsr-core/src/passcode.rs\<close>)\<close>

text \<open>
  The 15-bit hash of the base callsign, on 16-bit words as the code computes it, and the check of a
  presented passcode. \<open>gen_loop\<close> is the code's index loop; \<open>hash_pairs\<close> is the reference function
  it is shown equal to.
\<close>

unbundle bit_operations_syntax

definition RECEIVE_ONLY :: int where "RECEIVE_ONLY = -1"
definition SEED :: "16 word" where "SEED = 0x73e2"
definition MASK :: "16 word" where "MASK = 0x7fff"

datatype verification = Verified | ReceiveOnly | Invalid

definition may_transmit :: "verification \<Rightarrow> bool" where
  "may_transmit v \<longleftrightarrow> v = Verified"

definition byte_word :: "char \<Rightarrow> 16 word" where
  "byte_word c = word_of_nat (ord (upper c))"

function gen_loop :: "str \<Rightarrow> nat \<Rightarrow> 16 word \<Rightarrow> 16 word" where
  "gen_loop base i hash =
     (if i < length base then
        (let hash = (case get base i of
                       Some high \<Rightarrow> hash XOR push_bit 8 (byte_word high) | None \<Rightarrow> hash);
             hash = (case get base (i + 1) of
                       Some low \<Rightarrow> hash XOR byte_word low | None \<Rightarrow> hash)
         in gen_loop base (i + 2) hash)
      else hash)"
  by pat_completeness auto
termination
  by (relation "measure (\<lambda>(base, i, hash). length base - i)") auto

declare gen_loop.simps [simp del]

definition generate :: "str \<Rightarrow> 16 word" where
  "generate callsign =
     gen_loop (unwrap_or callsign (get (split_on CHR ''-'' callsign) 0)) 0 SEED AND MASK"

definition verify :: "str \<Rightarrow> int \<Rightarrow> verification" where
  "verify callsign presented =
     (if presented = RECEIVE_ONLY then ReceiveOnly
      else if 0 \<le> presented \<and> presented < 65536 \<and>
              word_of_int presented = generate callsign then Verified
      else Invalid)"

subsection \<open>The reference hash\<close>

fun hash_pairs :: "16 word \<Rightarrow> str \<Rightarrow> 16 word" where
  "hash_pairs h [] = h"
| "hash_pairs h [a] = h XOR push_bit 8 (byte_word a)"
| "hash_pairs h (a # b # cs) = hash_pairs ((h XOR push_bit 8 (byte_word a)) XOR byte_word b) cs"

lemma gen_loop_eq_hash_pairs: "gen_loop base i h = hash_pairs h (drop i base)"
proof (induction base i h rule: gen_loop.induct)
  case (1 base i h)
  show ?case
  proof (cases "i < length base")
    case False
    then show ?thesis by (subst gen_loop.simps) simp
  next
    case True
    then have d: "drop i base = base ! i # drop (Suc i) base"
      by (simp add: Cons_nth_drop_Suc)
    show ?thesis
    proof (cases "Suc i < length base")
      case False
      with True have "drop (Suc i) base = []" and "drop (Suc (Suc i)) base = []" by simp_all
      with True False d "1.IH" show ?thesis
        by (subst gen_loop.simps) (simp add: get_def Let_def)
    next
      case t2: True
      then have "drop (Suc i) base = base ! Suc i # drop (Suc (Suc i)) base"
        by (simp add: Cons_nth_drop_Suc)
      with True t2 d "1.IH" show ?thesis
        by (subst gen_loop.simps) (simp add: get_def Let_def)
    qed
  qed
qed

definition base_of :: "str \<Rightarrow> str" where
  "base_of s = takeWhile (\<lambda>c. c \<noteq> CHR ''-'') s"

lemma split_on_head: "get (split_on c s) 0 = Some (takeWhile (\<lambda>x. x \<noteq> c) s)"
proof (induction s)
  case Nil
  then show ?case by simp
next
  case (Cons x s)
  then show ?case by (cases "split_on c s") auto
qed

lemma generate_eq: "generate s = hash_pairs SEED (base_of s) AND MASK"
  by (simp add: generate_def split_on_head gen_loop_eq_hash_pairs base_of_def)

lemma byte_word_case: "upper a = upper b \<Longrightarrow> byte_word a = byte_word b"
  by (simp add: byte_word_def)

lemma hash_pairs_case: "map upper s = map upper t \<Longrightarrow> hash_pairs h s = hash_pairs h t"
proof (induction h s arbitrary: t rule: hash_pairs.induct)
  case (1 h)
  then show ?case by simp
next
  case (2 h a)
  then obtain b where "t = [b]" "upper a = upper b" by (cases t) auto
  then show ?case by (simp add: byte_word_def)
next
  case (3 h a b cs)
  from "3.prems" obtain a' t' where "t = a' # t'" "upper a = upper a'"
    "map upper (b # cs) = map upper t'" by (cases t) auto
  moreover from this obtain b' cs' where "t' = b' # cs'" "upper b = upper b'"
    "map upper cs = map upper cs'" by (cases t') auto
  ultimately have t: "t = a' # b' # cs'" "upper a = upper a'" "upper b = upper b'"
    "map upper cs = map upper cs'" by simp_all
  with "3.IH" [OF t(4)] byte_word_case [OF t(2)] byte_word_case [OF t(3)] show ?case by simp
qed

lemma upper_hyphen: "upper x = upper y \<Longrightarrow> (x = CHR ''-'') = (y = CHR ''-'')"
proof -
  have "upper x = CHR ''-'' \<longleftrightarrow> x = CHR ''-''" for x
  proof -
    have "ord (upper x) = 45 \<longleftrightarrow> ord x = 45" by (auto simp: ord_upper)
    moreover have "y = CHR ''-'' \<longleftrightarrow> ord y = 45" for y
      using of_char_eq_iff [of y "CHR ''-''", where 'a = nat] by simp
    ultimately show ?thesis by simp
  qed
  then show "upper x = upper y \<Longrightarrow> (x = CHR ''-'') = (y = CHR ''-'')" by metis
qed

lemma base_of_case: "map upper s = map upper t \<Longrightarrow> map upper (base_of s) = map upper (base_of t)"
proof (induction s arbitrary: t)
  case Nil
  then show ?case by (simp add: base_of_def)
next
  case (Cons x s)
  then obtain y t' where "t = y # t'" "upper x = upper y" "map upper s = map upper t'"
    by (cases t) auto
  with Cons.IH show ?case by (auto simp: base_of_def dest: upper_hyphen)
qed

lemma generate_case:
  "eq_ignore_ascii_case s t \<Longrightarrow> generate s = generate t"
  unfolding generate_eq eq_ignore_ascii_case_def map_lower_upper
  by (rule arg_cong [where f = "\<lambda>h. h AND MASK"]) (rule hash_pairs_case [OF base_of_case])

lemma generate_ssid: "generate (b @ CHR ''-'' # d) = generate b"
  by (simp add: generate_eq base_of_def takeWhile_tail)

lemma generate_bound: "unat (generate s) < 2 ^ 15"
proof -
  have "generate s \<le> MASK" unfolding generate_def by (rule word_and_le1)
  then have "unat (generate s) \<le> unat MASK" by (simp add: word_le_nat_alt)
  then show ?thesis by (simp add: MASK_def)
qed

lemma verify_Verified_iff:
  "verify callsign presented = Verified \<longleftrightarrow> presented = uint (generate callsign)"
proof
  assume "verify callsign presented = Verified"
  then have "generate callsign = word_of_int presented" and "0 \<le> presented" "presented < 65536"
    by (auto simp: verify_def split: if_splits)
  then show "presented = uint (generate callsign)"
    by (simp add: uint_word_of_int)
next
  assume p: "presented = uint (generate callsign)"
  then have "0 \<le> presented" "presented < 65536"
    using uint_lt2p [of "generate callsign"] by simp_all
  moreover from this have "presented \<noteq> -1" by linarith
  ultimately show "verify callsign presented = Verified"
    using p by (simp add: verify_def RECEIVE_ONLY_def)
qed

subsection \<open>Properties\<close>

text \<open>C34: a presented passcode is accepted exactly when it is the value of the reference hash of the
  part of the callsign before its first hyphen, which fits in fifteen bits; the special value -1 is
  the only one answered with receive-only.\<close>

theorem passcode_verified_iff:
  "(verify c n = Verified \<longleftrightarrow> n = uint (hash_pairs SEED (base_of c) AND MASK)) \<and>
   (verify c n = ReceiveOnly \<longleftrightarrow> n = -1) \<and> uint (generate c) < 32768"
proof (intro conjI)
  show "verify c n = Verified \<longleftrightarrow> n = uint (hash_pairs SEED (base_of c) AND MASK)"
    by (simp add: verify_Verified_iff generate_eq)
  show "verify c n = ReceiveOnly \<longleftrightarrow> n = -1" by (simp add: verify_def RECEIVE_ONLY_def)
  show "uint (generate c) < 32768"
  proof -
    have "int (unat (generate c)) < int (2 ^ 15)"
      using generate_bound [of c] by (simp only: of_nat_less_iff)
    moreover have "int (unat (generate c)) = uint (generate c)" by (rule uint_nat [symmetric])
    ultimately show ?thesis by simp
  qed
qed

text \<open>The passcode belongs to the station, not to the SSID or to the case it is typed in: two
  callsigns whose parts before the hyphen agree up to case are verified alike.\<close>

theorem passcode_station:
  assumes "eq_ignore_ascii_case (base_of s) (base_of t)"
  shows "generate s = generate t \<and> verify s n = verify t n"
proof -
  have b: "generate u = generate (base_of u)" for u
    by (simp add: generate_eq base_of_def)
  have "generate s = generate t"
    using generate_case [OF assms] b [of s] b [of t] by simp
  then show ?thesis by (simp add: verify_def)
qed

theorem passcode_station_witness:
  "eq_ignore_ascii_case (base_of ''N0CALL-10'') (base_of ''n0call'') \<and>
   verify ''N0CALL-10'' 13023 = verify ''n0call'' 13023 \<and> verify ''n0call'' 13023 = Verified"
proof -
  have e: "eq_ignore_ascii_case (base_of ''N0CALL-10'') (base_of ''n0call'')" by code_simp
  have "verify ''n0call'' 13023 = Verified" by code_simp
  with e passcode_station [OF e] show ?thesis by blast
qed

end
