(* ===== verification/Digi_Path.thy ===== *)
theory Digi_Path
  imports Callsign
begin

section \<open>The digipeater path (\<open>aprsr-core/src/path.rs\<close>)\<close>

text \<open>
  A path is its raw text. \<open>hop_step\<close> is one call of the iterator's closure, \<open>hops_from\<close> runs it to
  the end, and \<open>hops\<close> drops the empty hops. The abstract view of a path is the list of its
  comma-separated fields; \<open>hops_eq_hop_list\<close> is the refinement that the rest of the development
  uses, and it needs only that no comma is followed by a continuation byte (\<open>path_ok\<close>), which holds
  of every well-formed UTF-8 text.
\<close>

record hop =
  h_call :: str
  h_used :: bool
  h_offset :: nat

definition hop_of :: "nat \<Rightarrow> str \<Rightarrow> hop" where
  "hop_of start field =
     (case strip_suffix_char CHR ''*'' field of
        Some stripped \<Rightarrow> \<lparr>h_call = stripped, h_used = True, h_offset = start\<rparr>
      | None \<Rightarrow> \<lparr>h_call = field, h_used = False, h_offset = start\<rparr>)"

definition hop_step :: "str \<Rightarrow> nat \<Rightarrow> (hop \<times> nat) option" where
  "hop_step raw off =
     (if off > length raw then None
      else case get_from raw off of
        None \<Rightarrow> None
      | Some rest \<Rightarrow>
          if rest = [] \<and> off > 0 then None
          else (case find_byte CHR '','' rest of
                  Some i \<Rightarrow>
                    (case get_to rest i of
                       None \<Rightarrow> None
                     | Some field \<Rightarrow> Some (hop_of off field, off + i + 1))
                | None \<Rightarrow> Some (hop_of off rest, length raw + 1)))"

lemma hop_step_progress: "hop_step raw off = Some (h, next) \<Longrightarrow> off < next \<and> off \<le> length raw"
  by (auto simp: hop_step_def split: if_splits option.splits)

function hops_from :: "str \<Rightarrow> nat \<Rightarrow> hop list" where
  "hops_from raw off =
     (case hop_step raw off of None \<Rightarrow> [] | Some (h, next) \<Rightarrow> h # hops_from raw next)"
  by pat_completeness auto
termination
  by (relation "measure (\<lambda>(raw, off). Suc (length raw) - off)")
     (auto dest: hop_step_progress)

declare hops_from.simps [simp del]

definition hops :: "str \<Rightarrow> hop list" where
  "hops raw = filter (\<lambda>h. h_call h \<noteq> []) (hops_from raw 0)"

definition path_len :: "str \<Rightarrow> nat" where
  "path_len raw = length (hops raw)"

definition path_contains :: "str \<Rightarrow> str \<Rightarrow> bool" where
  "path_contains raw c \<longleftrightarrow> list_ex (\<lambda>h. eq_ignore_ascii_case (h_call h) c) (hops raw)"

definition has_tcpip :: "str \<Rightarrow> bool" where
  "has_tcpip raw \<longleftrightarrow>
     list_ex (\<lambda>h. eq_ignore_ascii_case (h_call h) ''TCPIP'' \<or>
                  eq_ignore_ascii_case (h_call h) ''TCPXX'') (hops raw)"

definition i_construct :: "str \<Rightarrow> str option" where
  "i_construct raw =
     (case fold (\<lambda>h (previous, final). (final, Some h)) (hops raw) (None, None) of
        (previous, final) \<Rightarrow>
          (case final of
             None \<Rightarrow> None
           | Some final \<Rightarrow>
               if \<not> eq_ignore_ascii_case (h_call final) ''I'' then None
               else (case previous of
                       None \<Rightarrow> None
                     | Some igate \<Rightarrow> if h_call igate \<noteq> [] then Some (h_call igate) else None)))"

definition trim_end_digits :: "str \<Rightarrow> str" where
  "trim_end_digits s = rev (dropWhile is_ascii_digit (rev s))"

definition is_generic_alias :: "str \<Rightarrow> bool" where
  "is_generic_alias c \<longleftrightarrow>
     list_ex (\<lambda>a. eq_ignore_ascii_case c a) [''RELAY'', ''ECHO'', ''GATE'', ''TCPIP'', ''TCPXX''] \<or>
     (let base = unwrap_or c (get (split_on CHR ''-'' c) 0);
          stripped = trim_end_digits base
      in to_ascii_uppercase stripped \<in> {''WIDE'', ''TRACE'', ''SS'', ''SAR''} \<and>
         length stripped < length base)"

fun dup_loop :: "hop list \<Rightarrow> hop list \<Rightarrow> str option" where
  "dup_loop earlier [] = None"
| "dup_loop earlier (h # hs) =
     (if list_ex (\<lambda>prev. eq_ignore_ascii_case (h_call prev) (h_call h)) earlier then Some (h_call h)
      else dup_loop (earlier @ [h]) hs)"

definition first_duplicate :: "str \<Rightarrow> str option" where
  "first_duplicate raw = dup_loop [] (filter (\<lambda>h. \<not> is_generic_alias (h_call h)) (hops raw))"

definition truncated_to :: "str \<Rightarrow> nat \<Rightarrow> str" where
  "truncated_to raw byte_offset = unwrap_or [] (get_to raw (min (byte_offset - 1) (length raw)))"

subsection \<open>The field view\<close>

fun hop_list :: "nat \<Rightarrow> str list \<Rightarrow> hop list" where
  "hop_list i [] = []"
| "hop_list i (f # fs) = hop_of i f # hop_list (i + length f + 1) fs"

definition path_fields :: "str \<Rightarrow> str list" where
  "path_fields raw = split_on CHR '','' raw"

definition path_ok :: "str \<Rightarrow> bool" where
  "path_ok raw \<longleftrightarrow> list_all (\<lambda>f. f = [] \<or> \<not> is_cont (hd f)) (tl (path_fields raw))"

lemma hop_of_simps [simp]:
  "h_offset (hop_of i f) = i"
  "hop_of i (f @ ''*'') = \<lparr>h_call = f, h_used = True, h_offset = i\<rparr>"
  by (auto simp: hop_of_def strip_suffix_char_Some split: option.splits)

lemma hop_of_plain: "last f \<noteq> CHR ''*'' \<Longrightarrow> hop_of i f = \<lparr>h_call = f, h_used = False, h_offset = i\<rparr>"
  by (auto simp: hop_of_def strip_suffix_char_def)

lemma call_hop_of_Nil [simp]: "h_call (hop_of i []) = []"
  by (simp add: hop_of_def strip_suffix_char_def)

lemma call_hop_of_offset: "h_call (hop_of i f) = h_call (hop_of j f)"
  by (auto simp: hop_of_def split: option.splits)

lemma hop_list_append:
  "hop_list i (fs @ gs) = hop_list i fs @ hop_list (i + length (concat fs) + length fs) gs"
  by (induction fs arbitrary: i) (auto simp: ac_simps)

lemma path_fields_not_Nil [simp]: "path_fields raw \<noteq> []"
  by (simp add: path_fields_def)

lemma join_fields: "join '','' (path_fields raw) = raw"
  by (simp add: path_fields_def join_split_on)

lemma path_fields_join:
  "fs \<noteq> [] \<Longrightarrow> (\<And>f. f \<in> set fs \<Longrightarrow> CHR '','' \<notin> set f) \<Longrightarrow> path_fields (join '','' fs) = fs"
  by (simp add: path_fields_def split_on_join)

lemma path_fields_no_comma: "f \<in> set (path_fields raw) \<Longrightarrow> CHR '','' \<notin> set f"
  unfolding path_fields_def using split_by_no_sep by fast

lemma path_fields_append: "path_fields (a @ '','' @ b) = path_fields a @ path_fields b"
proof (induction a)
  case Nil
  then show ?case by (simp add: path_fields_def)
next
  case (Cons x a)
  obtain w ws where "path_fields a = w # ws" by (cases "path_fields a") auto
  with Cons show ?case by (simp add: path_fields_def)
qed

lemma path_fields_plain: "CHR '','' \<notin> set f \<Longrightarrow> path_fields f = [f]"
  unfolding path_fields_def by (rule split_by_none) (auto simp: list_all_iff)

lemma path_fields_Nil [simp]: "path_fields [] = [[]]"
  by (simp add: path_fields_def)

lemma path_fields_find_None: "find_byte CHR '','' s = None \<Longrightarrow> path_fields s = [s]"
  by (simp add: str_simps path_fields_plain)

lemma path_fields_find_Some:
  assumes "find_byte CHR '','' s = Some i"
  shows "path_fields s = take i s # path_fields (drop (Suc i) s)"
proof -
  from find_byte_SomeD [OF assms] have s: "s = take i s @ '','' @ drop (Suc i) s"
    and n: "CHR '','' \<notin> set (take i s)" by auto
  have "path_fields s = path_fields (take i s @ '','' @ drop (Suc i) s)" using s by simp
  also have "\<dots> = take i s # path_fields (drop (Suc i) s)"
    by (simp only: path_fields_append path_fields_plain [OF n]) simp
  finally show ?thesis .
qed

lemma hop_step_find:
  assumes "raw = pre @ rest" and "off = length pre" and "rest \<noteq> [] \<or> pre = []"
    and "pre = [] \<or> rest = [] \<or> \<not> is_cont (hd rest)"
  shows "hop_step raw off =
    (case find_byte CHR '','' rest of
       Some i \<Rightarrow> Some (hop_of off (take i rest), off + i + 1)
     | None \<Rightarrow> Some (hop_of off rest, length raw + 1))"
proof -
  have "is_char_boundary raw off"
    using assms by (cases rest) (auto simp: is_char_boundary_def nth_append)
  then have g: "get_from raw off = Some rest" using assms by (simp add: get_from_def)
  have "get_to rest i = Some (take i rest)" if f: "find_byte CHR '','' rest = Some i" for i
  proof -
    from f obtain a b where "rest = a @ CHR '','' # b" "i = length a" by (rule find_byte_SomeE)
    then have "is_char_boundary rest i" by (intro boundary_at_ascii) (auto simp: is_ascii_def)
    then show ?thesis by (simp add: get_to_def)
  qed
  with g assms(2,3) show ?thesis
    by (auto simp: hop_step_def assms(1) split: option.splits)
qed

definition field_ok :: "str \<Rightarrow> bool" where
  "field_ok f \<longleftrightarrow> f = [] \<or> \<not> is_cont (hd f)"

lemma hops_from_fields:
  assumes "raw = pre @ rest" and "list_all field_ok (tl (path_fields rest))"
    and "pre = [] \<or> field_ok (hd (path_fields rest))"
  shows "filter (\<lambda>h. h_call h \<noteq> []) (hops_from raw (length pre)) =
         filter (\<lambda>h. h_call h \<noteq> []) (hop_list (length pre) (path_fields rest))"
  using assms
proof (induction "length rest" arbitrary: pre rest rule: less_induct)
  case less
  show ?case
  proof (cases "rest = [] \<and> pre \<noteq> []")
    case True
    then have "get_from raw (length pre) = Some []"
      using less.prems(1) by (simp add: get_from_def is_char_boundary_def)
    with True have "hop_step raw (length pre) = None"
      by (simp add: hop_step_def)
    with True show ?thesis by (simp add: hops_from.simps [of raw])
  next
    case False
    have hd: "pre = [] \<or> rest = [] \<or> \<not> is_cont (hd rest)"
    proof (cases "find_byte CHR '','' rest")
      case None
      with less.prems(3) show ?thesis by (auto simp: path_fields_find_None field_ok_def)
    next
      case (Some i)
      with less.prems(3) have "pre = [] \<or> field_ok (take i rest)"
        by (auto simp: path_fields_find_Some)
      moreover have "i = 0 \<Longrightarrow> hd rest = CHR '',''"
        using find_byte_SomeD [OF Some] by (cases rest) (auto split: if_splits)
      ultimately show ?thesis
        by (cases i; cases rest) (auto simp: field_ok_def is_cont_def)
    qed
    have step: "hop_step raw (length pre) =
        (case find_byte CHR '','' rest of
           Some i \<Rightarrow> Some (hop_of (length pre) (take i rest), length pre + i + 1)
         | None \<Rightarrow> Some (hop_of (length pre) rest, length raw + 1))"
      by (rule hop_step_find [OF less.prems(1) refl _ hd]) (use False in auto)
    show ?thesis
    proof (cases "find_byte CHR '','' rest")
      case None
      have "hop_step raw (Suc (length raw)) = None" by (simp add: hop_step_def)
      then have "hops_from raw (Suc (length raw)) = []" by (simp add: hops_from.simps [of raw])
      with None step show ?thesis
        by (simp add: hops_from.simps [of raw "length pre"] path_fields_find_None)
    next
      case (Some i)
      define p r where "p = pre @ take i rest @ '',''" and "r = drop (Suc i) rest"
      have i: "i < length rest" "rest = take i rest @ '','' @ r"
        using find_byte_SomeD [OF Some] by (auto simp: r_def)
      have raw: "raw = p @ r" using less.prems(1) i(2) by (simp add: p_def)
      have len: "length p = length pre + i + 1" using i(1) by (simp add: p_def)
      have ok: "list_all field_ok (tl (path_fields r))" "p = [] \<or> field_ok (hd (path_fields r))"
        using less.prems(2) path_fields_find_Some [OF Some]
        by (cases "path_fields r"; simp add: r_def)+
      have "length r < length rest" using i(1) by (simp add: r_def)
      from less.hyps [OF this raw ok] show ?thesis
        using Some step i(1)
        by (simp add: hops_from.simps [of raw "length pre"] path_fields_find_Some len r_def [symmetric])
    qed
  qed
qed

lemma path_ok_field_ok: "path_ok raw \<longleftrightarrow> list_all field_ok (tl (path_fields raw))"
  by (simp add: path_ok_def field_ok_def [abs_def])

theorem hops_eq_hop_list:
  "path_ok raw \<Longrightarrow> hops raw = filter (\<lambda>h. h_call h \<noteq> []) (hop_list 0 (path_fields raw))"
  using hops_from_fields [of raw "[]" raw] by (simp add: hops_def path_ok_field_ok)

lemma field_ok_ascii: "f = [] \<or> is_ascii (hd f) \<Longrightarrow> field_ok f"
  by (auto simp: field_ok_def is_ascii_def is_cont_def)

lemma path_ok_append:
  "path_ok (a @ '','' @ b) \<longleftrightarrow> path_ok a \<and> path_ok b \<and> field_ok (hd (path_fields b))"
  unfolding path_ok_field_ok path_fields_append
  by (cases "path_fields a"; cases "path_fields b") auto

lemma path_ok_plain: "CHR '','' \<notin> set f \<Longrightarrow> path_ok f"
  by (simp add: path_ok_field_ok path_fields_plain)

lemma valid_utf8_path_ok:
  assumes "valid_utf8 raw"
  shows "path_ok raw"
  using assms
proof (induction "length raw" arbitrary: raw rule: less_induct)
  case less
  show ?case
  proof (cases "find_byte CHR '','' raw")
    case None
    then show ?thesis by (simp add: path_ok_field_ok path_fields_find_None)
  next
    case (Some i)
    define r where "r = drop (Suc i) raw"
    have i: "i < length raw" "raw = take i raw @ CHR '','' # r"
      using find_byte_SomeD [OF Some] by (auto simp: r_def)
    have v: "valid_utf8 r"
      using valid_utf8_split_ascii [of "take i raw" "CHR '',''" r] less.prems i(2)
      by (simp add: is_ascii_def)
    have "field_ok (hd (path_fields r))"
    proof (cases r)
      case Nil
      then show ?thesis by (simp add: field_ok_def)
    next
      case (Cons a r')
      then have "\<not> is_cont a" using v valid_utf8_head_not_cont by blast
      then show ?thesis using Cons
        by (cases "path_fields r'") (auto simp: path_fields_def field_ok_def split: if_splits)
    qed
    moreover have "path_ok r" using less.hyps [of r] v i(1) by (simp add: r_def)
    ultimately show ?thesis
      unfolding path_ok_field_ok path_fields_find_Some [OF Some]
      by (cases "path_fields r") (auto simp: r_def)
  qed
qed

subsection \<open>What the queries compute on the fields\<close>

definition plain_call :: "str \<Rightarrow> str" where
  "plain_call f = h_call (hop_of 0 f)"

definition calls :: "str \<Rightarrow> str list" where
  "calls raw = map h_call (hops raw)"

lemma map_call_hop_list: "map h_call (hop_list i fs) = map plain_call fs"
  by (induction fs arbitrary: i) (auto simp: plain_call_def intro: call_hop_of_offset)

lemma calls_eq: "path_ok raw \<Longrightarrow> calls raw = filter (\<lambda>c. c \<noteq> []) (map plain_call (path_fields raw))"
  unfolding calls_def by (simp add: hops_eq_hop_list map_call_hop_list [of 0, symmetric] filter_map comp_def)

lemma path_comma_simps:
  "path_fields (a @ CHR '','' # b) = path_fields a @ path_fields b"
  "path_ok (a @ CHR '','' # b) \<longleftrightarrow> path_ok a \<and> path_ok b \<and> field_ok (hd (path_fields b))"
  using path_fields_append [of a b] path_ok_append [of a b] by simp_all

lemma calls_append:
  "path_ok (a @ CHR '','' # b) \<Longrightarrow> calls (a @ CHR '','' # b) = calls a @ calls b"
  by (simp add: calls_eq path_comma_simps)

lemma calls_nonempty: "c \<in> set (calls raw) \<Longrightarrow> c \<noteq> []"
  by (auto simp: calls_def hops_def)

lemma calls_plain:
  "CHR '','' \<notin> set f \<Longrightarrow> calls f = (if plain_call f = [] then [] else [plain_call f])"
  by (simp add: calls_eq path_ok_plain path_fields_plain)

lemma plain_call_id: "last f \<noteq> CHR ''*'' \<Longrightarrow> plain_call f = f"
  by (simp add: plain_call_def hop_of_plain)

lemma has_tcpip_calls:
  "has_tcpip raw \<longleftrightarrow>
     (\<exists>c \<in> set (calls raw). to_ascii_uppercase c \<in> {''TCPIP'', ''TCPXX''})"
proof -
  have u: "to_ascii_uppercase ''TCPIP'' = ''TCPIP''" "to_ascii_uppercase ''TCPXX'' = ''TCPXX''"
    by (simp_all add: to_ascii_uppercase_def upper_def is_ascii_lower_def)
  show ?thesis
    by (auto simp: has_tcpip_def calls_def list_ex_iff eq_ignore_iff_uppercase u)
qed

lemma fold_last_two:
  "fold (\<lambda>h (previous, final). (final, Some h)) (xs @ [a, b]) z = (Some a, Some b)"
  by (simp add: case_prod_beta)

lemma i_construct_iff:
  "i_construct raw = Some igate \<longleftrightarrow>
     (\<exists>cs i. calls raw = cs @ [igate, i] \<and> eq_ignore_ascii_case i ''I'')"
proof (cases "hops raw" rule: rev_cases)
  case Nil
  then show ?thesis by (simp add: i_construct_def calls_def)
next
  case (snoc ys y)
  show ?thesis
  proof (cases ys rule: rev_cases)
    case Nil
    with snoc show ?thesis by (simp add: i_construct_def calls_def)
  next
    case (snoc zs z)
    then have h: "hops raw = zs @ [z, y]" using \<open>hops raw = ys @ [y]\<close> by simp
    then have "h_call z \<noteq> []" using calls_nonempty [of "h_call z" raw] by (simp add: calls_def)
    then show ?thesis
      by (auto simp: i_construct_def h calls_def case_prod_beta)
  qed
qed

subsection \<open>Repeated stations\<close>

definition station_calls :: "str \<Rightarrow> str list" where
  "station_calls raw = filter (\<lambda>c. \<not> is_generic_alias c) (calls raw)"

lemma dup_loop_None:
  "dup_loop earlier hs = None \<longleftrightarrow>
     distinct (map (to_ascii_uppercase \<circ> h_call) hs) \<and>
     (to_ascii_uppercase \<circ> h_call) ` set hs \<inter> (to_ascii_uppercase \<circ> h_call) ` set earlier = {}"
proof (induction earlier hs rule: dup_loop.induct)
  case (1 earlier)
  then show ?case by simp
next
  case (2 earlier h hs)
  let ?u = "to_ascii_uppercase \<circ> h_call"
  have ex: "list_ex (\<lambda>prev. eq_ignore_ascii_case (h_call prev) (h_call h)) earlier \<longleftrightarrow>
      ?u h \<in> ?u ` set earlier"
    by (auto simp: list_ex_iff eq_ignore_iff_uppercase image_iff) metis
  show ?case
  proof (cases "?u h \<in> ?u ` set earlier")
    case True
    then show ?thesis using ex by auto
  next
    case False
    then have "dup_loop earlier (h # hs) = dup_loop (earlier @ [h]) hs" using ex by simp
    moreover have "?u ` set (earlier @ [h]) = insert (?u h) (?u ` set earlier)" by simp
    moreover note "2.IH"
    ultimately show ?thesis using ex False by (simp del: comp_apply) blast
  qed
qed

lemma dup_loop_Some:
  "dup_loop earlier hs = Some c \<Longrightarrow>
     \<exists>us h vs. hs = us @ h # vs \<and> h_call h = c \<and>
       (\<exists>e \<in> set (earlier @ us). eq_ignore_ascii_case (h_call e) c)"
proof (induction earlier hs rule: dup_loop.induct)
  case (1 earlier)
  then show ?case by simp
next
  case (2 earlier h hs)
  show ?case
  proof (cases "list_ex (\<lambda>prev. eq_ignore_ascii_case (h_call prev) (h_call h)) earlier")
    case True
    with "2.prems" show ?thesis by (intro exI [of _ "[]"]) (auto simp: list_ex_iff)
  next
    case False
    with "2.prems" have "dup_loop (earlier @ [h]) hs = Some c" by simp
    from "2.IH" [OF False this] obtain us h' vs where
      "hs = us @ h' # vs" "h_call h' = c"
      "\<exists>e \<in> set ((earlier @ [h]) @ us). eq_ignore_ascii_case (h_call e) c" by blast
    then show ?thesis by (intro exI [of _ "h # us"] exI [of _ h'] exI [of _ vs]) auto
  qed
qed

theorem first_duplicate_None:
  "first_duplicate raw = None \<longleftrightarrow> distinct (map to_ascii_uppercase (station_calls raw))"
  by (simp add: first_duplicate_def dup_loop_None station_calls_def calls_def filter_map comp_def)

subsection \<open>Properties\<close>

text \<open>On a well-formed text the hop iterator yields the non-empty comma-separated fields, each
  without its used mark, in order.\<close>

theorem hops_are_fields:
  assumes "valid_utf8 raw"
  shows "map h_call (hops raw) = filter (\<lambda>c. c \<noteq> []) (map plain_call (path_fields raw))"
  using calls_eq [OF valid_utf8_path_ok [OF assms]] by (simp add: calls_def)

theorem hops_are_fields_witness:
  "map h_call (hops ''WIDE1-1*,,qAR,K'') = [''WIDE1-1'', ''qAR'', ''K'']"
proof -
  have "valid_utf8 ''WIDE1-1*,,qAR,K''" by code_simp
  from hops_are_fields [OF this]
  have "map h_call (hops ''WIDE1-1*,,qAR,K'') =
      filter (\<lambda>c. c \<noteq> []) (map plain_call (path_fields ''WIDE1-1*,,qAR,K''))" .
  also have "\<dots> = [''WIDE1-1'', ''qAR'', ''K'']" by code_simp
  finally show ?thesis .
qed

text \<open>The duplicate check answers nothing exactly when the station callsigns of the path
  (generic aliases left out) are pairwise different up to case.\<close>

theorem duplicate_check_iff:
  "first_duplicate raw = None \<longleftrightarrow>
     distinct (map to_ascii_uppercase (filter (\<lambda>c. \<not> is_generic_alias c) (map h_call (hops raw))))"
  using first_duplicate_None by (simp add: station_calls_def calls_def)

end
