(* ===== verification/Packet.thy ===== *)
theory Packet
  imports Digi_Path
begin

section \<open>TNC2 framing (\<open>aprsr-core/src/packet.rs\<close>)\<close>

text \<open>
  The packet line parser and its re-rendering with another path. \<open>packet_parse_InrE\<close> gives the
  shape of every accepted line and \<open>packet_parse_render\<close> parses every line of that shape; the two
  make the parser an \<open>exact_codec\<close>. \<open>with_path_reparse\<close> is what the dispatcher relies on when it
  parses a rewritten line again: it succeeds exactly when the line still fits the length limit.
\<close>

definition MAX_PACKET_LEN :: nat where "MAX_PACKET_LEN = 512"
definition MAX_PACKET_BODY_LEN :: nat where "MAX_PACKET_BODY_LEN = MAX_PACKET_LEN - 2"

datatype packet_error =
    PacketEmpty
  | PacketTooLong nat
  | ControlCharacter nat
  | MissingDestination
  | MissingPayload
  | InvalidSource str callsign_error
  | InvalidDestination str callsign_error
  | EmptyPayload

record packet =
  p_raw :: str
  p_source :: str
  p_destination :: str
  p_path :: str
  p_payload :: str
  p_colon :: nat

definition is_control :: "char \<Rightarrow> bool" where
  "is_control b \<longleftrightarrow> ord b < 32 \<and> ord b \<noteq> 9"

definition split_destination :: "str \<Rightarrow> str \<times> str" where
  "split_destination after_source =
     (case find_byte CHR '','' after_source of
        Some i \<Rightarrow> (unwrap_or [] (get_to after_source i), unwrap_or [] (get_from after_source (i + 1)))
      | None \<Rightarrow> (after_source, []))"

definition packet_parse :: "str \<Rightarrow> (packet_error, packet) result" where
  "packet_parse raw =
     (if raw = [] then Inl PacketEmpty
      else if length raw > MAX_PACKET_BODY_LEN then Inl (PacketTooLong (length raw))
      else case List.find is_control raw of
        Some byte \<Rightarrow> Inl (ControlCharacter (ord byte))
      | None \<Rightarrow>
          and_then (ok_or MissingPayload (find_byte CHR '':'' raw)) (\<lambda>colon.
          and_then (ok_or MissingPayload (get_to raw colon)) (\<lambda>header.
          and_then (ok_or MissingPayload (get_from raw (colon + 1))) (\<lambda>payload.
          if payload = [] then Inl EmptyPayload
          else
          and_then (ok_or MissingDestination (find_byte CHR ''>'' header)) (\<lambda>gt.
          and_then (ok_or MissingDestination (get_to header gt)) (\<lambda>source.
          and_then (ok_or MissingDestination (get_from header (gt + 1))) (\<lambda>after_source.
          (case split_destination after_source of (destination, path) \<Rightarrow>
          and_then (map_err (InvalidSource source) (validate_for_packet source)) (\<lambda>_.
          and_then (map_err (InvalidDestination destination)
              (validate_for_packet destination)) (\<lambda>_.
          Inr \<lparr>p_raw = raw, p_source = source, p_destination = destination, p_path = path,
               p_payload = payload, p_colon = colon\<rparr>))))))))))"

definition packet_as_str :: "packet \<Rightarrow> str" where
  "packet_as_str p = p_raw p"

definition header :: "packet \<Rightarrow> str" where
  "header p = unwrap_or [] (get_to (p_raw p) (p_colon p))"

definition with_path :: "packet \<Rightarrow> str \<Rightarrow> str" where
  "with_path p new_path =
     p_source p @ ''>'' @ p_destination p @
     (if new_path \<noteq> [] then '','' @ new_path else []) @ '':'' @ p_payload p"

subsection \<open>The shape of an accepted line\<close>

text \<open>
  What stands between destination and colon: nothing, or a comma and the path. The second clause
  keeps the code's \<open>unwrap_or("")\<close>, which only an ill-formed text reaches.
\<close>

definition path_part :: "str \<Rightarrow> str \<Rightarrow> bool" where
  "path_part rest path \<longleftrightarrow>
     rest = [] \<and> path = [] \<or>
     (rest \<noteq> [] \<and> hd rest = CHR '','' \<and> path = (if field_ok (tl rest) then tl rest else []))"

lemma split_at_ascii:
  assumes "find_byte c s = Some i" and "is_ascii c"
  shows "get_to s i = Some (take i s)"
    and "get_from s (i + 1) = (if field_ok (drop (i + 1) s) then Some (drop (i + 1) s) else None)"
proof -
  from find_byte_SomeD [OF assms(1)] have i: "i < length s" "s = take i s @ c # drop (Suc i) s"
    by auto
  then have "s ! i = c" by (metis nth_append_length length_take min.absorb4)
  with i(1) assms(2) show "get_to s i = Some (take i s)"
    by (simp add: get_to_def boundary_at_ascii)
  show "get_from s (i + 1) = (if field_ok (drop (i + 1) s) then Some (drop (i + 1) s) else None)"
    using i(1) by (auto simp: get_from_def is_char_boundary_def field_ok_def hd_drop_conv_nth)
qed

lemma split_destination_cases:
  obtains d rest path where "after = d @ rest" and "split_destination after = (d, path)"
    and "CHR '','' \<notin> set d" and "path_part rest path"
proof (cases "find_byte CHR '','' after")
  case None
  then have "CHR '','' \<notin> set after" by (simp add: find_byte_None)
  then show thesis
    by (intro that [of after "[]" "[]"]) (use None in \<open>auto simp: split_destination_def path_part_def\<close>)
next
  case (Some i)
  have c: "is_ascii CHR '',''" by (simp add: is_ascii_def)
  from find_byte_SomeD [OF Some] have a: "after = take i after @ CHR '','' # drop (Suc i) after"
    and n: "CHR '','' \<notin> set (take i after)" by auto
  show thesis
    by (rule that [OF a _ n]) (use Some split_at_ascii [OF Some c] in
        \<open>auto simp: split_destination_def path_part_def\<close>)
qed

lemma packet_parse_InrE:
  assumes "packet_parse raw = Inr p"
  obtains s d rest pl where
    "raw = s @ CHR ''>'' # d @ rest @ CHR '':'' # pl"
    "p_raw p = raw" "p_source p = s" "p_destination p = d" "p_payload p = pl"
    "p_colon p = length s + 1 + length d + length rest"
    "path_part rest (p_path p)" "CHR '':'' \<notin> set rest" "pl \<noteq> []" "field_ok pl"
    "validate_for_packet s = Inr ()" "validate_for_packet d = Inr ()"
    "length raw \<le> MAX_PACKET_BODY_LEN" "list_all (\<lambda>b. \<not> is_control b) raw"
proof -
  have ascii: "is_ascii CHR '':''" "is_ascii CHR ''>''" by (simp_all add: is_ascii_def)
  from assms have len: "raw \<noteq> []" "length raw \<le> MAX_PACKET_BODY_LEN"
    and ctl: "List.find is_control raw = None"
    by (auto simp: packet_parse_def split: if_splits option.splits)
  from assms obtain colon where colon: "find_byte CHR '':'' raw = Some colon"
    using len ctl by (auto simp: packet_parse_def res_simps)
  note cs = split_at_ascii [OF colon ascii(1)]
  define h pl where "h = take colon raw" and "pl = drop (Suc colon) raw"
  have raw: "raw = h @ CHR '':'' # pl" "CHR '':'' \<notin> set h" "colon = length h"
    using find_byte_SomeD [OF colon] by (auto simp: h_def pl_def)
  from assms have pl: "pl \<noteq> []" "field_ok pl"
    using len ctl colon cs
    by (auto simp: packet_parse_def res_simps h_def pl_def split: if_splits)
  from assms obtain gt where gt: "find_byte CHR ''>'' h = Some gt"
    using len ctl colon cs by (auto simp: packet_parse_def res_simps h_def split: if_splits)
  note gs = split_at_ascii [OF gt ascii(2)]
  define s a where "s = take gt h" and "a = drop (Suc gt) h"
  have h: "h = s @ CHR ''>'' # a"
    using find_byte_SomeD [OF gt] by (auto simp: s_def a_def)
  obtain d rest path where a: "a = d @ rest" and sd: "split_destination a = (d, path)"
    and n: "CHR '','' \<notin> set d" and pp: "path_part rest path" by (rule split_destination_cases)
  have p: "validate_for_packet s = Inr ()" "validate_for_packet d = Inr ()"
    "p = \<lparr>p_raw = raw, p_source = s, p_destination = d, p_path = path, p_payload = pl,
          p_colon = colon\<rparr>"
    using assms len ctl colon cs gt gs sd
    by (auto simp: packet_parse_def res_simps h_def pl_def s_def a_def split: if_splits)
  show thesis
  proof (rule that)
    show "raw = s @ CHR ''>'' # d @ rest @ CHR '':'' # pl" using raw h a by simp
    show "CHR '':'' \<notin> set rest" using raw(2) h a by simp
    show "p_colon p = length s + 1 + length d + length rest" using p(3) raw(3) h a by simp
    show "list_all (\<lambda>b. \<not> is_control b) raw" using ctl by (simp add: find_None_iff list_all_iff)
  qed (use p pp pl len in simp_all)
qed

lemma call_text_notin:
  assumes "validate_for_packet s = Inr ()"
  shows "CHR '':'' \<notin> set s" and "CHR ''>'' \<notin> set s" and "CHR '','' \<notin> set s"
  using assms by (auto dest: validate_for_packet_notin [of _ _ "CHR '':''"]
      validate_for_packet_notin [of _ _ "CHR ''>''"] validate_for_packet_notin [of _ _ "CHR '',''"]
      simp: is_call_char_iff_ord)

lemma packet_parse_render:
  assumes "raw = s @ CHR ''>'' # d @ rest @ CHR '':'' # pl"
    and "path_part rest path" "CHR '':'' \<notin> set rest" "pl \<noteq> []" "field_ok pl"
    and "validate_for_packet s = Inr ()" "validate_for_packet d = Inr ()"
    and "length raw \<le> MAX_PACKET_BODY_LEN" "list_all (\<lambda>b. \<not> is_control b) raw"
  shows "packet_parse raw = Inr \<lparr>p_raw = raw, p_source = s, p_destination = d, p_path = path,
    p_payload = pl, p_colon = length s + 1 + length d + length rest\<rparr>"
proof -
  have ascii: "is_ascii CHR '':''" "is_ascii CHR ''>''" "is_ascii CHR '',''"
    by (simp_all add: is_ascii_def)
  note ns = call_text_notin [OF assms(6)] and nd = call_text_notin [OF assms(7)]
  have d: "d \<noteq> []" "is_ascii (hd d)"
    using validate_for_packet_chars [OF assms(7)] validate_for_packet_ascii [OF assms(7)]
    by (cases d; simp)+
  define h where "h = s @ CHR ''>'' # d @ rest"
  have raw: "raw = h @ CHR '':'' # pl" and nh: "CHR '':'' \<notin> set h"
    using assms(1,3) ns nd by (auto simp: h_def)
  have colon: "find_byte CHR '':'' raw = Some (length h)" using raw nh by (simp add: str_simps)
  have gt: "find_byte CHR ''>'' h = Some (length s)" using ns by (simp add: str_simps h_def)
  note cs = split_at_ascii [OF colon ascii(1)] and gs = split_at_ascii [OF gt ascii(2)]
  have dr: "drop (length h + 1) raw = pl" "drop (length s + 1) h = d @ rest"
    "take (length h) raw = h" "take (length s) h = s"
    by (simp_all add: raw h_def)
  have hd_ok: "field_ok (d @ rest)" using d by (simp add: field_ok_ascii)
  have sd: "split_destination (d @ rest) = (d, path)"
  proof (cases "rest = []")
    case True
    have f: "find_byte CHR '','' d = None" using nd(3) by (simp add: find_byte_None)
    from True assms(2) show ?thesis
      by (simp add: split_destination_def path_part_def f)
  next
    case False
    with assms(2) obtain t where t: "rest = CHR '','' # t" "path = (if field_ok t then t else [])"
      by (cases rest) (auto simp: path_part_def)
    then have f: "find_byte CHR '','' (d @ rest) = Some (length d)" using nd by (simp add: str_simps)
    show ?thesis
      using split_at_ascii [OF f ascii(3)] f t by (simp add: split_destination_def)
  qed
  have "List.find is_control raw = None"
    using assms(9) by (simp add: find_None_iff list_all_iff)
  moreover have "raw \<noteq> []" "\<not> MAX_PACKET_BODY_LEN < length raw" using assms(8) raw by auto
  ultimately show ?thesis
    unfolding packet_parse_def
    using colon cs gt gs dr assms(4-7) hd_ok sd
    by (simp add: h_def)
qed

definition packet_wf :: "packet \<Rightarrow> bool" where
  "packet_wf p \<longleftrightarrow>
     (let pre = p_source p @ ''>'' @ p_destination p;
          rest = drop (length pre) (take (p_colon p) (p_raw p))
      in p_raw p = pre @ rest @ '':'' @ p_payload p \<and> p_colon p = length (pre @ rest) \<and>
         path_part rest (p_path p) \<and> CHR '':'' \<notin> set rest) \<and>
     p_payload p \<noteq> [] \<and> field_ok (p_payload p) \<and>
     validate_for_packet (p_source p) = Inr () \<and> validate_for_packet (p_destination p) = Inr () \<and>
     length (p_raw p) \<le> MAX_PACKET_BODY_LEN \<and> list_all (\<lambda>b. \<not> is_control b) (p_raw p)"

lemma packet_wf_rest:
  assumes "packet_wf p \<and> raw = p_raw p"
  obtains rest where
    "p_raw p = p_source p @ CHR ''>'' # p_destination p @ rest @ CHR '':'' # p_payload p"
    "p_colon p = length (p_source p) + 1 + length (p_destination p) + length rest"
    "path_part rest (p_path p)" "CHR '':'' \<notin> set rest"
proof (rule that)
  let ?pre = "p_source p @ ''>'' @ p_destination p"
  let ?rest = "drop (length ?pre) (take (p_colon p) (p_raw p))"
  have w: "p_raw p = ?pre @ ?rest @ '':'' @ p_payload p" "p_colon p = length (?pre @ ?rest)"
    "path_part ?rest (p_path p)" "CHR '':'' \<notin> set ?rest"
    using assms unfolding packet_wf_def Let_def by blast+
  show "p_raw p = p_source p @ CHR ''>'' # p_destination p @ ?rest @ CHR '':'' # p_payload p"
    by (subst w(1)) (simp only: append_assoc append_Cons append_Nil)
  show "p_colon p = length (p_source p) + 1 + length (p_destination p) + length ?rest"
    by (subst w(2)) (simp only: length_append length_Cons list.size add.assoc)
  show "path_part ?rest (p_path p)" "CHR '':'' \<notin> set ?rest" by (rule w)+
qed

lemma packet_parse_iff: "packet_parse raw = Inr p \<longleftrightarrow> packet_wf p \<and> raw = p_raw p"
proof
  assume "packet_parse raw = Inr p"
  then show "packet_wf p \<and> raw = p_raw p"
    by (elim packet_parse_InrE) (auto simp: packet_wf_def)
next
  assume p: "packet_wf p \<and> raw = p_raw p"
  then obtain rest where r: "p_raw p = p_source p @ CHR ''>'' # p_destination p @ rest @ CHR '':'' # p_payload p"
      "p_colon p = length (p_source p) + 1 + length (p_destination p) + length rest"
      "path_part rest (p_path p)" "CHR '':'' \<notin> set rest"
    by (rule packet_wf_rest)
  have w: "p_payload p \<noteq> []" "field_ok (p_payload p)"
    "validate_for_packet (p_source p) = Inr ()" "validate_for_packet (p_destination p) = Inr ()"
    "length (p_raw p) \<le> MAX_PACKET_BODY_LEN" "list_all (\<lambda>b. \<not> is_control b) (p_raw p)"
    using p unfolding packet_wf_def by blast+
  from p have "raw = p_raw p" by blast
  with packet_parse_render [OF r(1,3,4) w] show "packet_parse raw = Inr p"
    unfolding r(2) [symmetric] by simp
qed

interpretation packet_codec: exact_codec packet_parse packet_as_str packet_wf
  by unfold_locales (auto simp: packet_parse_iff packet_as_str_def)

subsection \<open>Rewriting the path\<close>

lemma not_control_ascii:
  "\<not> is_control CHR ''>''" "\<not> is_control CHR '',''" "\<not> is_control CHR '':''"
  by (simp_all add: is_control_def)

definition path_text_ok :: "str \<Rightarrow> bool" where
  "path_text_ok np \<longleftrightarrow> CHR '':'' \<notin> set np \<and> list_all (\<lambda>b. \<not> is_control b) np \<and> field_ok np"

lemma packet_path_text_ok: "packet_wf p \<Longrightarrow> path_text_ok (p_path p)"
proof -
  assume w: "packet_wf p"
  then have "packet_wf p \<and> p_raw p = p_raw p" by simp
  then obtain rest where
    "p_raw p = p_source p @ CHR ''>'' # p_destination p @ rest @ CHR '':'' # p_payload p"
    "path_part rest (p_path p)" "CHR '':'' \<notin> set rest" by (rule packet_wf_rest)
  moreover have "list_all (\<lambda>b. \<not> is_control b) (p_raw p)" using w by (simp add: packet_wf_def)
  ultimately show ?thesis
    by (cases rest) (auto simp: path_part_def path_text_ok_def field_ok_def split: if_splits)
qed

lemma packet_wf_parts:
  assumes "packet_wf p"
  shows "p_payload p \<noteq> []" "field_ok (p_payload p)"
    "validate_for_packet (p_source p) = Inr ()" "validate_for_packet (p_destination p) = Inr ()"
    "list_all (\<lambda>b. \<not> is_control b) (p_source p)" "list_all (\<lambda>b. \<not> is_control b) (p_destination p)"
    "list_all (\<lambda>b. \<not> is_control b) (p_payload p)"
proof -
  show "p_payload p \<noteq> []" "field_ok (p_payload p)"
    "validate_for_packet (p_source p) = Inr ()" "validate_for_packet (p_destination p) = Inr ()"
    using assms by (simp_all add: packet_wf_def)
  have "packet_wf p \<and> p_raw p = p_raw p" using assms by simp
  then obtain rest where
    "p_raw p = p_source p @ CHR ''>'' # p_destination p @ rest @ CHR '':'' # p_payload p"
    by (rule packet_wf_rest)
  moreover have "list_all (\<lambda>b. \<not> is_control b) (p_raw p)" using assms by (simp add: packet_wf_def)
  ultimately show "list_all (\<lambda>b. \<not> is_control b) (p_source p)"
    "list_all (\<lambda>b. \<not> is_control b) (p_destination p)"
    "list_all (\<lambda>b. \<not> is_control b) (p_payload p)" by simp_all
qed

definition with_path_packet :: "packet \<Rightarrow> str \<Rightarrow> packet" where
  "with_path_packet p np =
     \<lparr>p_raw = with_path p np, p_source = p_source p, p_destination = p_destination p, p_path = np,
      p_payload = p_payload p,
      p_colon = length (p_source p) + 1 + length (p_destination p) +
                (if np = [] then 0 else Suc (length np))\<rparr>"

lemma with_path_reparse:
  assumes "packet_wf p" and "path_text_ok np"
  shows "packet_parse (with_path p np) =
    (if length (with_path p np) \<le> MAX_PACKET_BODY_LEN then Inr (with_path_packet p np)
     else Inl (PacketTooLong (length (with_path p np))))"
proof -
  define rest where "rest = (if np = [] then [] else CHR '','' # np)"
  note parts = packet_wf_parts [OF assms(1)]
  have raw: "with_path p np =
      p_source p @ CHR ''>'' # p_destination p @ rest @ CHR '':'' # p_payload p"
    by (simp add: with_path_def rest_def)
  have r: "path_part rest np" "CHR '':'' \<notin> set rest" "list_all (\<lambda>b. \<not> is_control b) rest"
    using assms(2) by (auto simp: rest_def path_part_def path_text_ok_def not_control_ascii)
  have ctl: "list_all (\<lambda>b. \<not> is_control b) (with_path p np)"
    using parts r(3) by (simp add: raw not_control_ascii)
  have rl: "length rest = (if np = [] then 0 else Suc (length np))" by (simp add: rest_def)
  show ?thesis
  proof (cases "length (with_path p np) \<le> MAX_PACKET_BODY_LEN")
    case True
    show ?thesis
      using packet_parse_render [OF raw r(1,2) parts(1-4) True ctl] True
      by (simp add: with_path_packet_def rl)
  next
    case False
    then show ?thesis by (auto simp: packet_parse_def raw)
  qed
qed

lemma with_path_packet_wf:
  "packet_wf p \<Longrightarrow> path_text_ok np \<Longrightarrow> length (with_path p np) \<le> MAX_PACKET_BODY_LEN \<Longrightarrow>
     packet_wf (with_path_packet p np)"
  using with_path_reparse packet_codec.parse_wf by fastforce

lemma header_colon:
  assumes "packet_wf p"
  shows "header p @ CHR '':'' # p_payload p = p_raw p"
proof -
  have "packet_wf p \<and> p_raw p = p_raw p" using assms by simp
  then obtain rest where r:
    "p_raw p = p_source p @ CHR ''>'' # p_destination p @ rest @ CHR '':'' # p_payload p"
    "p_colon p = length (p_source p) + 1 + length (p_destination p) + length rest"
    by (rule packet_wf_rest)
  then have raw: "p_raw p = (p_source p @ CHR ''>'' # p_destination p @ rest) @ CHR '':'' # p_payload p"
    and c: "p_colon p = length (p_source p @ CHR ''>'' # p_destination p @ rest)" by simp_all
  have "is_char_boundary (p_raw p) (p_colon p)"
    unfolding raw c by (rule boundary_append) (simp add: is_ascii_def)
  then have "header p = take (p_colon p) (p_raw p)" by (simp add: header_def get_to_def)
  then show ?thesis unfolding raw c by simp
qed

subsection \<open>Properties\<close>

text \<open>C27: the accepted packet lines are exactly those of the form
  \<open>SOURCE>DESTINATION[,PATH]:INFORMATION\<close> with valid callsigns, a non-empty information field, no
  colon in the path, no control byte but the tab and at most 510 bytes; the parts of the parsed
  packet are those of the text and the packet prints as the line itself.\<close>

theorem packet_language:
  "packet_parse raw = Inr p \<longleftrightarrow> packet_wf p \<and> packet_as_str p = raw \<and> header p @ '':'' @ p_payload p = raw"
  using packet_parse_iff header_colon by (auto simp: packet_as_str_def)

text \<open>C28: writing an accepted packet with another path (colon-free, without control bytes, starting
  on a character) and parsing the result gives the same source, destination and information field
  with the new path, or, when the line has outgrown 510 bytes, the length error and nothing else.\<close>

theorem rewritten_line_parses:
  assumes "packet_parse line = Inr p" and "path_text_ok np"
  shows "packet_parse (with_path p np) =
    (if length (with_path p np) \<le> 510 then Inr (with_path_packet p np)
     else Inl (PacketTooLong (length (with_path p np))))"
  using with_path_reparse [OF _ assms(2), of p] assms(1) packet_codec.parse_wf
  by (simp add: MAX_PACKET_BODY_LEN_def MAX_PACKET_LEN_def)

theorem rewritten_line_parses_witness:
  "\<exists>p q. packet_parse ''A>B,C:x'' = Inr p \<and> packet_parse (with_path p ''D,E'') = Inr q \<and>
     p_path q = ''D,E'' \<and> p_raw q = ''A>B,D,E:x''"
proof -
  let ?p = "\<lparr>p_raw = ''A>B,C:x'', p_source = ''A'', p_destination = ''B'', p_path = ''C'',
      p_payload = ''x'', p_colon = 5\<rparr>"
  have p: "packet_parse ''A>B,C:x'' = Inr ?p" by code_simp
  have ok: "path_text_ok ''D,E''" by code_simp
  from rewritten_line_parses [OF p ok] have
    "packet_parse (with_path ?p ''D,E'') = Inr (with_path_packet ?p ''D,E'')"
    by (simp add: with_path_def)
  with p show ?thesis by (auto simp: with_path_packet_def with_path_def)
qed

end
