(* ===== verification/Qconstruct.thy ===== *)
theory Qconstruct
  imports Packet
begin

section \<open>The q construct algorithm (\<open>aprsr-core/src/qconstruct.rs\<close>)\<close>

text \<open>
  \<open>apply_client\<close> is the rule cascade of the code over the raw path text with its byte offsets. Its
  specification \<open>spec_apply\<close> works on the list of (callsign, used) pairs of the path (\<open>view\<close>) and
  on positions in it; \<open>apply_client_refines\<close> is the functional refinement between the two, on every
  branch and every rejection. Loop detection, the code found again in the written path, and the
  fate of \<open>qAZ\<close> are read off the specification.
\<close>

datatype qcode =
    VerifiedClient
  | Unverified
  | Udp
  | GatedClientOnly
  | NonGated
  | Server
  | RemoteIgate
  | VerifiedIgate
  | Internal
  | Trace

fun qcode_as_str :: "qcode \<Rightarrow> str" where
  "qcode_as_str VerifiedClient = ''qAC''"
| "qcode_as_str Unverified = ''qAX''"
| "qcode_as_str Udp = ''qAU''"
| "qcode_as_str GatedClientOnly = ''qAo''"
| "qcode_as_str NonGated = ''qAO''"
| "qcode_as_str Server = ''qAS''"
| "qcode_as_str RemoteIgate = ''qAr''"
| "qcode_as_str VerifiedIgate = ''qAR''"
| "qcode_as_str Internal = ''qAZ''"
| "qcode_as_str Trace = ''qAI''"

definition qcode_parse :: "str \<Rightarrow> qcode option" where
  "qcode_parse hop =
     (if hop = ''qAC'' then Some VerifiedClient
      else if hop = ''qAX'' then Some Unverified
      else if hop = ''qAU'' then Some Udp
      else if hop = ''qAo'' then Some GatedClientOnly
      else if hop = ''qAO'' then Some NonGated
      else if hop = ''qAS'' then Some Server
      else if hop = ''qAr'' then Some RemoteIgate
      else if hop = ''qAR'' then Some VerifiedIgate
      else if hop = ''qAZ'' then Some Internal
      else if hop = ''qAI'' then Some Trace
      else None)"

record found_q =
  fq_code :: qcode
  fq_offset :: nat
  fq_call :: "str option"

fun find_loop :: "hop list \<Rightarrow> found_q option" where
  "find_loop [] = None"
| "find_loop (h # hs) =
     (case qcode_parse (h_call h) of
        Some code \<Rightarrow>
          Some \<lparr>fq_code = code, fq_offset = h_offset h,
                fq_call = map_option h_call (get hs 0)\<rparr>
      | None \<Rightarrow> find_loop hs)"

definition find_q :: "str \<Rightarrow> found_q option" where
  "find_q path = find_loop (hops path)"

datatype qreject =
    RejectInternal
  | QacWithoutTcpip
  | Loop str
  | DuplicateInPath str

record qcontext =
  qc_server_id :: str
  qc_login :: str
  qc_verified :: bool
  qc_via_udp :: bool
  qc_send_only :: bool

record qoutcome =
  qo_code :: qcode
  qo_path :: str
  qo_rewritten :: bool

definition unchanged :: "str \<Rightarrow> qcode \<Rightarrow> qoutcome" where
  "unchanged path code = \<lparr>qo_code = code, qo_path = path, qo_rewritten = False\<rparr>"

definition append_q :: "str \<Rightarrow> qcode \<Rightarrow> str \<Rightarrow> qoutcome" where
  "append_q path code call =
     \<lparr>qo_code = code,
      qo_path = (if path = [] then qcode_as_str code @ '','' @ call
                 else path @ '','' @ qcode_as_str code @ '','' @ call),
      qo_rewritten = True\<rparr>"

definition replace_at :: "str \<Rightarrow> nat \<Rightarrow> qcode \<Rightarrow> str \<Rightarrow> qoutcome" where
  "replace_at path off code call =
     (let hd = truncated_to path off in
      \<lparr>qo_code = code,
       qo_path = (if hd = [] then qcode_as_str code @ '','' @ call
                  else hd @ '','' @ qcode_as_str code @ '','' @ call),
       qo_rewritten = True\<rparr>)"

definition replace_or_append :: "str \<Rightarrow> found_q option \<Rightarrow> qcode \<Rightarrow> str \<Rightarrow> qoutcome" where
  "replace_or_append path existing code call =
     (case existing of
        Some found \<Rightarrow> replace_at path (fq_offset found) code call
      | None \<Rightarrow> append_q path code call)"

definition rewrite_i_construct :: "str \<Rightarrow> qcode \<Rightarrow> str \<Rightarrow> qoutcome" where
  "rewrite_i_construct path code igate =
     (let offsets = butlast (map h_offset (hops path));
          igate_offset = (if offsets = [] then 0 else last offsets)
      in replace_at path igate_offset code igate)"

definition apply_client :: "packet \<Rightarrow> qcontext \<Rightarrow> (qreject, qoutcome) result" where
  "apply_client packet ctx =
     (let path = p_path packet; existing = find_q path in
      and_then
        (case existing of
           None \<Rightarrow> Inr ()
         | Some found \<Rightarrow>
             if fq_code found = Internal then Inl RejectInternal
             else if fq_code found = VerifiedClient \<and> \<not> has_tcpip path then Inl QacWithoutTcpip
             else if list_ex (\<lambda>h. h_offset h > fq_offset found \<and>
                                eq_ignore_ascii_case (h_call h) (qc_server_id ctx)) (hops path)
             then Inl (Loop (qc_server_id ctx))
             else Inr ())
        (\<lambda>_.
      case first_duplicate path of
        Some call \<Rightarrow> Inl (DuplicateInPath call)
      | None \<Rightarrow>
      if qc_via_udp ctx then Inr (replace_or_append path existing Udp (qc_server_id ctx))
      else if \<not> qc_verified ctx
      then Inr (replace_or_append path existing Unverified (qc_server_id ctx))
      else
      (case i_construct path of
         Some igate \<Rightarrow>
           Inr (rewrite_i_construct path
                 (if eq_ignore_ascii_case igate (qc_login ctx) then VerifiedIgate else RemoteIgate)
                 igate)
       | None \<Rightarrow>
      let from_is_login = eq_ignore_ascii_case (p_source packet) (qc_login ctx) in
      if \<not> from_is_login then
        (case existing of
           Some found \<Rightarrow>
             (case (if fq_code found \<in> {VerifiedIgate, RemoteIgate} then Some GatedClientOnly
                    else if fq_code found \<in> {Server, VerifiedClient} then Some NonGated
                    else None) of
                Some code \<Rightarrow> Inr (replace_at path (fq_offset found) code (qc_login ctx))
              | None \<Rightarrow> Inr (unchanged path (fq_code found)))
         | None \<Rightarrow> Inr (append_q path NonGated (qc_login ctx)))
      else
      (case existing of
         Some found \<Rightarrow> Inr (unchanged path (fq_code found))
       | None \<Rightarrow>
           Inr (append_q path (if qc_send_only ctx then NonGated else VerifiedClient)
                  (qc_server_id ctx))))))"

subsection \<open>Codes\<close>

lemma qcode_parse_Some: "qcode_parse s = Some c \<longleftrightarrow> s = qcode_as_str c"
  by (cases c) (auto simp: qcode_parse_def)

lemma qcode_parse_as_str [simp]: "qcode_parse (qcode_as_str c) = Some c"
  by (simp add: qcode_parse_Some)

lemma qcode_as_str_inj: "qcode_as_str c = qcode_as_str d \<longleftrightarrow> c = d"
  by (metis qcode_parse_as_str option.inject)

text \<open>The codec view: parsing as a fallible function whose error carries nothing.\<close>

definition qcode_codec_parse :: "str \<Rightarrow> (unit, qcode) result" where
  "qcode_codec_parse s = ok_or () (qcode_parse s)"

interpretation qcode_codec: exact_codec qcode_codec_parse qcode_as_str "\<lambda>_. True"
  by unfold_locales (auto simp: qcode_codec_parse_def res_simps qcode_parse_Some)

text \<open>The derived order of the codes (the declaration order).\<close>

fun qcode_rank :: "qcode \<Rightarrow> nat" where
  "qcode_rank VerifiedClient = 0"
| "qcode_rank Unverified = 1"
| "qcode_rank Udp = 2"
| "qcode_rank GatedClientOnly = 3"
| "qcode_rank NonGated = 4"
| "qcode_rank Server = 5"
| "qcode_rank RemoteIgate = 6"
| "qcode_rank VerifiedIgate = 7"
| "qcode_rank Internal = 8"
| "qcode_rank Trace = 9"

lemma qcode_rank_inj: "qcode_rank c = qcode_rank d \<longleftrightarrow> c = d"
  by (cases c; cases d) simp_all

instantiation qcode :: linorder
begin

definition less_eq_qcode :: "qcode \<Rightarrow> qcode \<Rightarrow> bool" where
  "less_eq_qcode c d \<longleftrightarrow> qcode_rank c \<le> qcode_rank d"

definition less_qcode :: "qcode \<Rightarrow> qcode \<Rightarrow> bool" where
  "less_qcode c d \<longleftrightarrow> qcode_rank c < qcode_rank d"

instance
  by standard (auto simp: less_eq_qcode_def less_qcode_def qcode_rank_inj)

end

lemma qcode_plain:
  "CHR '','' \<notin> set (qcode_as_str c)" "qcode_as_str c \<noteq> []" "last (qcode_as_str c) \<noteq> CHR ''*''"
  "field_ok (qcode_as_str c)"
  by (cases c; simp add: field_ok_def is_cont_def)+

subsection \<open>The view of a path\<close>

text \<open>
  A path as the specification sees it: the non-empty callsigns with their used flags. Positions in
  the view correspond to byte offsets of the text: cutting the text before the hop at position \<open>k\<close>
  leaves the first \<open>k\<close> entries (\<open>view_truncated_to\<close>).
\<close>

definition field_view :: "str \<Rightarrow> str \<times> bool" where
  "field_view f = (h_call (hop_of 0 f), h_used (hop_of 0 f))"

definition fields_view :: "str list \<Rightarrow> (str \<times> bool) list" where
  "fields_view fs = filter (\<lambda>e. fst e \<noteq> []) (map field_view fs)"

definition view :: "str \<Rightarrow> (str \<times> bool) list" where
  "view raw = map (\<lambda>h. (h_call h, h_used h)) (hops raw)"

lemma map_view_hop_list: "map (\<lambda>h. (h_call h, h_used h)) (hop_list i fs) = map field_view fs"
  by (induction fs arbitrary: i) (auto simp: field_view_def hop_of_def split: option.splits)

lemma view_fields: "path_ok raw \<Longrightarrow> view raw = fields_view (path_fields raw)"
  unfolding view_def fields_view_def
  by (simp add: hops_eq_hop_list map_view_hop_list [of 0, symmetric] filter_map comp_def)

lemma map_fst_view: "map fst (view raw) = calls raw"
  by (simp add: view_def calls_def comp_def)

lemma fields_view_simps [simp]:
  "fields_view [] = []" "fields_view (fs @ gs) = fields_view fs @ fields_view gs"
  by (simp_all add: fields_view_def)

lemma fields_view_Nil_field [simp]: "fields_view ([] # fs) = fields_view fs"
  by (simp add: fields_view_def field_view_def)

lemma field_view_plain: "last f \<noteq> CHR ''*'' \<Longrightarrow> field_view f = (f, False)"
  by (simp add: field_view_def hop_of_plain)

lemma fields_view_qcode [simp]:
  "fields_view (qcode_as_str c # fs) = (qcode_as_str c, False) # fields_view fs"
  by (simp add: fields_view_def field_view_plain qcode_plain)

text \<open>Splitting the hops of a path splits its fields.\<close>

lemma hop_list_split:
  assumes "filter P (hop_list i fs) = us @ h # vs"
  obtains fs1 f fs2 where "fs = fs1 @ f # fs2" "us = filter P (hop_list i fs1)"
    "h = hop_of (i + length (concat fs1) + length fs1) f"
    "vs = filter P (hop_list (i + length (concat fs1) + length fs1 + length f + 1) fs2)"
  using assms
proof (induction fs arbitrary: i us thesis)
  case Nil
  then show ?case by simp
next
  case (Cons g fs)
  show ?case
  proof (cases "us = [] \<and> P (hop_of i g)")
    case True
    with Cons.prems(2) have "h = hop_of i g" "vs = filter P (hop_list (i + length g + 1) fs)"
      by auto
    with True show ?thesis by (intro Cons.prems(1) [of "[]" g fs]) auto
  next
    case False
    define us' where "us' = (if P (hop_of i g) then tl us else us)"
    have "filter P (hop_list (i + length g + 1) fs) = us' @ h # vs"
      and us: "us = (if P (hop_of i g) then hop_of i g # us' else us')"
      using False Cons.prems(2) by (cases us; auto simp: us'_def split: if_splits)+
    from Cons.IH [OF _ this(1)] obtain fs1 f fs2 where r: "fs = fs1 @ f # fs2"
      "us' = filter P (hop_list (i + length g + 1) fs1)"
      "h = hop_of (i + length g + 1 + length (concat fs1) + length fs1) f"
      "vs = filter P (hop_list (i + length g + 1 + length (concat fs1) + length fs1 + length f + 1) fs2)"
      by blast
    show ?thesis
      by (rule Cons.prems(1) [of "g # fs1" f fs2]) (use r us in \<open>simp_all add: ac_simps\<close>)
  qed
qed

lemma join_comma_length:
  "fs \<noteq> [] \<Longrightarrow> length (join '','' fs) = length (concat fs) + length fs - 1"
proof (induction fs)
  case Nil
  then show ?case by simp
next
  case (Cons f fs)
  then show ?case by (cases fs) auto
qed

lemma join_comma_append:
  "fs \<noteq> [] \<Longrightarrow> gs \<noteq> [] \<Longrightarrow> join '','' (fs @ gs) = join '','' fs @ CHR '','' # join '','' gs"
proof (induction fs)
  case Nil
  then show ?case by simp
next
  case (Cons f fs)
  then show ?case by (cases fs; cases gs) auto
qed

lemma truncated_to_fields:
  assumes "path_fields raw = fs1 @ f # fs2"
  shows "truncated_to raw (length (concat fs1) + length fs1) = join '','' fs1"
proof (cases "fs1 = []")
  case True
  then show ?thesis by (simp add: truncated_to_def)
next
  case False
  have raw: "raw = join '','' fs1 @ CHR '','' # join '','' (f # fs2)"
    using join_fields [of raw] join_comma_append [OF False, of "f # fs2"] assms by simp
  have n: "length (concat fs1) + length fs1 - 1 = length (join '','' fs1)"
    using join_comma_length [OF False] by simp
  have "is_char_boundary raw (length (join '','' fs1))"
    unfolding raw by (rule boundary_append) (simp add: is_ascii_def)
  moreover have "min (length (join '','' fs1)) (length raw) = length (join '','' fs1)"
    by (simp add: raw)
  ultimately show ?thesis
    unfolding truncated_to_def n by (simp add: get_to_def) (simp add: raw)
qed

lemma path_ok_fields_prefix:
  assumes "path_ok raw" and "path_fields raw = fs1 @ fs2" and "fs1 \<noteq> []"
  shows "path_fields (join '','' fs1) = fs1" and "path_ok (join '','' fs1)"
proof -
  show f: "path_fields (join '','' fs1) = fs1"
    using assms(2,3) path_fields_no_comma [of _ raw] by (intro path_fields_join) auto
  show "path_ok (join '','' fs1)"
    using assms unfolding path_ok_field_ok f by (cases fs1) auto
qed

lemma view_truncated_to:
  assumes "path_ok raw" and "hops raw = us @ h # vs"
  shows "path_ok (truncated_to raw (h_offset h))"
    and "view (truncated_to raw (h_offset h)) = map (\<lambda>h. (h_call h, h_used h)) us"
proof -
  from assms hops_eq_hop_list [OF assms(1)]
  have "filter (\<lambda>h. h_call h \<noteq> []) (hop_list 0 (path_fields raw)) = us @ h # vs" by simp
  then obtain fs1 f fs2 where r: "path_fields raw = fs1 @ f # fs2"
    "us = filter (\<lambda>h. h_call h \<noteq> []) (hop_list 0 fs1)"
    "h_offset h = length (concat fs1) + length fs1"
    by (elim hop_list_split) auto
  have t: "truncated_to raw (h_offset h) = join '','' fs1"
    using truncated_to_fields [OF r(1)] r(3) by simp
  have u: "map (\<lambda>h. (h_call h, h_used h)) us = fields_view fs1"
    unfolding r(2) fields_view_def
    by (simp add: map_view_hop_list [of 0, symmetric] filter_map comp_def)
  show "path_ok (truncated_to raw (h_offset h))"
    using path_ok_fields_prefix [OF assms(1) r(1)] path_ok_plain [of "[]"] by (cases fs1) (auto simp: t)
  then show "view (truncated_to raw (h_offset h)) = map (\<lambda>h. (h_call h, h_used h)) us"
    using path_ok_fields_prefix(1) [OF assms(1) r(1)] by (cases fs1) (auto simp: t u view_fields)
qed

lemma hops_offset_less:
  assumes "path_ok raw" and "hops raw = us @ h # vs"
  shows "\<forall>u \<in> set us. h_offset u < h_offset h" and "\<forall>v \<in> set vs. h_offset h < h_offset v"
proof -
  have ge: "\<forall>h \<in> set (hop_list i fs). i \<le> h_offset h" for i fs
    by (induction fs arbitrary: i) (auto, fastforce)
  have lt: "\<forall>h \<in> set (hop_list i fs). h_offset h < i + length (concat fs) + length fs" for i fs
    by (induction fs arbitrary: i) (auto, fastforce)
  from assms hops_eq_hop_list [OF assms(1)]
  have "filter (\<lambda>h. h_call h \<noteq> []) (hop_list 0 (path_fields raw)) = us @ h # vs" by simp
  then obtain fs1 f fs2 where r: "us = filter (\<lambda>h. h_call h \<noteq> []) (hop_list 0 fs1)"
    "h = hop_of (0 + length (concat fs1) + length fs1) f"
    "vs = filter (\<lambda>h. h_call h \<noteq> [])
       (hop_list (0 + length (concat fs1) + length fs1 + length f + 1) fs2)"
    by (rule hop_list_split)
  show "\<forall>u \<in> set us. h_offset u < h_offset h" using lt [of 0 fs1] by (auto simp: r)
  show "\<forall>v \<in> set vs. h_offset h < h_offset v" using ge by (fastforce simp: r)
qed

subsection \<open>The specification on views\<close>

fun spec_find :: "(str \<times> bool) list \<Rightarrow> (nat \<times> qcode) option" where
  "spec_find [] = None"
| "spec_find (e # es) =
     (case qcode_parse (fst e) of
        Some c \<Rightarrow> Some (0, c)
      | None \<Rightarrow> map_option (\<lambda>(k, c). (Suc k, c)) (spec_find es))"

definition spec_duplicate :: "str list \<Rightarrow> str option" where
  "spec_duplicate cs =
     map_option ((!) cs)
       (List.find (\<lambda>j. to_ascii_uppercase (cs ! j) \<in> to_ascii_uppercase ` set (take j cs))
          [0..<length cs])"

definition spec_igate :: "(str \<times> bool) list \<Rightarrow> str option" where
  "spec_igate es =
     (if 2 \<le> length es \<and> eq_ignore_ascii_case (fst (last es)) ''I''
      then Some (fst (es ! (length es - 2))) else None)"

definition spec_reject :: "(str \<times> bool) list \<Rightarrow> str \<Rightarrow> qreject option" where
  "spec_reject es server_id =
     (case (case spec_find es of
              None \<Rightarrow> None
            | Some (k, c) \<Rightarrow>
                if c = Internal then Some RejectInternal
                else if c = VerifiedClient \<and>
                        (\<forall>e \<in> set es. to_ascii_uppercase (fst e) \<notin> {''TCPIP'', ''TCPXX''})
                then Some QacWithoutTcpip
                else if \<exists>e \<in> set (drop (Suc k) es). eq_ignore_ascii_case (fst e) server_id
                then Some (Loop server_id)
                else None) of
        Some r \<Rightarrow> Some r
      | None \<Rightarrow>
          map_option DuplicateInPath
            (spec_duplicate (filter (\<lambda>c. \<not> is_generic_alias c) (map fst es))))"

definition spec_tag ::
  "(str \<times> bool) list \<Rightarrow> nat \<Rightarrow> qcode \<Rightarrow> str \<Rightarrow> qcode \<times> (str \<times> bool) list \<times> bool" where
  "spec_tag es k code call = (code, take k es @ fields_view [qcode_as_str code, call], True)"

definition spec_rewrite ::
  "(str \<times> bool) list \<Rightarrow> str \<Rightarrow> qcontext \<Rightarrow> qcode \<times> (str \<times> bool) list \<times> bool" where
  "spec_rewrite es source ctx =
     (let at = (case spec_find es of Some (k, c) \<Rightarrow> k | None \<Rightarrow> length es) in
      if qc_via_udp ctx then spec_tag es at Udp (qc_server_id ctx)
      else if \<not> qc_verified ctx then spec_tag es at Unverified (qc_server_id ctx)
      else
      (case (spec_igate es, spec_find es) of
         (Some igate, _) \<Rightarrow>
           spec_tag es (length es - 2)
             (if eq_ignore_ascii_case igate (qc_login ctx) then VerifiedIgate else RemoteIgate) igate
       | (None, Some (k, c)) \<Rightarrow>
           if eq_ignore_ascii_case source (qc_login ctx) then (c, es, False)
           else if c \<in> {VerifiedIgate, RemoteIgate} then spec_tag es k GatedClientOnly (qc_login ctx)
           else if c \<in> {Server, VerifiedClient} then spec_tag es k NonGated (qc_login ctx)
           else (c, es, False)
       | (None, None) \<Rightarrow>
           if eq_ignore_ascii_case source (qc_login ctx)
           then spec_tag es (length es) (if qc_send_only ctx then NonGated else VerifiedClient)
                  (qc_server_id ctx)
           else spec_tag es (length es) NonGated (qc_login ctx)))"

definition spec_apply ::
  "(str \<times> bool) list \<Rightarrow> str \<Rightarrow> qcontext \<Rightarrow>
     (qreject, qcode \<times> (str \<times> bool) list \<times> bool) result" where
  "spec_apply es source ctx =
     (case spec_reject es (qc_server_id ctx) of
        Some r \<Rightarrow> Inl r
      | None \<Rightarrow> Inr (spec_rewrite es source ctx))"

definition outcome_view :: "qoutcome \<Rightarrow> qcode \<times> (str \<times> bool) list \<times> bool" where
  "outcome_view out = (qo_code out, view (qo_path out), qo_rewritten out)"

subsection \<open>Refinement\<close>

definition path_valid :: "str \<Rightarrow> bool" where
  "path_valid raw \<longleftrightarrow> list_all field_ok (path_fields raw)"

lemma path_valid_ok: "path_valid raw \<Longrightarrow> path_ok raw"
  unfolding path_valid_def path_ok_field_ok by (cases "path_fields raw") auto

lemma path_valid_append:
  "path_valid (a @ CHR '','' # b) \<longleftrightarrow> path_valid a \<and> path_valid b"
  by (simp add: path_valid_def path_comma_simps)

lemma path_valid_plain: "CHR '','' \<notin> set f \<Longrightarrow> path_valid f \<longleftrightarrow> field_ok f"
  by (simp add: path_valid_def path_fields_plain)

lemma valid_utf8_path_valid:
  assumes "valid_utf8 raw"
  shows "path_valid raw"
proof -
  have "list_all field_ok (tl (path_fields raw))"
    using valid_utf8_path_ok [OF assms] by (simp add: path_ok_field_ok)
  moreover have "field_ok (hd (path_fields raw))"
  proof (cases raw)
    case Nil
    then show ?thesis by (simp add: field_ok_def)
  next
    case (Cons a r)
    then have "\<not> is_cont a" using assms valid_utf8_head_not_cont by blast
    with Cons show ?thesis
      by (cases "path_fields r") (auto simp: path_fields_def field_ok_def split: if_splits)
  qed
  ultimately show ?thesis unfolding path_valid_def by (cases "path_fields raw") auto
qed

lemma view_append_q:
  assumes "path_valid base" and "CHR '','' \<notin> set call" and "field_ok call"
    and np_def: "np = (if base = [] then qcode_as_str code @ '','' @ call
                       else base @ '','' @ qcode_as_str code @ '','' @ call)"
  shows "path_valid np" and "view np = view base @ fields_view [qcode_as_str code, call]"
proof -
  have v: "path_valid (qcode_as_str code @ CHR '','' # call)"
    using assms(2,3) by (simp add: path_valid_append path_valid_plain qcode_plain)
  have f: "path_fields (qcode_as_str code @ CHR '','' # call) = [qcode_as_str code, call]"
    using assms(2) by (simp add: path_comma_simps path_fields_plain qcode_plain)
  show np: "path_valid np" using v assms(1) by (simp add: np_def path_valid_append)
  show "view np = view base @ fields_view [qcode_as_str code, call]"
    unfolding view_fields [OF path_valid_ok [OF np]] view_fields [OF path_valid_ok [OF assms(1)]]
    using f by (simp add: np_def path_comma_simps)
qed

lemma path_valid_truncated_to:
  assumes "path_valid raw" and "hops raw = us @ h # vs"
  shows "path_valid (truncated_to raw (h_offset h))"
proof -
  note ok = path_valid_ok [OF assms(1)]
  from assms hops_eq_hop_list [OF ok]
  have "filter (\<lambda>h. h_call h \<noteq> []) (hop_list 0 (path_fields raw)) = us @ h # vs" by simp
  then obtain fs1 f fs2 where r: "path_fields raw = fs1 @ f # fs2"
    "h = hop_of (0 + length (concat fs1) + length fs1) f"
    by (rule hop_list_split)
  have "truncated_to raw (h_offset h) = join '','' fs1"
    using truncated_to_fields [OF r(1)] by (simp add: r(2))
  then show ?thesis
    using path_ok_fields_prefix(1) [OF ok r(1)] assms(1) r(1)
    by (cases fs1) (auto simp: path_valid_def field_ok_def)
qed

lemma find_loop_None: "find_loop hs = None \<longleftrightarrow> spec_find (map (\<lambda>h. (h_call h, h_used h)) hs) = None"
  by (induction hs) (auto split: option.splits)

lemma find_loop_Some:
  assumes "find_loop hs = Some f"
  obtains us h vs where "hs = us @ h # vs" "fq_offset f = h_offset h"
    "spec_find (map (\<lambda>h. (h_call h, h_used h)) hs) = Some (length us, fq_code f)"
    "h_call h = qcode_as_str (fq_code f)" "fq_call f = map_option h_call (get vs 0)"
  using assms
proof (induction hs arbitrary: thesis)
  case Nil
  then show ?case by simp
next
  case (Cons g hs)
  show ?case
  proof (cases "qcode_parse (h_call g)")
    case None
    with Cons.prems(2) have "find_loop hs = Some f" by simp
    from Cons.IH [OF _ this] obtain us h vs where "hs = us @ h # vs" "fq_offset f = h_offset h"
      "spec_find (map (\<lambda>h. (h_call h, h_used h)) hs) = Some (length us, fq_code f)"
      "h_call h = qcode_as_str (fq_code f)" "fq_call f = map_option h_call (get vs 0)" by blast
    with None show ?thesis by (intro Cons.prems(1) [of "g # us" h vs]) auto
  next
    case (Some c)
    with Cons.prems(2) show ?thesis
      by (intro Cons.prems(1) [of "[]" g hs]) (auto simp: qcode_parse_Some)
  qed
qed

lemma find_upt_shift:
  "List.find P [a ..< a + n] = map_option (\<lambda>j. j + a) (List.find (\<lambda>j. P (j + a)) [0 ..< n])"
proof (induction n arbitrary: a P)
  case 0
  then show ?case by simp
next
  case (Suc n)
  have "List.find P [Suc a ..< Suc a + n] =
      map_option (\<lambda>j. j + Suc a) (List.find (\<lambda>j. P (j + Suc a)) [0 ..< n])" by (rule Suc)
  moreover have "List.find (\<lambda>j. P (j + a)) [1 ..< 1 + n] =
      map_option (\<lambda>j. j + 1) (List.find (\<lambda>j. P (j + 1 + a)) [0 ..< n])" by (rule Suc)
  moreover have "[a ..< a + Suc n] = a # [Suc a ..< Suc a + n]"
    "[0 ..< Suc n] = 0 # [1 ..< 1 + n]"
    by (simp_all add: upt_conv_Cons del: upt_Suc)
  ultimately show ?case by (simp add: option.map_comp comp_def)
qed

lemma dup_loop_spec:
  "dup_loop earlier hs =
     map_option ((!) (map h_call hs))
       (List.find (\<lambda>j. to_ascii_uppercase (map h_call hs ! j) \<in>
            to_ascii_uppercase ` set (map h_call earlier @ take j (map h_call hs)))
          [0 ..< length hs])"
proof (induction earlier hs rule: dup_loop.induct)
  case (1 earlier)
  then show ?case by simp
next
  case (2 earlier h hs)
  let ?Q = "\<lambda>j. to_ascii_uppercase (map h_call (h # hs) ! j) \<in>
      to_ascii_uppercase ` set (map h_call earlier @ take j (map h_call (h # hs)))"
  have ex: "list_ex (\<lambda>prev. eq_ignore_ascii_case (h_call prev) (h_call h)) earlier \<longleftrightarrow>
      to_ascii_uppercase (h_call h) \<in> to_ascii_uppercase ` set (map h_call earlier)"
    by (auto simp: list_ex_iff eq_ignore_iff_uppercase image_iff) metis
  have u: "[0 ..< length (h # hs)] = 0 # [1 ..< 1 + length hs]"
    by (simp add: upt_conv_Cons del: upt_Suc)
  show ?case
  proof (cases "to_ascii_uppercase (h_call h) \<in> to_ascii_uppercase ` set (map h_call earlier)")
    case True
    then show ?thesis unfolding u using ex by simp
  next
    case False
    then have "dup_loop earlier (h # hs) = dup_loop (earlier @ [h]) hs" using ex by simp
    moreover have "List.find ?Q [1 ..< 1 + length hs] =
        map_option (\<lambda>j. j + 1) (List.find (\<lambda>j. ?Q (j + 1)) [0 ..< length hs])"
      by (rule find_upt_shift)
    moreover note "2.IH"
    ultimately show ?thesis
      unfolding u using False ex by (simp add: option.map_comp comp_def del: upt_Suc)
  qed
qed

lemma first_duplicate_spec:
  "first_duplicate raw = spec_duplicate (filter (\<lambda>c. \<not> is_generic_alias c) (map fst (view raw)))"
  unfolding first_duplicate_def dup_loop_spec map_fst_view calls_def spec_duplicate_def
  by (simp add: filter_map comp_def)

lemma i_construct_spec: "i_construct raw = spec_igate (view raw)"
proof (cases "i_construct raw")
  case None
  then have no: "\<not> (\<exists>cs i. calls raw = cs @ [igate, i] \<and> eq_ignore_ascii_case i ''I'')" for igate
    using i_construct_iff by (metis option.distinct(1))
  have "spec_igate (view raw) = None"
  proof (rule ccontr)
    assume "spec_igate (view raw) \<noteq> None"
    then have n: "2 \<le> length (view raw)" and e: "eq_ignore_ascii_case (fst (last (view raw))) ''I''"
      by (auto simp: spec_igate_def split: if_splits)
    obtain xs y where xs: "view raw = xs @ [y]" using n by (cases "view raw" rule: rev_cases) auto
    obtain zs x where zs: "xs = zs @ [x]" using n xs by (cases xs rule: rev_cases) auto
    have "calls raw = map fst zs @ [fst x, fst y]"
      using xs zs by (simp add: map_fst_view [symmetric])
    with e xs no show False by auto
  qed
  with None show ?thesis by simp
next
  case (Some igate)
  then obtain cs i where c: "calls raw = cs @ [igate, i]" and i: "eq_ignore_ascii_case i ''I''"
    unfolding i_construct_iff by blast
  have len: "length (view raw) = length cs + 2"
    using arg_cong [OF map_fst_view, of length raw] c by simp
  have nth: "fst (view raw ! j) = calls raw ! j" if "j < length (view raw)" for j
    using that by (simp add: map_fst_view [symmetric])
  have "view raw \<noteq> []" using len by auto
  then have "fst (last (view raw)) = i" using nth [of "length cs + 1"] len c
    by (simp add: last_conv_nth nth_append)
  moreover have "fst (view raw ! (length (view raw) - 2)) = igate"
    using nth [of "length cs"] len c by simp
  ultimately show ?thesis using Some i len by (simp add: spec_igate_def)
qed

lemma call_of_hop_ok:
  assumes "path_valid raw" and "h \<in> set (hops raw)"
  shows "CHR '','' \<notin> set (h_call h)" and "field_ok (h_call h)"
proof -
  have "h_call h \<in> plain_call ` set (path_fields raw)"
  proof -
    have "h_call h \<in> set (calls raw)" using assms(2) by (simp add: calls_def)
    then show ?thesis unfolding calls_eq [OF path_valid_ok [OF assms(1)]] by auto
  qed
  then obtain f where f: "f \<in> set (path_fields raw)" "h_call h = plain_call f" by blast
  have "field_ok f" "CHR '','' \<notin> set f"
    using assms(1) f(1) path_fields_no_comma by (auto simp: path_valid_def list_all_iff)
  moreover have "plain_call f = f \<or> f = plain_call f @ ''*''"
  proof (cases "last f = CHR ''*'' \<and> f \<noteq> []")
    case True
    then have "f = butlast f @ ''*''" using append_butlast_last_id [of f] by simp
    then show ?thesis unfolding plain_call_def by (metis hop.select_convs(1) hop_of_simps(2))
  next
    case False
    then show ?thesis by (cases "f = []") (auto simp: plain_call_def hop_of_plain)
  qed
  then obtain t where "f = h_call h @ t" unfolding f(2) by (metis append_Nil2)
  ultimately show "CHR '','' \<notin> set (h_call h)" "field_ok (h_call h)"
    by (cases "h_call h"; simp add: field_ok_def)+
qed

lemma find_q_view:
  assumes "path_valid raw" and "find_q raw = Some f"
  obtains us h vs where "hops raw = us @ h # vs" "fq_offset f = h_offset h"
    "spec_find (view raw) = Some (length us, fq_code f)"
    "path_valid (truncated_to raw (fq_offset f))"
    "view (truncated_to raw (fq_offset f)) = take (length us) (view raw)"
    "list_ex (\<lambda>h. h_offset h > fq_offset f \<and> P (h_call h)) (hops raw) \<longleftrightarrow>
       (\<exists>e \<in> set (drop (Suc (length us)) (view raw)). P (fst e))"
proof -
  from assms(2) have "find_loop (hops raw) = Some f" by (simp add: find_q_def)
  then obtain us h vs where r: "hops raw = us @ h # vs" "fq_offset f = h_offset h"
    "spec_find (map (\<lambda>h. (h_call h, h_used h)) (hops raw)) = Some (length us, fq_code f)"
    by (rule find_loop_Some)
  note ok = path_valid_ok [OF assms(1)]
  have l: "\<forall>u \<in> set us. h_offset u < h_offset h" "\<forall>v \<in> set vs. h_offset h < h_offset v"
    using hops_offset_less [OF ok r(1)] by auto
  show thesis
  proof (rule that [OF r(1,2)])
    show "spec_find (view raw) = Some (length us, fq_code f)" using r(3) by (simp add: view_def)
    show "path_valid (truncated_to raw (fq_offset f))"
      unfolding r(2) by (rule path_valid_truncated_to [OF assms(1) r(1)])
    show "view (truncated_to raw (fq_offset f)) = take (length us) (view raw)"
      unfolding r(2) view_truncated_to(2) [OF ok r(1)] by (simp add: view_def r(1))
    show "list_ex (\<lambda>h. h_offset h > fq_offset f \<and> P (h_call h)) (hops raw) \<longleftrightarrow>
       (\<exists>e \<in> set (drop (Suc (length us)) (view raw)). P (fst e))"
      using l by (fastforce simp: view_def r list_ex_iff)
  qed
qed

lemma find_q_take:
  assumes "path_valid raw" and "find_q raw = Some f"
  obtains k where "spec_find (view raw) = Some (k, fq_code f)"
    "path_valid (truncated_to raw (fq_offset f))"
    "view (truncated_to raw (fq_offset f)) = take k (view raw)"
  by (rule find_q_view [OF assms, of "\<lambda>_. True"], rule that)

text \<open>Each of the code's writers produces what \<open>spec_tag\<close> says.\<close>

lemma append_q_view:
  assumes "path_valid path" and "CHR '','' \<notin> set call" and "field_ok call"
  shows "outcome_view (append_q path code call) = spec_tag (view path) (length (view path)) code call"
    and "path_valid (qo_path (append_q path code call))"
  using view_append_q [OF assms refl, of code]
  by (simp_all add: append_q_def outcome_view_def spec_tag_def)

lemma replace_at_view:
  assumes "path_valid (truncated_to path off)" and "CHR '','' \<notin> set call" and "field_ok call"
    and "view (truncated_to path off) = take k (view path)"
  shows "outcome_view (replace_at path off code call) = spec_tag (view path) k code call"
    and "path_valid (qo_path (replace_at path off code call))"
  using view_append_q [OF assms(1-3) refl, of code] assms(4)
  by (simp_all add: replace_at_def outcome_view_def spec_tag_def Let_def)

lemma find_q_None: "find_q raw = None \<longleftrightarrow> spec_find (view raw) = None"
  by (simp add: find_q_def find_loop_None view_def)

lemma replace_or_append_view:
  assumes "path_valid path" and "CHR '','' \<notin> set call" and "field_ok call"
  shows "outcome_view (replace_or_append path (find_q path) code call) =
      spec_tag (view path)
        (case spec_find (view path) of Some (k, c) \<Rightarrow> k | None \<Rightarrow> length (view path)) code call"
    and "path_valid (qo_path (replace_or_append path (find_q path) code call))"
proof -
  show "outcome_view (replace_or_append path (find_q path) code call) =
      spec_tag (view path)
        (case spec_find (view path) of Some (k, c) \<Rightarrow> k | None \<Rightarrow> length (view path)) code call"
  proof (cases "find_q path")
    case None
    then show ?thesis using append_q_view(1) [OF assms] find_q_None [of path]
      by (simp add: replace_or_append_def)
  next
    case (Some f)
    show ?thesis
      by (rule find_q_view [OF assms(1) Some, of "\<lambda>_. True"])
         (simp add: replace_or_append_def Some replace_at_view(1) [OF _ assms(2,3)])
  qed
  show "path_valid (qo_path (replace_or_append path (find_q path) code call))"
  proof (cases "find_q path")
    case None
    then show ?thesis using append_q_view(2) [OF assms] by (simp add: replace_or_append_def)
  next
    case (Some f)
    show ?thesis
      by (rule find_q_view [OF assms(1) Some, of "\<lambda>_. True"])
         (simp add: replace_or_append_def Some replace_at_view(2) [OF _ assms(2,3)])
  qed
qed

lemma rewrite_i_construct_view:
  assumes "path_valid path" and "i_construct path = Some igate"
  shows "outcome_view (rewrite_i_construct path code igate) =
      spec_tag (view path) (length (view path) - 2) code igate"
    and "path_valid (qo_path (rewrite_i_construct path code igate))"
proof -
  from assms(2) obtain cs i where c: "calls path = cs @ [igate, i]"
    unfolding i_construct_iff by blast
  then obtain us z y where h: "hops path = us @ z # [y]" and z: "h_call z = igate"
    unfolding calls_def by (auto simp: map_eq_append_conv map_eq_Cons_conv)
  note t = view_truncated_to(2) [OF path_valid_ok [OF assms(1)] h]
  have i: "CHR '','' \<notin> set igate" "field_ok igate"
    using call_of_hop_ok [OF assms(1), of z] h z by auto
  have r: "rewrite_i_construct path code igate = replace_at path (h_offset z) code igate"
    by (simp add: rewrite_i_construct_def h butlast_append)
  have v: "view (truncated_to path (h_offset z)) = take (length (view path) - 2) (view path)"
    unfolding t by (simp add: view_def h)
  note p = path_valid_truncated_to [OF assms(1) h]
  show "outcome_view (rewrite_i_construct path code igate) =
      spec_tag (view path) (length (view path) - 2) code igate"
    "path_valid (qo_path (rewrite_i_construct path code igate))"
    unfolding r using replace_at_view [OF p i v] by simp_all
qed

definition station_text :: "str \<Rightarrow> bool" where
  "station_text c \<longleftrightarrow> CHR '','' \<notin> set c \<and> field_ok c"

lemma station_textD: "station_text c \<Longrightarrow> CHR '','' \<notin> set c" "station_text c \<Longrightarrow> field_ok c"
  by (simp_all add: station_text_def)

lemma packet_call_station_text: "validate_for_packet c = Inr () \<Longrightarrow> station_text c"
  using validate_for_packet_chars [of c] validate_for_packet_ascii [of c] call_text_notin(3) [of c]
  by (cases c) (auto simp: station_text_def field_ok_ascii)

definition result_view ::
  "(qreject, qoutcome) result \<Rightarrow> (qreject, qcode \<times> (str \<times> bool) list \<times> bool) result" where
  "result_view r = and_then r (\<lambda>out. Inr (outcome_view out))"

definition reject_of :: "str \<Rightarrow> str \<Rightarrow> qreject option" where
  "reject_of path server_id =
     (case (case find_q path of
              None \<Rightarrow> None
            | Some found \<Rightarrow>
                if fq_code found = Internal then Some RejectInternal
                else if fq_code found = VerifiedClient \<and> \<not> has_tcpip path then Some QacWithoutTcpip
                else if list_ex (\<lambda>h. h_offset h > fq_offset found \<and>
                                   eq_ignore_ascii_case (h_call h) server_id) (hops path)
                then Some (Loop server_id)
                else None) of
        Some r \<Rightarrow> Some r
      | None \<Rightarrow> map_option DuplicateInPath (first_duplicate path))"

lemma reject_of_spec:
  assumes "path_valid path"
  shows "reject_of path server_id = spec_reject (view path) server_id"
proof (cases "find_q path")
  case None
  then show ?thesis
    using find_q_None [of path] by (simp add: reject_of_def spec_reject_def first_duplicate_spec)
next
  case (Some f)
  have t: "\<not> has_tcpip path \<longleftrightarrow>
      (\<forall>e \<in> set (view path). to_ascii_uppercase (fst e) \<notin> {''TCPIP'', ''TCPXX''})"
    unfolding has_tcpip_calls map_fst_view [symmetric] by auto
  show ?thesis
  proof (rule find_q_view [OF assms Some, of "\<lambda>c. eq_ignore_ascii_case c server_id"])
    fix us h vs
    assume f: "spec_find (view path) = Some (length us, fq_code f)"
      and l: "list_ex (\<lambda>h. fq_offset f < h_offset h \<and> eq_ignore_ascii_case (h_call h) server_id)
          (hops path) \<longleftrightarrow>
        (\<exists>e \<in> set (drop (Suc (length us)) (view path)). eq_ignore_ascii_case (fst e) server_id)"
    show ?thesis
      unfolding reject_of_def spec_reject_def Some f first_duplicate_spec option.case prod.case l t
      by (rule refl)
  qed
qed

text \<open>The cascade after the rejections, as a function of its own.\<close>

definition rewrite_of :: "packet \<Rightarrow> qcontext \<Rightarrow> qoutcome" where
  "rewrite_of packet ctx =
     (let path = p_path packet; existing = find_q path in
      if qc_via_udp ctx then replace_or_append path existing Udp (qc_server_id ctx)
      else if \<not> qc_verified ctx then replace_or_append path existing Unverified (qc_server_id ctx)
      else
      (case i_construct path of
         Some igate \<Rightarrow>
           rewrite_i_construct path
             (if eq_ignore_ascii_case igate (qc_login ctx) then VerifiedIgate else RemoteIgate) igate
       | None \<Rightarrow>
      (case existing of
         Some found \<Rightarrow>
           if eq_ignore_ascii_case (p_source packet) (qc_login ctx) then unchanged path (fq_code found)
           else if fq_code found \<in> {VerifiedIgate, RemoteIgate}
           then replace_at path (fq_offset found) GatedClientOnly (qc_login ctx)
           else if fq_code found \<in> {Server, VerifiedClient}
           then replace_at path (fq_offset found) NonGated (qc_login ctx)
           else unchanged path (fq_code found)
       | None \<Rightarrow>
           if eq_ignore_ascii_case (p_source packet) (qc_login ctx)
           then append_q path (if qc_send_only ctx then NonGated else VerifiedClient)
                  (qc_server_id ctx)
           else append_q path NonGated (qc_login ctx))))"

lemma apply_client_eq:
  "apply_client packet ctx =
     (case reject_of (p_path packet) (qc_server_id ctx) of
        Some r \<Rightarrow> Inl r
      | None \<Rightarrow> Inr (rewrite_of packet ctx))"
proof (cases "find_q (p_path packet)")
  case None
  then show ?thesis
    by (simp add: apply_client_def reject_of_def rewrite_of_def Let_def split: option.split)
next
  case (Some f)
  then show ?thesis
    by (simp add: apply_client_def reject_of_def rewrite_of_def Let_def split: option.split)
qed

lemma rewrite_of_view:
  assumes "path_valid (p_path packet)"
    and "station_text (qc_server_id ctx)" and "station_text (qc_login ctx)"
  shows "outcome_view (rewrite_of packet ctx) = spec_rewrite (view (p_path packet)) (p_source packet) ctx"
    and "path_valid (qo_path (rewrite_of packet ctx))"
proof -
  note srv = station_textD [OF assms(2)] and lgn = station_textD [OF assms(3)]
  note ro = replace_or_append_view [OF assms(1) srv]
  note ap = append_q_view [OF assms(1) srv] append_q_view [OF assms(1) lgn]
  note sr = spec_rewrite_def Let_def rewrite_of_def i_construct_spec
  have u: "outcome_view (unchanged (p_path packet) c) = (c, view (p_path packet), False)"
    "path_valid (qo_path (unchanged (p_path packet) c))" for c
    using assms(1) by (simp_all add: unchanged_def outcome_view_def)
  consider (edge) "qc_via_udp ctx \<or> \<not> qc_verified ctx"
    | (igate) i where "\<not> (qc_via_udp ctx \<or> \<not> qc_verified ctx)" "spec_igate (view (p_path packet)) = Some i"
    | (plain) "\<not> (qc_via_udp ctx \<or> \<not> qc_verified ctx)" "spec_igate (view (p_path packet)) = None"
    by (cases "spec_igate (view (p_path packet))") auto
  then have "outcome_view (rewrite_of packet ctx) =
        spec_rewrite (view (p_path packet)) (p_source packet) ctx \<and>
      path_valid (qo_path (rewrite_of packet ctx))"
  proof cases
    case edge
    then show ?thesis by (auto simp: sr ro)
  next
    case igate
    have "i_construct (p_path packet) = Some i" using igate(2) by (simp add: i_construct_spec)
    from rewrite_i_construct_view [OF assms(1) this] igate show ?thesis by (simp add: sr)
  next
    case plain
    show ?thesis
    proof (cases "find_q (p_path packet)")
      case None
      then have "spec_find (view (p_path packet)) = None" using find_q_None by blast
      with None plain ap show ?thesis by (simp add: sr)
    next
      case (Some f)
      obtain k where f: "spec_find (view (p_path packet)) = Some (k, fq_code f)"
        "path_valid (truncated_to (p_path packet) (fq_offset f))"
        "view (truncated_to (p_path packet) (fq_offset f)) = take k (view (p_path packet))"
        by (rule find_q_take [OF assms(1) Some])
      note rp = replace_at_view [OF f(2) lgn f(3)]
      show ?thesis using plain Some f(1) by (simp add: sr rp u)
    qed
  qed
  then show "outcome_view (rewrite_of packet ctx) =
        spec_rewrite (view (p_path packet)) (p_source packet) ctx"
    "path_valid (qo_path (rewrite_of packet ctx))" by blast+
qed

lemma apply_client_spec:
  assumes "path_valid (p_path packet)"
    and "station_text (qc_server_id ctx)" and "station_text (qc_login ctx)"
  shows "result_view (apply_client packet ctx) =
    spec_apply (view (p_path packet)) (p_source packet) ctx"
  unfolding apply_client_eq reject_of_spec [OF assms(1)] result_view_def spec_apply_def
  by (simp add: rewrite_of_view(1) [OF assms] split: option.split)

subsection \<open>What the written path says\<close>

lemma spec_find_SomeD:
  "spec_find es = Some (k, c) \<Longrightarrow>
     k < length es \<and> spec_find (take k es) = None \<and> fst (es ! k) = qcode_as_str c"
proof (induction es arbitrary: k)
  case Nil
  then show ?case by simp
next
  case (Cons e es)
  then show ?case
    by (cases "qcode_parse (fst e)") (auto simp: qcode_parse_Some)
qed

lemma spec_find_append_None:
  "spec_find es = None \<Longrightarrow>
     spec_find (es @ (qcode_as_str c, u) # fs) = Some (length es, c)"
  by (induction es) (auto split: option.splits)

lemma spec_find_take_at:
  "spec_find (take (case spec_find es of Some (k, c) \<Rightarrow> k | None \<Rightarrow> length es) es) = None"
  by (cases "spec_find es") (auto dest: spec_find_SomeD)

lemma spec_find_take_None: "spec_find es = None \<Longrightarrow> spec_find (take k es) = None"
proof (induction es arbitrary: k)
  case Nil
  then show ?case by simp
next
  case (Cons e es)
  then show ?case by (cases k) (auto split: option.splits)
qed

text \<open>The construct \<open>spec_tag\<close> wrote is the first of the new view, with its station after it.\<close>

lemma spec_tag_find:
  assumes "spec_tag es k code call = (c, es', rw)" and "spec_find (take k es) = None"
  shows "c = code" and "spec_find es' = Some (length (take k es), code)"
    and "drop (Suc (length (take k es))) es' = fields_view [call]"
  using assms spec_find_append_None by (auto simp: spec_tag_def)

lemma spec_rewrite_find:
  assumes "spec_rewrite es source ctx = (c, es', rw)"
    and "spec_find es = None \<or> spec_igate es = None \<or> qc_via_udp ctx \<or> \<not> qc_verified ctx"
  shows "\<exists>k. spec_find es' = Some (k, c) \<and>
    (rw \<longrightarrow> (\<exists>call \<in> {qc_server_id ctx, qc_login ctx} \<union> set_option (spec_igate es).
              drop (Suc k) es' = fields_view [call]))"
    (is "?P c es' rw")
proof -
  let ?at = "case spec_find es of Some (k, c) \<Rightarrow> k | None \<Rightarrow> length es"
  have tag: "?P c es' rw"
    if "spec_tag es k code call = (c, es', rw)" "spec_find (take k es) = None"
      "call \<in> {qc_server_id ctx, qc_login ctx} \<union> set_option (spec_igate es)" for k code call
    using spec_tag_find [OF that(1,2)] that(3) by blast
  have keep: "?P c es' rw" if "spec_find es = Some (k, c')" "(c', es, False) = (c, es', rw)" for k c'
    using that by auto
  show ?thesis
  proof (cases "qc_via_udp ctx \<or> \<not> qc_verified ctx")
    case True
    with assms(1) have "spec_tag es ?at (if qc_via_udp ctx then Udp else Unverified)
        (qc_server_id ctx) = (c, es', rw)"
      by (auto simp: spec_rewrite_def Let_def)
    from tag [OF this spec_find_take_at] show ?thesis by simp
  next
    case edge: False
    show ?thesis
    proof (cases "spec_find es")
      case None
      note t = spec_find_take_None [OF None]
      from None edge assms(1) obtain k code call where
        "spec_tag es k code call = (c, es', rw)"
        "call \<in> {qc_server_id ctx, qc_login ctx} \<union> set_option (spec_igate es)"
        by (auto simp: spec_rewrite_def split: if_splits option.splits)
      from tag [OF this(1) t this(2)] show ?thesis .
    next
      case (Some kc)
      obtain k d where kc: "kc = (k, d)" by (cases kc)
      from Some assms(2) edge have ig: "spec_igate es = None" by auto
      have t: "spec_find (take k es) = None" using Some kc spec_find_SomeD by blast
      from Some kc ig edge assms(1) consider
          code where "spec_tag es k code (qc_login ctx) = (c, es', rw)"
        | "(d, es, False) = (c, es', rw)"
        by (auto simp: spec_rewrite_def split: if_splits)
      then show ?thesis
      proof cases
        case 1
        from tag [OF 1 t] show ?thesis by simp
      next
        case 2
        from keep [OF _ 2] Some kc show ?thesis by blast
      qed
    qed
  qed
qed

lemma spec_rewrite_not_internal:
  assumes "spec_reject es server_id = None" and "spec_rewrite es source ctx = (c, es', rw)"
  shows "c \<noteq> Internal"
  using assms
  by (auto simp: spec_reject_def spec_rewrite_def spec_tag_def Let_def
      split: if_splits option.splits prod.splits)

lemma packet_path_valid:
  assumes "packet_parse raw = Inr p" and "valid_utf8 raw"
  shows "path_valid (p_path p)"
proof -
  from assms(1) obtain s d rest pl where
    r: "raw = s @ CHR ''>'' # d @ rest @ CHR '':'' # pl" "path_part rest (p_path p)"
    and d: "validate_for_packet d = Inr ()"
    by (rule packet_parse_InrE)
  have ascii: "is_ascii CHR ''>''" "is_ascii CHR '':''" "is_ascii CHR '',''"
    by (simp_all add: is_ascii_def)
  have "valid_utf8 (d @ rest @ CHR '':'' # pl)"
    using valid_utf8_split_ascii [OF _ ascii(1)] assms(2) r(1) by blast
  then have v: "valid_utf8 (d @ rest)"
    using valid_utf8_split_ascii [OF _ ascii(2), of "d @ rest" pl] by simp
  show ?thesis
  proof (cases rest)
    case Nil
    then show ?thesis using r(2) by (simp add: path_part_def path_valid_def field_ok_def)
  next
    case (Cons c t)
    then have c: "c = CHR '',''" "p_path p = t \<or> p_path p = []"
      using r(2) by (auto simp: path_part_def split: if_splits)
    then have "valid_utf8 t" using v valid_utf8_split_ascii [OF _ ascii(3)] Cons by blast
    with c show ?thesis
      using valid_utf8_path_valid [of t] by (auto simp: path_valid_def field_ok_def)
  qed
qed

lemma spec_find_call:
  assumes "find_q raw = Some f" and "spec_find (view raw) = Some (k, c)"
  shows "fq_code f = c" and "fq_call f = map_option fst (get (view raw) (Suc k))"
proof -
  from assms(1) have "find_loop (hops raw) = Some f" by (simp add: find_q_def)
  then obtain us h vs where r: "hops raw = us @ h # vs"
    "spec_find (map (\<lambda>h. (h_call h, h_used h)) (hops raw)) = Some (length us, fq_code f)"
    "fq_call f = map_option h_call (get vs 0)" by (rule find_loop_Some)
  from r(2) assms(2) have k: "k = length us" "fq_code f = c" by (simp_all add: view_def)
  then show "fq_code f = c" by simp
  show "fq_call f = map_option fst (get (view raw) (Suc k))"
    unfolding r(3) by (cases vs) (auto simp: view_def r(1) k get_def nth_append)
qed

lemma apply_client_InrD:
  assumes "path_valid (p_path p)"
    and "station_text (qc_server_id ctx)" and "station_text (qc_login ctx)"
    and "apply_client p ctx = Inr out"
  shows "spec_reject (view (p_path p)) (qc_server_id ctx) = None"
    and "spec_rewrite (view (p_path p)) (p_source p) ctx = outcome_view out"
    and "path_valid (qo_path out)"
proof -
  from assms(4) have r: "reject_of (p_path p) (qc_server_id ctx) = None" "out = rewrite_of p ctx"
    by (auto simp: apply_client_eq split: option.splits)
  then show "spec_reject (view (p_path p)) (qc_server_id ctx) = None"
    using reject_of_spec [OF assms(1)] by simp
  show "spec_rewrite (view (p_path p)) (p_source p) ctx = outcome_view out"
    "path_valid (qo_path out)"
    using rewrite_of_view [OF assms(1-3)] r(2) by simp_all
qed

subsection \<open>Properties\<close>

definition valid_station :: "str \<Rightarrow> bool" where
  "valid_station c \<longleftrightarrow> validate_for_packet c = Inr ()"

lemma valid_station_text: "valid_station c \<Longrightarrow> station_text c"
  by (simp add: valid_station_def packet_call_station_text)

lemma valid_station_view: "valid_station c \<Longrightarrow> fields_view [c] = [(c, False)]"
proof -
  assume v: "valid_station c"
  then have "c \<noteq> []" "CHR ''*'' \<notin> set c"
    using validate_for_packet_chars [of c] validate_for_packet_notin [of c "()" "CHR ''*''"]
    by (auto simp: valid_station_def is_call_char_iff_ord)
  then have "last c \<noteq> CHR ''*''" using last_in_set [of c] by metis
  then show ?thesis using \<open>c \<noteq> []\<close> by (simp add: fields_view_def field_view_plain)
qed

subsection \<open>The rewritten path is text a packet may carry\<close>

lemma set_join_field: "w \<in> set ws \<Longrightarrow> set w \<subseteq> set (join sep ws)"
  by (induction sep ws rule: join.induct) auto

lemma call_of_hop_subset:
  assumes "path_valid raw" and "h \<in> set (hops raw)"
  shows "set (h_call h) \<subseteq> set raw"
proof -
  have "h_call h \<in> set (calls raw)" using assms(2) by (simp add: calls_def)
  then obtain f where f: "f \<in> set (path_fields raw)" "h_call h = plain_call f"
    unfolding calls_eq [OF path_valid_ok [OF assms(1)]] by auto
  have "set f \<subseteq> set raw"
    using set_join_field [OF f(1), of "'',''"] unfolding join_fields .
  moreover have "set (plain_call f) \<subseteq> set f"
    by (auto simp: plain_call_def hop_of_def strip_suffix_char_Some split: option.splits)
  ultimately show ?thesis by (simp add: f(2))
qed

lemma i_construct_subset:
  assumes "path_valid path" and "i_construct path = Some igate"
  shows "set igate \<subseteq> set path"
proof -
  obtain cs i where "calls path = cs @ [igate, i]"
    using assms(2) unfolding i_construct_iff by blast
  then have "igate \<in> set (calls path)" by simp
  then obtain h where "h \<in> set (hops path)" and "h_call h = igate" by (auto simp: calls_def)
  then show ?thesis using call_of_hop_subset [OF assms(1)] by blast
qed

definition tag_chars :: "char set" where
  "tag_chars = set ''q,ACXUoOSrRZI''"

lemma qcode_chars: "set (qcode_as_str c) \<subseteq> tag_chars"
  by (cases c) (auto simp: tag_chars_def)

lemma truncated_to_subset: "set (truncated_to raw i) \<subseteq> set raw"
  by (auto simp: truncated_to_def get_to_def dest: in_set_takeD)

lemma tag_chars_comma: "CHR '','' \<in> tag_chars"
  by (simp add: tag_chars_def)

lemma rewrite_chars:
  "set (qo_path (unchanged path code)) \<subseteq> set path"
  "set (qo_path (append_q path code call)) \<subseteq> set path \<union> set call \<union> tag_chars"
  "set (qo_path (replace_at path i code call)) \<subseteq> set path \<union> set call \<union> tag_chars"
  "set (qo_path (replace_or_append path e code call)) \<subseteq> set path \<union> set call \<union> tag_chars"
  "set (qo_path (rewrite_i_construct path code call)) \<subseteq> set path \<union> set call \<union> tag_chars"
proof -
  show "set (qo_path (unchanged path code)) \<subseteq> set path" by (simp add: unchanged_def)
  show a: "set (qo_path (append_q path code call)) \<subseteq> set path \<union> set call \<union> tag_chars"
    using qcode_chars [of code] tag_chars_comma by (auto simp: append_q_def)
  show r: "set (qo_path (replace_at path i code call)) \<subseteq> set path \<union> set call \<union> tag_chars" for i
    using qcode_chars [of code] tag_chars_comma truncated_to_subset [of path i]
    by (auto simp: replace_at_def Let_def)
  show "set (qo_path (replace_or_append path e code call)) \<subseteq> set path \<union> set call \<union> tag_chars"
    using a r by (simp add: replace_or_append_def split: option.split)
  show "set (qo_path (rewrite_i_construct path code call)) \<subseteq> set path \<union> set call \<union> tag_chars"
    using r by (simp add: rewrite_i_construct_def Let_def)
qed

lemma rewrite_of_chars:
  assumes "path_valid (p_path p)"
  shows "set (qo_path (rewrite_of p ctx)) \<subseteq>
    set (p_path p) \<union> set (qc_server_id ctx) \<union> set (qc_login ctx) \<union> tag_chars"
proof -
  note rc = rewrite_chars [THEN subsetD]
  show ?thesis
  proof (cases "i_construct (p_path p)")
    case (Some igate)
    then show ?thesis
      using i_construct_subset [OF assms Some] by (auto simp: rewrite_of_def Let_def dest!: rc)
  next
    case None
    then show ?thesis
      by (auto simp: rewrite_of_def Let_def dest!: rc split: if_splits option.splits)
  qed
qed

lemma valid_station_chars:
  "valid_station c \<Longrightarrow> b \<in> set c \<Longrightarrow> b \<noteq> CHR '':'' \<and> \<not> is_control b"
  using validate_for_packet_chars [of c "()"]
  by (auto simp: valid_station_def list_all_iff is_control_def is_call_char_iff_ord)

lemma path_valid_field_ok: "path_valid s \<Longrightarrow> field_ok s"
  by (cases s) (auto simp: path_valid_def path_fields_def field_ok_def is_cont_def split: list.splits if_splits)

lemma apply_client_path_text:
  assumes "packet_parse line = Inr p" and "valid_utf8 line"
    and "valid_station (qc_server_id ctx)" and "valid_station (qc_login ctx)"
    and "apply_client p ctx = Inr out"
  shows "path_text_ok (qo_path out)"
proof -
  note st = valid_station_text [OF assms(3)] valid_station_text [OF assms(4)]
  note pv = packet_path_valid [OF assms(1,2)]
  have "path_text_ok (p_path p)"
    using assms(1) packet_codec.parse_wf packet_path_text_ok by blast
  then have pc: "b \<in> set (p_path p) \<Longrightarrow> b \<noteq> CHR '':'' \<and> \<not> is_control b" for b
    by (auto simp: path_text_ok_def list_all_iff)
  have tc: "b \<in> tag_chars \<Longrightarrow> b \<noteq> CHR '':'' \<and> \<not> is_control b" for b
    by (auto simp: tag_chars_def is_control_def)
  have "out = rewrite_of p ctx"
    using assms(5) by (simp add: apply_client_eq split: option.splits)
  then have "set (qo_path out) \<subseteq>
      set (p_path p) \<union> set (qc_server_id ctx) \<union> set (qc_login ctx) \<union> tag_chars"
    using rewrite_of_chars [OF pv] by simp
  then have "b \<noteq> CHR '':'' \<and> \<not> is_control b" if "b \<in> set (qo_path out)" for b
    using that pc tc valid_station_chars [OF assms(3)] valid_station_chars [OF assms(4)] by blast
  moreover have "field_ok (qo_path out)"
    using apply_client_InrD(3) [OF pv st assms(5)] by (rule path_valid_field_ok)
  ultimately show ?thesis by (auto simp: path_text_ok_def list_all_iff)
qed

definition sample_packet :: packet where
  "sample_packet =
     \<lparr>p_raw = ''N0CALL>APRS,TCPIP*:>status'', p_source = ''N0CALL'', p_destination = ''APRS'',
      p_path = ''TCPIP*'', p_payload = ''>status'', p_colon = 18\<rparr>"

definition sample_ctx :: qcontext where
  "sample_ctx = \<lparr>qc_server_id = ''T2TEST'', qc_login = ''N0CALL'', qc_verified = True,
     qc_via_udp = False, qc_send_only = False\<rparr>"

lemma sample_packet_parsed: "packet_parse ''N0CALL>APRS,TCPIP*:>status'' = Inr sample_packet"
  by code_simp

lemma sample_valid:
  "valid_utf8 ''N0CALL>APRS,TCPIP*:>status''"
  "valid_station ''T2TEST''" "valid_station ''N0CALL''"
  by code_simp+

text \<open>C1: for a packet the parser accepted and validated server and login names, the byte-offset
  rewriting of \<open>apply_client\<close> is exactly the abstract rule cascade on the list of (callsign, used)
  pairs of the path: the same rejections in the same order, the same construct code, the same new
  path and the same "rewritten" flag.\<close>

theorem apply_client_refines:
  assumes "packet_parse line = Inr p" and "valid_utf8 line"
    and "valid_station (qc_server_id ctx)" and "valid_station (qc_login ctx)"
  shows "result_view (apply_client p ctx) = spec_apply (view (p_path p)) (p_source p) ctx"
  using apply_client_spec [OF packet_path_valid [OF assms(1,2)]] assms(3,4)
  by (simp add: valid_station_text)

theorem apply_client_refines_witness:
  "result_view (apply_client sample_packet sample_ctx) =
     Inr (VerifiedClient, [(''TCPIP'', True), (''qAC'', False), (''T2TEST'', False)], True)"
proof -
  have "result_view (apply_client sample_packet sample_ctx) =
      spec_apply (view (p_path sample_packet)) (p_source sample_packet) sample_ctx"
    by (rule apply_client_refines [OF sample_packet_parsed]; simp add: sample_valid sample_ctx_def)
  also have "\<dots> =
      Inr (VerifiedClient, [(''TCPIP'', True), (''qAC'', False), (''T2TEST'', False)], True)"
    by code_simp
  finally show ?thesis .
qed

lemma written_construct:
  assumes "packet_parse line = Inr p" and "valid_utf8 line"
    and "valid_station (qc_server_id ctx)" and "valid_station (qc_login ctx)"
    and "apply_client p ctx = Inr out"
    and "find_q (p_path p) = None \<or> i_construct (p_path p) = None \<or>
         qc_via_udp ctx \<or> \<not> qc_verified ctx"
  shows "\<exists>f. find_q (qo_path out) = Some f \<and> fq_code f = qo_code out \<and> qo_code out \<noteq> Internal \<and>
    (qo_rewritten out \<and> i_construct (p_path p) = None \<longrightarrow>
       fq_call f \<in> {Some (qc_server_id ctx), Some (qc_login ctx)})"
proof -
  note st = valid_station_text [OF assms(3)] valid_station_text [OF assms(4)]
  note d = apply_client_InrD [OF packet_path_valid [OF assms(1,2)] st assms(5)]
  have rw: "spec_rewrite (view (p_path p)) (p_source p) ctx =
      (qo_code out, view (qo_path out), qo_rewritten out)"
    using d(2) by (simp add: outcome_view_def)
  have "spec_find (view (p_path p)) = None \<or> spec_igate (view (p_path p)) = None \<or>
      qc_via_udp ctx \<or> \<not> qc_verified ctx"
    using assms(6) find_q_None [of "p_path p"] by (simp add: i_construct_spec)
  from spec_rewrite_find [OF rw this] obtain k where
    k: "spec_find (view (qo_path out)) = Some (k, qo_code out)"
    and c: "qo_rewritten out \<Longrightarrow>
      \<exists>call \<in> {qc_server_id ctx, qc_login ctx} \<union> set_option (spec_igate (view (p_path p))).
        drop (Suc k) (view (qo_path out)) = fields_view [call]" by blast
  then obtain f where f: "find_q (qo_path out) = Some f" using find_q_None [of "qo_path out"] by auto
  have "fq_call f \<in> {Some (qc_server_id ctx), Some (qc_login ctx)}"
    if r: "qo_rewritten out" "i_construct (p_path p) = None"
  proof -
    from c [OF r(1)] r(2) obtain call where call: "call \<in> {qc_server_id ctx, qc_login ctx}"
      "drop (Suc k) (view (qo_path out)) = fields_view [call]" by (auto simp: i_construct_spec)
    then have "drop (Suc k) (view (qo_path out)) = [(call, False)]"
      using valid_station_view assms(3,4) by auto
    then have "get (view (qo_path out)) (Suc k) = Some (call, False)"
      by (rule get_drop)
    then have "fq_call f = Some call" by (simp add: spec_find_call(2) [OF f k])
    then show ?thesis using call(1) by blast
  qed
  then show ?thesis
    using f spec_find_call(1) [OF f k] spec_rewrite_not_internal [OF d(1) rw]
    by (intro exI [of _ f] conjI impI; (elim conjE)?; assumption?)
qed


definition relayed_ctx :: qcontext where
  "relayed_ctx = sample_ctx\<lparr>qc_login := ''OTHER''\<rparr>"


lemma own_path_rejected:
  assumes "packet_parse line = Inr p" and "valid_utf8 line"
    and "valid_station (qc_server_id ctx)" and "valid_station (qc_login ctx)"
    and "apply_client p ctx = Inr out"
    and "qc_via_udp ctx \<or> \<not> qc_verified ctx \<or>
         find_q (p_path p) = None \<and> i_construct (p_path p) = None \<and>
         eq_ignore_ascii_case (p_source p) (qc_login ctx)"
    and "p_path p' = qo_path out"
    and "eq_ignore_ascii_case (qc_server_id ctx') (qc_server_id ctx)"
  shows "\<exists>r. apply_client p' ctx' = Inl r \<and>
    r \<in> {RejectInternal, QacWithoutTcpip, Loop (qc_server_id ctx')}"
proof -
  note st = valid_station_text [OF assms(3)] valid_station_text [OF assms(4)]
  note d = apply_client_InrD [OF packet_path_valid [OF assms(1,2)] st assms(5)]
  let ?es = "view (p_path p)"
  let ?at = "case spec_find ?es of Some (k, c) \<Rightarrow> k | None \<Rightarrow> length ?es"
  have "\<exists>code. spec_tag ?es ?at code (qc_server_id ctx) =
      (qo_code out, view (qo_path out), qo_rewritten out)"
    using d(2) assms(6) find_q_None [of "p_path p"]
    by (auto simp: spec_rewrite_def outcome_view_def Let_def i_construct_spec split: if_splits)
  then obtain code where t: "spec_tag ?es ?at code (qc_server_id ctx) =
      (qo_code out, view (qo_path out), qo_rewritten out)" by blast
  note f = spec_tag_find [OF t spec_find_take_at]
  have "\<exists>e \<in> set (drop (Suc (length (take ?at ?es))) (view (qo_path out))).
      eq_ignore_ascii_case (fst e) (qc_server_id ctx')"
    unfolding f(3) valid_station_view [OF assms(3)] using assms(8) by (simp add: eq_ignore_sym)
  then have "\<exists>r. spec_reject (view (qo_path out)) (qc_server_id ctx') = Some r \<and>
      r \<in> {RejectInternal, QacWithoutTcpip, Loop (qc_server_id ctx')}"
    unfolding spec_reject_def f(2) by simp
  then show ?thesis
    unfolding apply_client_eq assms(7) reject_of_spec [OF d(3)] by auto
qed

text \<open>C32: a path this server has tagged is refused when it comes back. Whatever the connection it
  returns on and however the server's name is spelled in case, once the algorithm has written this
  server's name behind the construct, a packet carrying the resulting path is rejected.\<close>

theorem own_server_loop_rejected:
  assumes "packet_parse line = Inr p" and "valid_utf8 line"
    and "valid_station (qc_server_id ctx)" and "valid_station (qc_login ctx)"
    and "apply_client p ctx = Inr out"
    and "qc_via_udp ctx \<or> \<not> qc_verified ctx \<or>
         find_q (p_path p) = None \<and> i_construct (p_path p) = None \<and>
         eq_ignore_ascii_case (p_source p) (qc_login ctx)"
    and "p_path p' = qo_path out"
    and "eq_ignore_ascii_case (qc_server_id ctx') (qc_server_id ctx)"
  shows "\<exists>r. apply_client p' ctx' = Inl r \<and>
    r \<in> {RejectInternal, QacWithoutTcpip, Loop (qc_server_id ctx')}"
  by (rule own_path_rejected [OF assms])

theorem own_server_loop_rejected_witness:
  "\<exists>r. apply_client (sample_packet\<lparr>p_path := ''TCPIP*,qAC,T2TEST''\<rparr>)
         (relayed_ctx\<lparr>qc_server_id := ''t2test''\<rparr>) = Inl r"
proof -
  let ?out = "\<lparr>qo_code = VerifiedClient, qo_path = ''TCPIP*,qAC,T2TEST'', qo_rewritten = True\<rparr>"
  have o: "apply_client sample_packet sample_ctx = Inr ?out" by code_simp
  have n: "find_q (p_path sample_packet) = None" "i_construct (p_path sample_packet) = None"
    "eq_ignore_ascii_case (p_source sample_packet) (qc_login sample_ctx)"
    "valid_station (qc_server_id sample_ctx)" "valid_station (qc_login sample_ctx)"
    "eq_ignore_ascii_case (qc_server_id (relayed_ctx\<lparr>qc_server_id := ''t2test''\<rparr>))
       (qc_server_id sample_ctx)"
    by code_simp+
  show ?thesis
    using own_server_loop_rejected [OF sample_packet_parsed sample_valid(1) n(4,5) o _ _ n(6),
        of "sample_packet\<lparr>p_path := ''TCPIP*,qAC,T2TEST''\<rparr>"] n(1-3)
    by auto
qed

definition both_line :: str where
  "both_line = ''N0CALL>APRS,TCPIP*,qAO,FOO,N0CALL,I:>status''"

definition both_packet :: packet where
  "both_packet =
     \<lparr>p_raw = both_line, p_source = ''N0CALL'', p_destination = ''APRS'',
      p_path = ''TCPIP*,qAO,FOO,N0CALL,I'', p_payload = ''>status'', p_colon = 35\<rparr>"

lemma both_facts:
  "packet_parse both_line = Inr both_packet"
  "reject_of (p_path both_packet) (qc_server_id sample_ctx) = None"
  "rewrite_of both_packet sample_ctx =
     \<lparr>qo_code = VerifiedIgate, qo_path = ''TCPIP*,qAO,FOO,qAR,N0CALL'', qo_rewritten = True\<rparr>"
  "find_q ''TCPIP*,qAO,FOO,qAR,N0CALL'' =
     Some \<lparr>fq_code = NonGated, fq_offset = 7, fq_call = Some ''FOO''\<rparr>"
  subgoal by code_simp
  subgoal by code_simp
  subgoal by code_simp
  subgoal by code_simp
  done

text \<open>The two rules that meet on a path with both a construct and a trailing \<open>,I\<close> pair leave
  two constructs behind: the reported code is \<open>qAR\<close>, while the path read again yields the older
  \<open>qAO\<close> with \<open>FOO\<close> behind it. The exclusion in the property above cannot be dropped.\<close>

theorem i_pair_leaves_two_constructs:
  "packet_parse both_line = Inr both_packet \<and>
   apply_client both_packet sample_ctx =
     Inr \<lparr>qo_code = VerifiedIgate, qo_path = ''TCPIP*,qAO,FOO,qAR,N0CALL'', qo_rewritten = True\<rparr> \<and>
   find_q ''TCPIP*,qAO,FOO,qAR,N0CALL'' =
     Some \<lparr>fq_code = NonGated, fq_offset = 7, fq_call = Some ''FOO''\<rparr>"
  by (simp add: apply_client_eq both_facts)

end
