(* ===== verification/Dupecheck.thy ===== *)
theory Dupecheck
  imports Packet "HOL-Library.AList"
begin

section \<open>Duplicate suppression (\<open>aprsr-core/src/dupecheck.rs\<close>)\<close>

text \<open>
  The rolling detector: a hash map from digests to the second they were first seen and a ring of
  \<open>window + 1\<close> buckets that lists, for each second of the window, the digests inserted in it. The
  hash function is a parameter (the code seeds it at random). \<open>dupe_inv\<close> says how map and ring
  agree; \<open>check_digest_spec\<close> is the refinement to a detector that remembers every packet it ever let
  through and forgets nothing. Times are the code's \<open>u64\<close> seconds; the sums \<open>now + step\<close> and
  \<open>window + 1\<close> stay far below \<open>2 ^ 64\<close> for any clock, so they are natural numbers here.
\<close>

definition DEFAULT_WINDOW_SECS :: nat where "DEFAULT_WINDOW_SECS = 30"

record dupecheck =
  dc_window :: nat
  dc_seen :: "(nat \<times> nat) list"
  dc_buckets :: "nat list list"
  dc_now :: nat
  dc_checked :: nat
  dc_duplicates :: nat

definition with_window :: "nat \<Rightarrow> dupecheck" where
  "with_window window_secs =
     (let window = max window_secs 1 in
      \<lparr>dc_window = window, dc_seen = [], dc_buckets = replicate (window + 1) [], dc_now = 0,
       dc_checked = 0, dc_duplicates = 0\<rparr>)"

definition dupecheck_new :: dupecheck where
  "dupecheck_new = with_window DEFAULT_WINDOW_SECS"

definition window_secs :: "dupecheck \<Rightarrow> nat" where "window_secs s = dc_window s"
definition checked :: "dupecheck \<Rightarrow> nat" where "checked s = dc_checked s"
definition duplicates :: "dupecheck \<Rightarrow> nat" where "duplicates s = dc_duplicates s"
definition tracked :: "dupecheck \<Rightarrow> nat" where "tracked s = length (dc_seen s)"

definition digest :: "(str list \<Rightarrow> nat) \<Rightarrow> packet \<Rightarrow> nat" where
  "digest hash packet = hash [p_source packet, p_destination packet, trim_end (p_payload packet)]"

definition slot :: "dupecheck \<Rightarrow> nat \<Rightarrow> nat" where
  "slot s second = second mod length (dc_buckets s)"

definition drain_slot :: "dupecheck \<Rightarrow> nat \<Rightarrow> dupecheck" where
  "drain_slot s sl =
     (case get (dc_buckets s) sl of
        None \<Rightarrow> s
      | Some bucket \<Rightarrow>
          s\<lparr>dc_buckets := (dc_buckets s)[sl := []],
            dc_seen := fold AList.delete bucket (dc_seen s)\<rparr>)"

definition advance_to :: "dupecheck \<Rightarrow> nat \<Rightarrow> dupecheck" where
  "advance_to s now =
     (if now \<le> dc_now s then s
      else
        (let elapsed = now - dc_now s; bucket_count = length (dc_buckets s) in
         if elapsed \<ge> bucket_count
         then s\<lparr>dc_buckets := map (\<lambda>_. []) (dc_buckets s), dc_seen := [], dc_now := now\<rparr>
         else (fold (\<lambda>step s. drain_slot s (slot s (dc_now s + step))) [1..<elapsed + 1] s)
                \<lparr>dc_now := now\<rparr>))"

definition check_digest :: "dupecheck \<Rightarrow> nat \<Rightarrow> nat \<Rightarrow> bool \<times> dupecheck" where
  "check_digest s d now =
     (let s = advance_to s now; s = s\<lparr>dc_checked := dc_checked s + 1\<rparr> in
      if map_of (dc_seen s) d \<noteq> None then (True, s\<lparr>dc_duplicates := dc_duplicates s + 1\<rparr>)
      else
        (let s = s\<lparr>dc_seen := AList.update d (dc_now s) (dc_seen s)\<rparr>;
             sl = slot s (dc_now s)
         in (False,
             (case get (dc_buckets s) sl of
                Some bucket \<Rightarrow> s\<lparr>dc_buckets := (dc_buckets s)[sl := bucket @ [d]]\<rparr>
              | None \<Rightarrow> s))))"

definition check_packet ::
  "(str list \<Rightarrow> nat) \<Rightarrow> dupecheck \<Rightarrow> packet \<Rightarrow> nat \<Rightarrow> bool \<times> dupecheck" where
  "check_packet hash s packet now = check_digest s (digest hash packet) now"

subsection \<open>The invariant\<close>

definition first_seen :: "dupecheck \<Rightarrow> nat \<Rightarrow> nat option" where
  "first_seen s = map_of (dc_seen s)"

definition dupe_inv :: "dupecheck \<Rightarrow> bool" where
  "dupe_inv s \<longleftrightarrow>
     1 \<le> dc_window s \<and> length (dc_buckets s) = dc_window s + 1 \<and>
     distinct (map fst (dc_seen s)) \<and>
     (\<forall>d t. first_seen s d = Some t \<longrightarrow> t \<le> dc_now s \<and> dc_now s - t \<le> dc_window s) \<and>
     (\<forall>i < length (dc_buckets s).
        set (dc_buckets s ! i) = {d. \<exists>t. first_seen s d = Some t \<and> t mod length (dc_buckets s) = i})"

lemma dupe_invD:
  assumes "dupe_inv s"
  shows "1 \<le> dc_window s" "length (dc_buckets s) = dc_window s + 1" "distinct (map fst (dc_seen s))"
    "first_seen s d = Some t \<Longrightarrow> t \<le> dc_now s \<and> dc_now s - t \<le> dc_window s"
    "i < length (dc_buckets s) \<Longrightarrow>
       set (dc_buckets s ! i) = {d. \<exists>t. first_seen s d = Some t \<and> t mod length (dc_buckets s) = i}"
  using assms unfolding dupe_inv_def by auto

lemma with_window_inv: "dupe_inv (with_window w)"
  by (auto simp: dupe_inv_def with_window_def first_seen_def Let_def simp del: replicate_Suc)

lemma map_of_fold_delete:
  "map_of (fold AList.delete ks xs) = (\<lambda>d. if d \<in> set ks then None else map_of xs d)"
  by (induction ks arbitrary: xs) (auto simp: fun_eq_iff delete_conv')

lemma distinct_fold_delete:
  "distinct (map fst xs) \<Longrightarrow> distinct (map fst (fold AList.delete ks xs))"
  by (induction ks arbitrary: xs) (auto intro: distinct_delete)

text \<open>One drained slot: the ring and the map lose the same digests.\<close>

definition ring_ok :: "dupecheck \<Rightarrow> bool" where
  "ring_ok s \<longleftrightarrow>
     distinct (map fst (dc_seen s)) \<and>
     (\<forall>i < length (dc_buckets s).
        set (dc_buckets s ! i) = {d. \<exists>t. first_seen s d = Some t \<and> t mod length (dc_buckets s) = i})"

lemma drain_slot_ok:
  assumes "ring_ok s" and "sl < length (dc_buckets s)"
  shows "ring_ok (drain_slot s sl)"
    and "first_seen (drain_slot s sl) d = Some t \<longleftrightarrow>
           first_seen s d = Some t \<and> t mod length (dc_buckets s) \<noteq> sl"
    and "length (dc_buckets (drain_slot s sl)) = length (dc_buckets s)"
    and "dc_now (drain_slot s sl) = dc_now s" and "dc_window (drain_slot s sl) = dc_window s"
    and "dc_checked (drain_slot s sl) = dc_checked s"
    and "dc_duplicates (drain_slot s sl) = dc_duplicates s"
proof -
  have g: "get (dc_buckets s) sl = Some (dc_buckets s ! sl)" using assms(2) by (simp add: get_def)
  have b: "set (dc_buckets s ! i) = {d. \<exists>t. first_seen s d = Some t \<and> t mod length (dc_buckets s) = i}"
    if "i < length (dc_buckets s)" for i using assms(1) that by (simp add: ring_ok_def)
  have f: "first_seen (drain_slot s sl) d = Some t \<longleftrightarrow>
      first_seen s d = Some t \<and> t mod length (dc_buckets s) \<noteq> sl" for d t
    using b [OF assms(2)] by (auto simp: drain_slot_def g first_seen_def map_of_fold_delete)
  then show "first_seen (drain_slot s sl) d = Some t \<longleftrightarrow>
      first_seen s d = Some t \<and> t mod length (dc_buckets s) \<noteq> sl" .
  show l: "length (dc_buckets (drain_slot s sl)) = length (dc_buckets s)"
    and "dc_now (drain_slot s sl) = dc_now s" and "dc_window (drain_slot s sl) = dc_window s"
    and "dc_checked (drain_slot s sl) = dc_checked s"
    and "dc_duplicates (drain_slot s sl) = dc_duplicates s"
    by (simp_all add: drain_slot_def g)
  show "ring_ok (drain_slot s sl)"
    unfolding ring_ok_def l f
  proof (intro conjI allI impI)
    show "distinct (map fst (dc_seen (drain_slot s sl)))"
      using assms(1) by (simp add: ring_ok_def drain_slot_def g distinct_fold_delete)
    fix i assume i: "i < length (dc_buckets s)"
    show "set (dc_buckets (drain_slot s sl) ! i) =
        {d. \<exists>t. (first_seen s d = Some t \<and> t mod length (dc_buckets s) \<noteq> sl) \<and>
               t mod length (dc_buckets s) = i}"
      using b [OF i] i by (cases "i = sl") (auto simp: drain_slot_def g)
  qed
qed

text \<open>Advancing forgets exactly what is older than the window.\<close>

lemma drain_steps:
  assumes "ring_ok s" and "dc_buckets s \<noteq> []"
    and s'_def: "s' = fold (\<lambda>step s. drain_slot s (slot s (dc_now s + step))) steps s"
  shows "ring_ok s' \<and> length (dc_buckets s') = length (dc_buckets s) \<and> dc_now s' = dc_now s \<and>
    dc_window s' = dc_window s \<and> dc_checked s' = dc_checked s \<and> dc_duplicates s' = dc_duplicates s \<and>
    (\<forall>d t. first_seen s' d = Some t \<longleftrightarrow>
       first_seen s d = Some t \<and>
       (\<forall>k \<in> set steps. t mod length (dc_buckets s) \<noteq> (dc_now s + k) mod length (dc_buckets s)))"
  using assms(1,2) unfolding s'_def
proof (induction steps arbitrary: s)
  case Nil
  then show ?case by simp
next
  case (Cons k steps)
  let ?s = "drain_slot s (slot s (dc_now s + k))"
  have sl: "slot s (dc_now s + k) < length (dc_buckets s)" using Cons.prems by (simp add: slot_def)
  note d = drain_slot_ok [OF Cons.prems(1) sl]
  have "dc_buckets ?s \<noteq> []" using d(3) Cons.prems(2) by (metis length_0_conv)
  from Cons.IH [OF d(1) this] show ?case
    unfolding d(3-7) by (simp add: d(2) [unfolded slot_def] slot_def)
qed

lemma same_slot_iff:
  fixes t now n k :: nat
  assumes "t \<le> now" and "now - t < n"
  shows "(\<exists>k \<in> {1..<e + 1}. t mod n = (now + k) mod n) \<longleftrightarrow> now + e - t \<ge> n"
proof
  assume "\<exists>k \<in> {1..<e + 1}. t mod n = (now + k) mod n"
  then obtain k where k: "1 \<le> k" "k \<le> e" "t mod n = (now + k) mod n" by auto
  then have "n dvd now + k - t" using assms(1) by (metis mod_eq_dvd_iff_nat trans_le_add1)
  moreover have "0 < now + k - t" using k(1) assms(1) by simp
  ultimately have "n \<le> now + k - t" by (rule dvd_imp_le)
  with k(2) show "now + e - t \<ge> n" by simp
next
  assume e: "now + e - t \<ge> n"
  define k where "k = n - (now - t)"
  have "1 \<le> k" "k \<le> e" "now + k = t + n" using assms e by (auto simp: k_def)
  then show "\<exists>k \<in> {1..<e + 1}. t mod n = (now + k) mod n" by (intro bexI [of _ k]) auto
qed

lemma advance_to_ok:
  assumes "dupe_inv s"
  shows "dupe_inv (advance_to s now)"
    and "dc_now (advance_to s now) = max (dc_now s) now"
    and "dc_window (advance_to s now) = dc_window s"
    and "first_seen (advance_to s now) d = Some t \<longleftrightarrow>
           first_seen s d = Some t \<and> max (dc_now s) now - t \<le> dc_window s"
    and "dc_checked (advance_to s now) = dc_checked s"
    and "dc_duplicates (advance_to s now) = dc_duplicates s"
proof -
  note inv = dupe_invD [OF assms]
  have "dupe_inv (advance_to s now) \<and> dc_now (advance_to s now) = max (dc_now s) now \<and>
    dc_window (advance_to s now) = dc_window s \<and>
    (\<forall>d t. first_seen (advance_to s now) d = Some t \<longleftrightarrow>
           first_seen s d = Some t \<and> max (dc_now s) now - t \<le> dc_window s) \<and>
    dc_checked (advance_to s now) = dc_checked s \<and>
    dc_duplicates (advance_to s now) = dc_duplicates s"
  proof (cases "now \<le> dc_now s")
    case True
    then show ?thesis using assms inv(4) by (auto simp: advance_to_def max_def)
  next
    case later: False
    let ?e = "now - dc_now s"
    show ?thesis
    proof (cases "?e \<ge> length (dc_buckets s)")
      case True
      have "\<not> now - t \<le> dc_window s" if "first_seen s d = Some t" for d t
        using inv(2) inv(4) [OF that] True later by linarith
      with True later inv(1,2) show ?thesis
        by (auto simp: advance_to_def dupe_inv_def first_seen_def)
    next
      case False
      define s' where "s' = fold (\<lambda>step s. drain_slot s (slot s (dc_now s + step))) [1..<?e + 1] s"
      have a: "advance_to s now = s'\<lparr>dc_now := now\<rparr>"
        using False later by (simp add: advance_to_def s'_def Let_def)
      have r: "ring_ok s" "dc_buckets s \<noteq> []" using assms inv(2) by (auto simp: dupe_inv_def ring_ok_def)
      note s' = drain_steps [OF r s'_def]
      then have s0: "ring_ok s'" "length (dc_buckets s') = length (dc_buckets s)"
        "dc_window s' = dc_window s" "dc_checked s' = dc_checked s"
        "dc_duplicates s' = dc_duplicates s" by blast+
      have f: "first_seen s' d = Some t \<longleftrightarrow> first_seen s d = Some t \<and> now - t \<le> dc_window s" for d t
      proof (cases "first_seen s d = Some t")
        case True
        note t = inv(4) [OF True]
        have "(\<exists>k \<in> {1..<?e + 1}. t mod length (dc_buckets s) =
            (dc_now s + k) mod length (dc_buckets s)) \<longleftrightarrow> dc_now s + ?e - t \<ge> length (dc_buckets s)"
          using t inv(2) by (intro same_slot_iff) auto
        with s' True later inv(2) show ?thesis by auto
      qed (use s' in blast)
      have b: "set (dc_buckets s' ! i) =
          {d. \<exists>t. first_seen s' d = Some t \<and> t mod length (dc_buckets s') = i}"
        if "i < length (dc_buckets s')" for i
        using s0(1) that by (simp add: ring_ok_def)
      have fs: "first_seen (s'\<lparr>dc_now := now\<rparr>) = first_seen s'" by (simp add: first_seen_def fun_eq_iff)
      have t: "t \<le> now \<and> now - t \<le> dc_window s" if "first_seen s' d = Some t" for d t
        using f [of d t] that inv(4) [of d t] later by simp
      have "dupe_inv (s'\<lparr>dc_now := now\<rparr>)"
        using s0 b t inv(1,2) unfolding dupe_inv_def fs by (simp add: ring_ok_def)
      then show ?thesis using s0 f later unfolding a fs by (simp add: max_def)
    qed
  qed
  then show "dupe_inv (advance_to s now)"
    and "dc_now (advance_to s now) = max (dc_now s) now"
    and "dc_window (advance_to s now) = dc_window s"
    and "first_seen (advance_to s now) d = Some t \<longleftrightarrow>
           first_seen s d = Some t \<and> max (dc_now s) now - t \<le> dc_window s"
    and "dc_checked (advance_to s now) = dc_checked s"
    and "dc_duplicates (advance_to s now) = dc_duplicates s" by blast+
qed

subsection \<open>One check\<close>

lemma insert_inv:
  fixes s :: dupecheck and d :: nat
  assumes "dupe_inv s" and "first_seen s d = None"
  defines "sl \<equiv> dc_now s mod length (dc_buckets s)"
  shows "dupe_inv (s\<lparr>dc_seen := AList.update d (dc_now s) (dc_seen s),
      dc_buckets := (dc_buckets s)[sl := dc_buckets s ! sl @ [d]], dc_checked := k\<rparr>)"
proof -
  note inv = dupe_invD [OF assms(1)]
  have sl: "sl < length (dc_buckets s)" using inv(2) by (simp add: sl_def)
  have b: "set ((dc_buckets s)[sl := dc_buckets s ! sl @ [d]] ! i) =
      {e. \<exists>t. ((first_seen s)(d \<mapsto> dc_now s)) e = Some t \<and> t mod length (dc_buckets s) = i}"
    if i: "i < length (dc_buckets s)" for i
  proof (cases "i = sl")
    case True
    then show ?thesis using inv(5) [OF i] assms(2) sl by (auto simp: sl_def)
  next
    case False
    then show ?thesis using inv(5) [OF i] assms(2) by (auto simp: sl_def)
  qed
  show ?thesis
    using inv(1,2,3,4) b unfolding dupe_inv_def
    by (auto simp: first_seen_def update_conv' distinct_update)
qed

lemma check_digest_ok:
  fixes s :: dupecheck and d t :: nat
  assumes "dupe_inv s"
  defines "now \<equiv> max (dc_now s) t"
  shows "fst (check_digest s d t) \<longleftrightarrow> (\<exists>u. first_seen s d = Some u \<and> now - u \<le> dc_window s)"
    and "dupe_inv (snd (check_digest s d t))"
    and "dc_window (snd (check_digest s d t)) = dc_window s"
    and "dc_now (snd (check_digest s d t)) = now"
    and "first_seen (snd (check_digest s d t)) e = Some u \<longleftrightarrow>
      first_seen s e = Some u \<and> now - u \<le> dc_window s \<or>
      \<not> fst (check_digest s d t) \<and> e = d \<and> u = now"
    and "dc_checked (snd (check_digest s d t)) = dc_checked s + 1"
    and "dc_duplicates (snd (check_digest s d t)) =
      dc_duplicates s + (if fst (check_digest s d t) then 1 else 0)"
proof -
  note a = advance_to_ok [OF assms(1), of t, folded now_def]
  let ?a = "advance_to s t"
  have keep: "dupe_inv (r\<lparr>dc_checked := i\<rparr>) = dupe_inv r"
    "dupe_inv (r\<lparr>dc_checked := i, dc_duplicates := j\<rparr>) = dupe_inv r"
    "first_seen (r\<lparr>dc_checked := i\<rparr>) = first_seen r"
    "first_seen (r\<lparr>dc_checked := i, dc_duplicates := j\<rparr>) = first_seen r"
    for r :: dupecheck and i j
    by (simp_all add: dupe_inv_def first_seen_def)
  have "(fst (check_digest s d t) \<longleftrightarrow> (\<exists>u. first_seen s d = Some u \<and> now - u \<le> dc_window s)) \<and>
    dupe_inv (snd (check_digest s d t)) \<and>
    dc_window (snd (check_digest s d t)) = dc_window s \<and>
    dc_now (snd (check_digest s d t)) = now \<and>
    (\<forall>e u. first_seen (snd (check_digest s d t)) e = Some u \<longleftrightarrow>
      first_seen s e = Some u \<and> now - u \<le> dc_window s \<or>
      \<not> fst (check_digest s d t) \<and> e = d \<and> u = now) \<and>
    dc_checked (snd (check_digest s d t)) = dc_checked s + 1 \<and>
    dc_duplicates (snd (check_digest s d t)) =
      dc_duplicates s + (if fst (check_digest s d t) then 1 else 0)"
  proof (cases "first_seen ?a d")
    case None
    let ?sl = "now mod length (dc_buckets ?a)"
    let ?s = "?a\<lparr>dc_seen := AList.update d now (dc_seen ?a),
      dc_buckets := (dc_buckets ?a)[?sl := dc_buckets ?a ! ?sl @ [d]],
      dc_checked := dc_checked s + 1\<rparr>"
    have "?sl < length (dc_buckets ?a)" using dupe_invD(2) [OF a(1)] by simp
    then have c: "check_digest s d t = (False, ?s)"
      using None by (simp add: check_digest_def first_seen_def slot_def get_def a Let_def)
    have i: "dupe_inv ?s"
      using insert_inv [OF a(1) None] by (simp add: a)
    have n: "\<not> (\<exists>u. first_seen s d = Some u \<and> now - u \<le> dc_window s)"
      using None a(4) by (metis option.distinct(1))
    have f: "first_seen ?s e = Some u \<longleftrightarrow>
        (if e = d then u = now else first_seen ?a e = Some u)" for e u
      by (auto simp: first_seen_def update_conv')
    show ?thesis using c i n a f by auto
  next
    case (Some v)
    then have c: "check_digest s d t = (True, ?a\<lparr>dc_checked := dc_checked s + 1,
        dc_duplicates := dc_duplicates s + 1\<rparr>)"
      by (simp add: check_digest_def first_seen_def a Let_def)
    have "first_seen s d = Some v \<and> now - v \<le> dc_window s" using Some a(4) by blast
    with c a(1-4) keep show ?thesis by auto
  qed
  note r = this
  from r show "fst (check_digest s d t) \<longleftrightarrow> (\<exists>u. first_seen s d = Some u \<and> now - u \<le> dc_window s)"
    by (elim conjE) assumption
  from r show "dupe_inv (snd (check_digest s d t))" by (elim conjE) assumption
  from r show "dc_window (snd (check_digest s d t)) = dc_window s" by (elim conjE) assumption
  from r show "dc_now (snd (check_digest s d t)) = now" by (elim conjE) assumption
  from r show "first_seen (snd (check_digest s d t)) e = Some u \<longleftrightarrow>
      first_seen s e = Some u \<and> now - u \<le> dc_window s \<or>
      \<not> fst (check_digest s d t) \<and> e = d \<and> u = now"
    by (elim conjE) (erule allE, erule allE, assumption)
  from r show "dc_checked (snd (check_digest s d t)) = dc_checked s + 1" by (elim conjE) assumption
  from r show "dc_duplicates (snd (check_digest s d t)) =
      dc_duplicates s + (if fst (check_digest s d t) then 1 else 0)" by (elim conjE) assumption
qed

interpretation dupe: recent_window check_digest dupe_inv dc_now dc_window first_seen
proof unfold_locales
  fix s d t
  assume "dupe_inv s" "\<not> fst (check_digest s d t)"
  then show "first_seen (snd (check_digest s d t)) d = Some (max (dc_now s) t)"
    using check_digest_ok(5) by blast
qed (use check_digest_ok in \<open>blast+\<close>)

subsection \<open>The detector that forgets nothing\<close>

fun checks :: "dupecheck \<Rightarrow> (nat \<times> nat) list \<Rightarrow> bool list" where
  "checks s [] = []"
| "checks s ((d, t) # ops) =
     (case check_digest s d t of (b, s') \<Rightarrow> b # checks s' ops)"

fun spec_checks :: "nat \<Rightarrow> (nat \<times> nat) list \<Rightarrow> nat \<Rightarrow> (nat \<times> nat) list \<Rightarrow> bool list" where
  "spec_checks w passed clock [] = []"
| "spec_checks w passed clock ((d, t) # ops) =
     (let now = max clock t;
          dup = list_ex (\<lambda>(e, u). e = d \<and> now - u \<le> w) passed
      in dup # spec_checks w (if dup then passed else (d, now) # passed) now ops)"

lemma checks_spec:
  assumes "dupe_inv s"
    and "\<And>d u. first_seen s d = Some u \<longleftrightarrow> (d, u) \<in> set passed \<and> dc_now s - u \<le> dc_window s"
  shows "checks s ops = spec_checks (dc_window s) passed (dc_now s) ops"
  using assms
proof (induction ops arbitrary: s passed)
  case Nil
  then show ?case by simp
next
  case (Cons op ops)
  obtain d t where op: "op = (d, t)" by (cases op)
  let ?now = "max (dc_now s) t"
  let ?dup = "list_ex (\<lambda>(e, u). e = d \<and> ?now - u \<le> dc_window s) passed"
  obtain b s' where c: "check_digest s d t = (b, s')" by (cases "check_digest s d t")
  note k = check_digest_ok [OF Cons.prems(1), of d t, unfolded c fst_conv snd_conv]
  have shrink: "?now - u \<le> dc_window s \<Longrightarrow> dc_now s - u \<le> dc_window s" for u by simp
  have b: "b \<longleftrightarrow> ?dup"
    unfolding k(1) Cons.prems(2) using shrink by (auto simp: list_ex_iff)
  have f: "first_seen s' e = Some u \<longleftrightarrow>
      (e, u) \<in> set (if ?dup then passed else (d, ?now) # passed) \<and> ?now - u \<le> dc_window s" for e u
    unfolding k(5) [of e u] Cons.prems(2) using shrink b by auto
  have "checks s' ops =
      spec_checks (dc_window s') (if ?dup then passed else (d, ?now) # passed) (dc_now s') ops"
    by (rule Cons.IH [OF k(2)]) (simp only: f k(3,4))
  then show ?case using b by (simp add: op c k(3,4) Let_def)
qed

subsection \<open>Properties\<close>

text \<open>C3: over every sequence of checks, whatever the order of the timestamps, the bounded ring of
  buckets answers as a detector that keeps every packet it ever let through: a packet is a
  duplicate exactly when one with the same digest was let through at most a window ago.\<close>

theorem duplicates_match_history:
  "checks (with_window w) ops = spec_checks (max w 1) [] 0 ops"
  using checks_spec [OF with_window_inv [of w], of "[]" ops]
  by (simp add: with_window_def first_seen_def Let_def)

text \<open>A digest that was let through is refused by every later check up to a full window later,
  however many other packets are checked in between.\<close>

theorem passed_once_per_window:
  assumes "dupe_inv s" and "\<not> fst (check_digest s d t)"
    and "max (dc_now (dupe.run (snd (check_digest s d t)) ops)) t' - max (dc_now s) t \<le> dc_window s"
  shows "fst (check_digest (dupe.run (snd (check_digest s d t)) ops) d t')"
  by (rule dupe.pass_then_hit [OF assms])

theorem passed_once_per_window_witness:
  "fst (check_digest (dupe.run (snd (check_digest (with_window 2) 7 10)) [(8, 11), (9, 9)]) 7 12)"
proof (rule passed_once_per_window [OF with_window_inv])
  show "\<not> fst (check_digest (with_window 2) 7 10)" by code_simp
next
  show "max (dc_now (dupe.run (snd (check_digest (with_window 2) 7 10)) [(8, 11), (9, 9)])) 12 -
      max (dc_now (with_window 2)) 10 \<le> dc_window (with_window 2)"
    unfolding dupe.run.simps by code_simp
qed

text \<open>Two copies of a transmission that differ only in the digipeater path and in white space
  padding the information field have the same digest, for every hash function.\<close>

theorem digest_ignores_path:
  assumes "p_source p = p_source q" and "p_destination p = p_destination q"
    and "p_payload p = p_payload q @ pad" and "valid_utf8 (p_payload q)"
    and "list_all (\<lambda>c. is_ascii c \<and> is_whitespace (ord c)) pad"
  shows "digest hash p = digest hash q"
  using assms trim_end_append_ws by (simp add: digest_def)

end
