(* ===== verification/Codec.thy ===== *)
theory Codec
  imports Packet
begin

section \<open>Line framing (\<open>aprsr-server/src/codec.rs\<close>)\<close>

text \<open>
  The decoder over its receive buffer. \<open>decode\<close> is the code's loop with its two resumption variables
  (\<open>discarding\<close>, \<open>next_index\<close>). The specification \<open>stream_lines\<close> cuts the whole byte stream at its
  newlines; \<open>feed_stream\<close> shows that the decoder yields exactly that, for every way the stream is cut
  into chunks, when each chunk is appended to the buffer and \<open>decode\<close> is called until it asks for
  more, and \<open>decode_eof\<close> at the end (the documented protocol of \<open>Decoder\<close>).
\<close>

datatype line = Text str | Oversized | NotUtf8

record line_codec =
  lc_max_length :: nat
  lc_discarding :: bool
  lc_next_index :: nat

definition with_max_length :: "nat \<Rightarrow> line_codec" where
  "with_max_length max_length =
     \<lparr>lc_max_length = max_length, lc_discarding = False, lc_next_index = 0\<rparr>"

definition line_codec_new :: line_codec where
  "line_codec_new = with_max_length MAX_PACKET_LEN"

definition newline :: char where "newline = CHR 0x0A"

definition decode_line :: "str \<Rightarrow> line" where
  "decode_line bytes = (if valid_utf8 bytes then Text bytes else NotUtf8)"

definition strip_carriage_return :: "str \<Rightarrow> str" where
  "strip_carriage_return bytes =
     (if bytes \<noteq> [] \<and> last bytes = CHR 0x0D then butlast bytes else bytes)"

text \<open>The window \<open>buf.get(next_index..read_to)\<close> of raw bytes and the newline found in it.\<close>

definition scan :: "line_codec \<Rightarrow> str \<Rightarrow> nat \<Rightarrow> nat option" where
  "scan c buf read_to =
     (if lc_next_index c \<le> read_to \<and> read_to \<le> length buf
      then find_byte newline (drop (lc_next_index c) (take read_to buf)) else None)"

function decode :: "line_codec \<Rightarrow> str \<Rightarrow> line option \<times> line_codec \<times> str" where
  "decode c buf =
     (let read_to = min (lc_max_length c + 1) (length buf) in
      case (lc_discarding c, scan c buf read_to) of
        (True, Some off) \<Rightarrow>
          decode (c\<lparr>lc_discarding := False, lc_next_index := 0\<rparr>) (drop (off + lc_next_index c + 1) buf)
      | (True, None) \<Rightarrow>
          (let buf' = drop read_to buf; c' = c\<lparr>lc_next_index := 0\<rparr> in
           if buf' = [] then (None, c', buf') else decode c' buf')
      | (False, Some off) \<Rightarrow>
          (let newline_index = off + lc_next_index c;
               line = take (newline_index + 1) buf
           in (Some (decode_line (strip_carriage_return (take (length line - 1) line))),
               c\<lparr>lc_next_index := 0\<rparr>, drop (newline_index + 1) buf))
      | (False, None) \<Rightarrow>
          if length buf > lc_max_length c then (Some Oversized, c\<lparr>lc_discarding := True\<rparr>, buf)
          else (None, c\<lparr>lc_next_index := length buf\<rparr>, buf))"
  by pat_completeness auto
termination
  by (relation "measure (\<lambda>(c, buf). length buf)") (auto simp: scan_def split: if_splits dest!: find_byte_SomeD [OF sym])

declare decode.simps [simp del]

definition decode_eof :: "line_codec \<Rightarrow> str \<Rightarrow> line option \<times> line_codec \<times> str" where
  "decode_eof c buf =
     (case decode c buf of
        (Some line, c', buf') \<Rightarrow> (Some line, c', buf')
      | (None, c', buf') \<Rightarrow>
          if buf' = [] then (None, c', buf')
          else (Some (decode_line (strip_carriage_return buf')), c'\<lparr>lc_next_index := 0\<rparr>, []))"

subsection \<open>The specification\<close>

definition line_item :: "nat \<Rightarrow> str \<Rightarrow> line" where
  "line_item mx seg =
     (if length seg > mx then Oversized else decode_line (strip_carriage_return seg))"

definition stream_lines :: "nat \<Rightarrow> str \<Rightarrow> line list" where
  "stream_lines mx s =
     (let segments = split_on newline s in
      map (line_item mx) (butlast segments) @
      (if last segments = [] then [] else [line_item mx (last segments)]))"

text \<open>What is still to come, given whether the decoder is discarding.\<close>

definition pending :: "nat \<Rightarrow> bool \<Rightarrow> str \<Rightarrow> line list" where
  "pending mx discarding s =
     (if discarding
      then (case find_byte newline s of None \<Rightarrow> [] | Some i \<Rightarrow> stream_lines mx (drop (Suc i) s))
      else stream_lines mx s)"

lemma stream_lines_newline:
  "newline \<notin> set seg \<Longrightarrow> stream_lines mx (seg @ newline # s) = line_item mx seg # stream_lines mx s"
proof -
  assume n: "newline \<notin> set seg"
  have "split_on newline (seg @ newline # s) = seg # split_on newline s"
    by (rule split_by_append_sep) (use n in \<open>auto simp: list_all_iff\<close>)
  then show ?thesis by (simp add: stream_lines_def Let_def)
qed

lemma stream_lines_last:
  "newline \<notin> set seg \<Longrightarrow> stream_lines mx seg = (if seg = [] then [] else [line_item mx seg])"
proof -
  assume n: "newline \<notin> set seg"
  have "split_on newline seg = [seg]"
    by (rule split_by_none) (use n in \<open>auto simp: list_all_iff\<close>)
  then show ?thesis by (simp add: stream_lines_def Let_def)
qed

lemma pending_newline:
  "newline \<notin> set seg \<Longrightarrow> pending mx True (seg @ newline # s) = stream_lines mx s"
  by (simp add: pending_def str_simps)

lemma pending_no_newline: "newline \<notin> set seg \<Longrightarrow> pending mx True (seg @ s) = pending mx True s"
proof -
  assume n: "newline \<notin> set seg"
  show ?thesis
  proof (cases "find_byte newline s")
    case None
    with n have "find_byte newline (seg @ s) = None" by (simp add: find_byte_None)
    with None show ?thesis by (simp add: pending_def)
  next
    case (Some i)
    then obtain a b where s: "s = a @ newline # b" "newline \<notin> set a" by (rule find_byte_SomeE)
    then have "pending mx True ((seg @ a) @ newline # b) = pending mx True (a @ newline # b)"
      using n by (simp add: pending_newline del: append_assoc)
    then show ?thesis by (simp add: s)
  qed
qed

lemma pending_oversized:
  assumes "mx < length seg" and "newline \<notin> set seg"
  shows "stream_lines mx (seg @ s) = Oversized # pending mx True (seg @ s)"
proof (cases "find_byte newline (seg @ s)")
  case None
  then have "newline \<notin> set (seg @ s)" by (simp add: find_byte_None)
  moreover have "seg @ s \<noteq> []" using assms(1) by auto
  ultimately show ?thesis using None assms(1) by (simp add: stream_lines_last line_item_def pending_def)
next
  case (Some i)
  then obtain a b where ab: "seg @ s = a @ newline # b" "newline \<notin> set a" by (rule find_byte_SomeE)
  have "length seg \<le> length a"
  proof (rule ccontr)
    assume "\<not> length seg \<le> length a"
    then have "(seg @ s) ! length a = seg ! length a" "length a < length seg"
      by (simp_all add: nth_append)
    then show False using assms(2) ab(1) by (metis nth_append_length nth_mem)
  qed
  with assms(1) ab show ?thesis
    by (simp add: stream_lines_newline pending_newline line_item_def)
qed

subsection \<open>One call\<close>

definition codec_inv :: "line_codec \<Rightarrow> str \<Rightarrow> bool" where
  "codec_inv c buf \<longleftrightarrow>
     lc_next_index c \<le> lc_max_length c \<and> lc_next_index c \<le> length buf \<and>
     newline \<notin> set (take (lc_next_index c) buf)"

lemma scan_Some:
  assumes "codec_inv c buf" and "scan c buf (min (lc_max_length c + 1) (length buf)) = Some off"
  defines "n \<equiv> off + lc_next_index c"
  shows "n \<le> lc_max_length c" "n < length buf" "buf = take n buf @ newline # drop (Suc n) buf"
    "newline \<notin> set (take n buf)"
proof -
  let ?k = "lc_next_index c" and ?r = "min (lc_max_length c + 1) (length buf)"
  have f: "find_byte newline (drop ?k (take ?r buf)) = Some off"
    using assms(2) by (simp add: scan_def split: if_splits)
  note d = find_byte_SomeD [OF f]
  have "off < length (drop ?k (take ?r buf))" using d by blast
  then have n: "n < ?r" unfolding n_def by (simp add: less_diff_conv)
  then show "n \<le> lc_max_length c" and nl: "n < length buf" by simp_all
  have "newline = drop ?k (take ?r buf) ! off" using d by (metis nth_append_length length_take min.absorb4)
  then have "buf ! n = newline" using d n by (simp add: n_def add.commute)
  with nl show "buf = take n buf @ newline # drop (Suc n) buf" by (metis id_take_nth_drop)
  have "take off (drop ?k (take ?r buf)) = drop ?k (take n (take ?r buf))"
    by (simp add: n_def take_drop)
  also have "take n (take ?r buf) = take n buf" using n by (simp only: take_take min.absorb1 less_imp_le)
  finally have "take n buf = take ?k (take n buf) @ take off (drop ?k (take ?r buf))"
    by (metis append_take_drop_id)
  moreover have "take ?k (take n buf) = take ?k buf"
    by (simp only: take_take) (simp add: n_def)
  ultimately have "take n buf = take ?k buf @ take off (drop ?k (take ?r buf))" by (simp only:)
  then show "newline \<notin> set (take n buf)" using assms(1) d by (simp add: codec_inv_def)
qed

lemma scan_None:
  assumes "codec_inv c buf" and "scan c buf (min (lc_max_length c + 1) (length buf)) = None"
  shows "newline \<notin> set (take (min (lc_max_length c + 1) (length buf)) buf)"
proof -
  let ?k = "lc_next_index c" and ?r = "min (lc_max_length c + 1) (length buf)"
  have k: "?k \<le> ?r" using assms(1) by (simp add: codec_inv_def)
  then have "newline \<notin> set (drop ?k (take ?r buf))"
    using assms(2) by (simp add: scan_def find_byte_None)
  moreover have "take ?r buf = take ?k buf @ drop ?k (take ?r buf)"
    using k by (metis append_take_drop_id min.absorb1 take_take)
  ultimately show ?thesis using assms(1) unfolding codec_inv_def by (metis Un_iff set_append)
qed

definition decode_post :: "line_codec \<Rightarrow> str \<Rightarrow> line option \<times> line_codec \<times> str \<Rightarrow> bool" where
  "decode_post c buf r \<longleftrightarrow>
     (case r of (l, c', buf') \<Rightarrow>
        codec_inv c' buf' \<and> lc_max_length c' = lc_max_length c \<and>
        (case l of
           Some l \<Rightarrow>
             (\<forall>fut. pending (lc_max_length c) (lc_discarding c) (buf @ fut) =
                l # pending (lc_max_length c) (lc_discarding c') (buf' @ fut)) \<and>
             2 * length buf' + (if lc_discarding c' then 0 else 1)
               < 2 * length buf + (if lc_discarding c then 0 else 1)
         | None \<Rightarrow>
             (\<forall>fut. pending (lc_max_length c) (lc_discarding c) (buf @ fut) =
                pending (lc_max_length c) (lc_discarding c') (buf' @ fut)) \<and>
             newline \<notin> set buf' \<and> length buf' \<le> lc_max_length c \<and>
             (lc_discarding c' \<longrightarrow> buf' = [])))"

lemma decode_post_trans:
  assumes "decode_post c' buf' r" and "lc_max_length c' = lc_max_length c"
    and "\<And>fut. pending (lc_max_length c) (lc_discarding c) (buf @ fut) =
      pending (lc_max_length c) (lc_discarding c') (buf' @ fut)"
    and "2 * length buf' + (if lc_discarding c' then 0 else 1)
      \<le> 2 * length buf + (if lc_discarding c then 0 else 1 :: nat)"
  shows "decode_post c buf r"
proof -
  obtain l d b where r: "r = (l, d, b)" by (cases r)
  show ?thesis using assms unfolding r decode_post_def by (cases l) simp_all
qed

lemma decode_ok: "codec_inv c buf \<Longrightarrow> decode_post c buf (decode c buf)"
proof (induction c buf rule: decode.induct)
  case (1 c buf)
  let ?mx = "lc_max_length c"
  let ?r = "min (?mx + 1) (length buf)"
  show ?case
  proof (cases "scan c buf ?r")
    case (Some off)
    let ?n = "off + lc_next_index c"
    note s = scan_Some [OF "1.prems" Some]
    show ?thesis
    proof (cases "lc_discarding c")
      case True
      let ?c = "c\<lparr>lc_discarding := False, lc_next_index := 0\<rparr>"
      have e: "decode c buf = decode ?c (drop (?n + 1) buf)"
        using True Some by (subst decode.simps) simp
      have "codec_inv ?c (drop (?n + 1) buf)" by (simp add: codec_inv_def)
      then have "decode_post ?c (drop (?n + 1) buf) (decode ?c (drop (?n + 1) buf))"
        by (rule "1.IH"(2) [OF refl refl True [THEN eqTrueI] Some])
      then show ?thesis unfolding e
      proof (rule decode_post_trans)
        fix fut
        have "pending ?mx True ((take ?n buf @ newline # drop (Suc ?n) buf) @ fut) =
            stream_lines ?mx (drop (Suc ?n) buf @ fut)"
          using s(4) by (simp add: pending_newline)
        then show "pending ?mx (lc_discarding c) (buf @ fut) =
            pending ?mx (lc_discarding ?c) (drop (?n + 1) buf @ fut)"
          using True s(3) by (simp add: pending_def)
      qed (use True s(2) in simp_all)
    next
      case False
      have e: "decode c buf = (Some (decode_line (strip_carriage_return (take ?n buf))),
          c\<lparr>lc_next_index := 0\<rparr>, drop (?n + 1) buf)"
        using False Some s(2) by (subst decode.simps) (simp add: Let_def Suc_leI min.absorb1)
      have "stream_lines ?mx ((take ?n buf @ newline # drop (Suc ?n) buf) @ fut) =
          decode_line (strip_carriage_return (take ?n buf)) #
          stream_lines ?mx (drop (Suc ?n) buf @ fut)" for fut
        using s(1,2,4) by (simp add: stream_lines_newline line_item_def)
      with False s(2,3) show ?thesis
        unfolding e decode_post_def by (simp add: codec_inv_def pending_def)
    qed
  next
    case None
    note n = scan_None [OF "1.prems" None]
    show ?thesis
    proof (cases "lc_discarding c")
      case True
      let ?c = "c\<lparr>lc_next_index := 0\<rparr>"
      have p: "pending ?mx True (buf @ fut) = pending ?mx True (drop ?r buf @ fut)" for fut
        using pending_no_newline [OF n, of ?mx "drop ?r buf @ fut"]
        by (metis append.assoc append_take_drop_id)
      have i: "codec_inv ?c (drop ?r buf)" by (simp add: codec_inv_def)
      show ?thesis
      proof (cases "drop ?r buf = []")
        case nil: True
        have "decode c buf = (None, ?c, drop ?r buf)"
          using True None nil by (subst decode.simps) (simp add: Let_def)
        with p i nil True show ?thesis by (simp add: decode_post_def)
      next
        case False
        have e: "decode c buf = decode ?c (drop ?r buf)"
          using True None False by (subst decode.simps) (simp add: Let_def)
        have "decode_post ?c (drop ?r buf) (decode ?c (drop ?r buf))"
          by (rule "1.IH"(1) [OF refl refl True [THEN eqTrueI] None refl refl False i])
        then show ?thesis unfolding e
          by (rule decode_post_trans) (use True p in simp_all)
      qed
    next
      case False
      show ?thesis
      proof (cases "length buf > ?mx")
        case True
        have e: "decode c buf = (Some Oversized, c\<lparr>lc_discarding := True\<rparr>, buf)"
          using True None False by (subst decode.simps) simp
        have "mx < length (take ?r buf)" if "mx = ?mx" for mx using True that by simp
        from pending_oversized [OF this [OF refl] n, of "drop ?r buf @ fut" for fut]
        have "stream_lines ?mx (buf @ fut) = Oversized # pending ?mx True (buf @ fut)" for fut
          by (metis append.assoc append_take_drop_id)
        with "1.prems" False show ?thesis
          unfolding e decode_post_def by (simp add: codec_inv_def pending_def)
      next
        case short: False
        have e: "decode c buf = (None, c\<lparr>lc_next_index := length buf\<rparr>, buf)"
          using short None False by (subst decode.simps) simp
        have "newline \<notin> set buf" using n short by simp
        with short False show ?thesis
          unfolding e decode_post_def by (simp add: codec_inv_def)
      qed
    qed
  qed
qed

subsection \<open>The decoder over a stream of chunks\<close>

text \<open>
  \<open>drain\<close> calls \<open>decode\<close> until it asks for more bytes; the invariant keeps the number of calls finite.
\<close>

lemma decode_decreases:
  "codec_inv c buf \<Longrightarrow> decode c buf = (Some l, c', buf') \<Longrightarrow>
     2 * length buf' + (if lc_discarding c' then 0 else 1)
       < 2 * length buf + (if lc_discarding c then 0 else 1)"
  by (drule decode_ok) (simp add: decode_post_def)

function drain :: "line_codec \<Rightarrow> str \<Rightarrow> line list \<times> line_codec \<times> str" where
  "drain c buf =
     (if codec_inv c buf
      then (case decode c buf of
              (None, c', buf') \<Rightarrow> ([], c', buf')
            | (Some l, c', buf') \<Rightarrow> (case drain c' buf' of (ls, r) \<Rightarrow> (l # ls, r)))
      else ([], c, buf))"
  by pat_completeness auto
termination
  by (relation "measure (\<lambda>(c, buf). 2 * length buf + (if lc_discarding c then 0 else 1))")
     (auto dest!: decode_decreases [OF _ sym])

declare drain.simps [simp del]

fun feed :: "line_codec \<Rightarrow> str \<Rightarrow> str list \<Rightarrow> line list" where
  "feed c buf [] =
     (case drain c buf of (ls, c', buf') \<Rightarrow>
        ls @ (case decode_eof c' buf' of (Some l, _) \<Rightarrow> [l] | (None, _) \<Rightarrow> []))"
| "feed c buf (chunk # chunks) =
     (case drain c (buf @ chunk) of (ls, c', buf') \<Rightarrow> ls @ feed c' buf' chunks)"

lemma codec_inv_append: "codec_inv c buf \<Longrightarrow> codec_inv c (buf @ s)"
  by (simp add: codec_inv_def)

lemma drain_ok:
  assumes "codec_inv c buf" and "drain c buf = (ls, c', buf')"
  shows "codec_inv c' buf' \<and> lc_max_length c' = lc_max_length c \<and> newline \<notin> set buf' \<and>
    length buf' \<le> lc_max_length c \<and> (lc_discarding c' \<longrightarrow> buf' = []) \<and>
    (\<forall>fut. pending (lc_max_length c) (lc_discarding c) (buf @ fut) =
       ls @ pending (lc_max_length c) (lc_discarding c') (buf' @ fut))"
  using assms
proof (induction c buf arbitrary: ls c' buf' rule: drain.induct)
  case (1 c buf)
  obtain r d b where dec: "decode c buf = (r, d, b)" by (cases "decode c buf")
  note post = decode_ok [OF "1.prems"(1), unfolded dec decode_post_def prod.case]
  show ?case
  proof (cases r)
    case None
    with "1.prems" dec have "ls = []" "c' = d" "buf' = b" by (simp_all add: drain.simps [of c])
    with post None show ?thesis by simp
  next
    case (Some l)
    obtain ls' where ls': "drain d b = (ls', c', buf')" "ls = l # ls'"
      using "1.prems" dec Some by (auto simp: drain.simps [of c] split: prod.splits)
    have d: "codec_inv d b" "lc_max_length d = lc_max_length c" using post by simp_all
    from "1.IH" [OF "1.prems"(1) dec [symmetric] Some refl d(1) ls'(1)] post Some ls'(2) d(2)
    show ?thesis by simp
  qed
qed

lemma decode_eof_ok:
  assumes "codec_inv c buf" and "newline \<notin> set buf" and "length buf \<le> lc_max_length c"
    and "lc_discarding c \<longrightarrow> buf = []"
  shows "(case decode_eof c buf of (Some l, _) \<Rightarrow> [l] | (None, _) \<Rightarrow> []) =
    pending (lc_max_length c) (lc_discarding c) buf"
proof (cases "lc_discarding c")
  case True
  then have "buf = []" using assms(4) by simp
  moreover have "decode c [] = (None, c\<lparr>lc_next_index := 0\<rparr>, [])"
    using True by (subst decode.simps) (simp add: scan_def)
  ultimately show ?thesis using True by (simp add: decode_eof_def pending_def)
next
  case False
  have "scan c buf (length buf) = None"
    using assms(2) by (auto simp: scan_def find_byte_None dest: in_set_dropD)
  then have d: "decode c buf = (None, c\<lparr>lc_next_index := length buf\<rparr>, buf)"
    using False assms(3) by (subst decode.simps) (simp add: min.absorb2)
  show ?thesis
    using False assms(2,3)
    by (simp add: decode_eof_def d pending_def stream_lines_last line_item_def)
qed

lemma feed_pending:
  "codec_inv c buf \<Longrightarrow>
     feed c buf chunks = pending (lc_max_length c) (lc_discarding c) (buf @ concat chunks)"
proof (induction chunks arbitrary: c buf)
  case Nil
  obtain ls d b where dr: "drain c buf = (ls, d, b)" by (cases "drain c buf")
  note k = drain_ok [OF Nil dr]
  then have p: "pending (lc_max_length c) (lc_discarding c) (buf @ []) =
      ls @ pending (lc_max_length c) (lc_discarding d) (b @ [])" by blast
  show ?case using decode_eof_ok [of d b] k p by (simp add: dr)
next
  case (Cons ch chs)
  obtain ls d b where dr: "drain c (buf @ ch) = (ls, d, b)" by (cases "drain c (buf @ ch)")
  note k = drain_ok [OF codec_inv_append [OF Cons.prems] dr]
  then have p: "pending (lc_max_length c) (lc_discarding c) ((buf @ ch) @ concat chs) =
      ls @ pending (lc_max_length c) (lc_discarding d) (b @ concat chs)" by blast
  show ?case using Cons.IH [of d b] k p by (simp add: dr)
qed

text \<open>The decoder as a transition system: bytes arrive and are drained.\<close>

inductive codec_step :: "line_codec \<times> str \<Rightarrow> line_codec \<times> str \<Rightarrow> bool" where
  codec_chunk: "drain c (buf @ chunk) = (ls, c', buf') \<Longrightarrow> codec_step (c, buf) (c', buf')"

inductive_simps codec_step_simps: "codec_step (c, buf) (c', buf')"

definition codec_init :: "nat \<Rightarrow> line_codec \<times> str \<Rightarrow> bool" where
  "codec_init mx s \<longleftrightarrow> s = (with_max_length mx, [])"

definition codec_bounded :: "nat \<Rightarrow> line_codec \<times> str \<Rightarrow> bool" where
  "codec_bounded mx s \<longleftrightarrow>
     (case s of (c, buf) \<Rightarrow> codec_inv c buf \<and> lc_max_length c = mx \<and> length buf \<le> mx \<and>
        newline \<notin> set buf)"

interpretation codec: inductive_invariant "codec_init mx" codec_step "codec_bounded mx" for mx
proof unfold_locales
  show "codec_init mx s \<Longrightarrow> codec_bounded mx s" for s
    by (simp add: codec_init_def codec_bounded_def with_max_length_def codec_inv_def)
next
  fix s t
  assume b: "codec_bounded mx s" and "codec_step s t"
  from this(2) show "codec_bounded mx t"
  proof cases
    case (codec_chunk c buf chunk ls c' buf')
    with b have "codec_inv c (buf @ chunk)" "lc_max_length c = mx"
      by (simp_all add: codec_bounded_def codec_inv_append)
    with drain_ok [OF this(1) codec_chunk(3)] codec_chunk(2) show ?thesis
      by (simp add: codec_bounded_def)
  qed
qed

subsection \<open>Properties\<close>

text \<open>C4: however the bytes of a connection are cut into chunks, the decoder yields the lines of the
  whole stream in order: each segment up to a newline becomes one item, an oversized segment becomes
  the one item \<open>Oversized\<close> and the lines after it are decoded as usual, a final segment without a newline
  is a line too, and a carriage return before the newline is dropped.\<close>

theorem decoder_yields_stream_lines:
  "feed (with_max_length mx) [] chunks = stream_lines mx (concat chunks)"
  by (subst feed_pending) (simp_all add: with_max_length_def codec_inv_def pending_def)

text \<open>Between two reads the decoder never holds more than the maximum line length in its buffer,
  whatever the peer sends, and what it holds contains no newline.\<close>

theorem decoder_buffer_bounded:
  assumes "codec_step\<^sup>*\<^sup>* (with_max_length mx, []) (c, buf)"
  shows "length buf \<le> mx \<and> newline \<notin> set buf"
  using codec.reachable_inv [of mx "(with_max_length mx, [])" "(c, buf)"] assms
  by (simp add: codec_init_def codec_bounded_def)

theorem decoder_buffer_bounded_witness:
  "\<exists>c buf. codec_step\<^sup>*\<^sup>* (with_max_length 4, []) (c, buf) \<and> buf = ''ab'' \<and> length buf \<le> 4"
proof -
  let ?c = "\<lparr>lc_max_length = 4, lc_discarding = False, lc_next_index = 2\<rparr>"
  have "drain (with_max_length 4) ([] @ ''toolong'' @ [newline] @ ''ab'') = ([Oversized], ?c, ''ab'')"
    by code_simp
  then have "codec_step (with_max_length 4, []) (?c, ''ab'')" by (rule codec_chunk)
  then have b: "codec_step\<^sup>*\<^sup>* (with_max_length 4, []) (?c, ''ab'')" by (rule r_into_rtranclp)
  note l = decoder_buffer_bounded [OF b, THEN conjunct1]
  show ?thesis
    by (rule exI [of _ ?c], rule exI [of _ "''ab''"]) (intro conjI b l refl)
qed

end
