(* ===== verification/Login.thy ===== *)
theory Login
  imports Passcode
begin

section \<open>The login handshake (\<open>aprsr-core/src/login.rs\<close>)\<close>

text \<open>
  The login line parser over its white-space separated tokens, the passcode check, the banner and
  the acknowledgement. \<open>login_options\<close> is the index loop over the optional keyword groups;
  \<open>login_options_spec\<close> is the same on the token list, which the properties use.
\<close>

datatype login_error =
    NotALogin
  | MissingCallsign
  | InvalidCallsign callsign_error
  | MissingPassKeyword
  | MissingPasscode
  | InvalidPasscode str
  | InvalidUdpPort str

record login_request =
  lr_callsign :: callsign
  lr_passcode :: int
  lr_software :: "str option"
  lr_software_version :: "str option"
  lr_udp_port :: "nat option"
  lr_filter :: "str option"

text \<open>The \<open>while let Some(keyword) = rest.get(i)\<close> loop.\<close>

function login_options ::
  "str list \<Rightarrow> nat \<Rightarrow> login_request \<Rightarrow> (login_error, login_request) result" where
  "login_options rest i request =
     (case get rest i of
        None \<Rightarrow> Inr request
      | Some keyword \<Rightarrow>
          if eq_ignore_ascii_case keyword ''vers'' then
            login_options rest (i + 3)
              (request\<lparr>lr_software := get rest (i + 1), lr_software_version := get rest (i + 2)\<rparr>)
          else if eq_ignore_ascii_case keyword ''udp'' then
            (let port_text = unwrap_or [] (get rest (i + 1)) in
             case parse_u16 port_text of
               None \<Rightarrow> Inl (InvalidUdpPort port_text)
             | Some port \<Rightarrow> login_options rest (i + 2) (request\<lparr>lr_udp_port := Some port\<rparr>))
          else if eq_ignore_ascii_case keyword ''filter'' then
            (let expression = join '' '' (if i + 1 \<le> length rest then drop (i + 1) rest else [])
             in Inr (request\<lparr>lr_filter := (if expression \<noteq> [] then Some expression else None)\<rparr>))
          else login_options rest (i + 1) request)"
  by pat_completeness auto
termination
  by (relation "measure (\<lambda>(rest, i, request). length rest - i)") (auto simp: get_Some)

declare login_options.simps [simp del]

definition login_parse :: "str \<Rightarrow> (login_error, login_request) result" where
  "login_parse line =
     (let tokens = split_ascii_whitespace line in
      case get tokens 0 of
        None \<Rightarrow> Inl NotALogin
      | Some word \<Rightarrow>
      if \<not> eq_ignore_ascii_case word ''user'' then Inl NotALogin
      else
      and_then (ok_or MissingCallsign (get tokens 1)) (\<lambda>callsign_text.
      and_then (map_err InvalidCallsign (parse_login callsign_text)) (\<lambda>callsign.
      case get tokens 2 of
        None \<Rightarrow> Inl MissingPassKeyword
      | Some word \<Rightarrow>
      if \<not> eq_ignore_ascii_case word ''pass'' then Inl MissingPassKeyword
      else
      and_then (ok_or MissingPasscode (get tokens 3)) (\<lambda>passcode_text.
      and_then (ok_or (InvalidPasscode passcode_text) (parse_i32 passcode_text)) (\<lambda>passcode.
      login_options (drop 4 tokens) 0
        \<lparr>lr_callsign = callsign, lr_passcode = passcode, lr_software = None,
         lr_software_version = None, lr_udp_port = None, lr_filter = None\<rparr>)))))"

definition login_verify :: "login_request \<Rightarrow> verification" where
  "login_verify request = verify (callsign_as_str (lr_callsign request)) (lr_passcode request)"

definition banner :: "str \<Rightarrow> str \<Rightarrow> str \<Rightarrow> str" where
  "banner software version server_id =
     ''# '' @ software @ '' '' @ version @ '' '' @ server_id"

fun login_state :: "verification \<Rightarrow> str" where
  "login_state Verified = ''verified''"
| "login_state ReceiveOnly = ''unverified''"
| "login_state Invalid = ''unverified''"

definition login_response :: "str \<Rightarrow> verification \<Rightarrow> str \<Rightarrow> str" where
  "login_response callsign v server_id =
     ''# logresp '' @ callsign @ '' '' @ login_state v @ '', server '' @ server_id"

subsection \<open>The options on the token list\<close>

function options_from ::
  "str list \<Rightarrow> login_request \<Rightarrow> (login_error, login_request) result" where
  "options_from [] request = Inr request"
| "options_from (keyword # ts) request =
     (if eq_ignore_ascii_case keyword ''vers'' then
        options_from (drop 2 ts)
          (request\<lparr>lr_software := get ts 0, lr_software_version := get ts 1\<rparr>)
      else if eq_ignore_ascii_case keyword ''udp'' then
        (case parse_u16 (unwrap_or [] (get ts 0)) of
           None \<Rightarrow> Inl (InvalidUdpPort (unwrap_or [] (get ts 0)))
         | Some port \<Rightarrow> options_from (drop 1 ts) (request\<lparr>lr_udp_port := Some port\<rparr>))
      else if eq_ignore_ascii_case keyword ''filter'' then
        Inr (request\<lparr>lr_filter := (if join '' '' ts \<noteq> [] then Some (join '' '' ts) else None)\<rparr>)
      else options_from ts request)"
  by pat_completeness auto
termination by (relation "measure (\<lambda>(ts, request). length ts)") auto

lemma get_drop_add: "get (drop n xs) i = get xs (n + i)"
  by (auto simp: get_def)

lemma login_options_spec: "login_options rest i request = options_from (drop i rest) request"
proof (induction rest i request rule: login_options.induct)
  case (1 rest i request)
  show ?case
  proof (cases "get rest i")
    case None
    then have "drop i rest = []" by (simp add: get_None)
    with None show ?thesis by (subst login_options.simps) simp
  next
    case (Some k)
    then have d: "drop i rest = k # drop (Suc i) rest" and i: "i < length rest"
      by (auto simp: get_Some Cons_nth_drop_Suc)
    define t where "t = drop (Suc i) rest"
    have g: "get rest (i + 1) = get t 0" "get rest (i + 2) = get t 1"
      "drop (i + 3) rest = drop 2 t" "drop (i + 2) rest = drop 1 t" "drop (i + 1) rest = t"
      by (simp_all add: t_def get_drop_add numeral_3_eq_3)
    have f: "(if i + 1 \<le> length rest then drop (i + 1) rest else []) = t"
      using i by (simp add: t_def)
    consider (vers) "eq_ignore_ascii_case k ''vers''"
      | (udp) "\<not> eq_ignore_ascii_case k ''vers''" "eq_ignore_ascii_case k ''udp''"
      | (filt) "\<not> eq_ignore_ascii_case k ''vers''" "\<not> eq_ignore_ascii_case k ''udp''"
          "eq_ignore_ascii_case k ''filter''"
      | (other) "\<not> eq_ignore_ascii_case k ''vers''" "\<not> eq_ignore_ascii_case k ''udp''"
          "\<not> eq_ignore_ascii_case k ''filter''" by blast
    then show ?thesis
      unfolding d t_def [symmetric]
    proof cases
      case vers
      with "1.IH"(1) [OF Some vers] show "login_options rest i request = options_from (k # t) request"
        by (subst login_options.simps) (simp only: Some g option.case options_from.simps if_True)
    next
      case udp
      show "login_options rest i request = options_from (k # t) request"
      proof (cases "parse_u16 (unwrap_or [] (get t 0))")
        case None
        with udp Some g show ?thesis by (subst login_options.simps) (simp only: Let_def option.case
            options_from.simps if_True if_False)
      next
        case (Some port)
        with "1.IH"(2) [OF \<open>get rest i = Some k\<close> udp refl] udp \<open>get rest i = Some k\<close> g show ?thesis
          by (subst login_options.simps) (simp only: Let_def option.case options_from.simps if_True if_False)
      qed
    next
      case filt
      with Some f show "login_options rest i request = options_from (k # t) request"
        by (subst login_options.simps) (simp only: Let_def option.case options_from.simps if_True if_False)
    next
      case other
      with "1.IH"(3) [OF Some other] Some g
      show "login_options rest i request = options_from (k # t) request"
        by (subst login_options.simps) (simp only: option.case options_from.simps if_False)
    qed
  qed
qed

subsection \<open>Printing a request\<close>

definition token :: "str \<Rightarrow> bool" where
  "token w \<longleftrightarrow> w \<noteq> [] \<and> list_all (\<lambda>x. \<not> is_ascii_ws x) w"

fun udp_tokens :: "nat option \<Rightarrow> str list" where
  "udp_tokens None = []"
| "udp_tokens (Some port) = [''UDP'', show_nat port]"

fun vers_tokens :: "str option \<Rightarrow> str option \<Rightarrow> str list" where
  "vers_tokens None v = []"
| "vers_tokens (Some s) None = [''vers'', s]"
| "vers_tokens (Some s) (Some v) = [''vers'', s, v]"

fun filter_tokens :: "str option \<Rightarrow> str list" where
  "filter_tokens None = []"
| "filter_tokens (Some f) = ''filter'' # split_ascii_whitespace f"

definition login_tokens :: "login_request \<Rightarrow> str list" where
  "login_tokens r =
     [''user'', cs_raw (lr_callsign r), ''pass'', show_int (lr_passcode r)] @
     udp_tokens (lr_udp_port r) @ vers_tokens (lr_software r) (lr_software_version r) @
     filter_tokens (lr_filter r)"

definition login_render :: "login_request \<Rightarrow> str" where
  "login_render r = join '' '' (login_tokens r)"

text \<open>The optional fields a parse can produce.\<close>

definition options_wf :: "login_request \<Rightarrow> bool" where
  "options_wf r \<longleftrightarrow>
     (\<forall>s. lr_software r = Some s \<longrightarrow> token s) \<and> (\<forall>v. lr_software_version r = Some v \<longrightarrow> token v) \<and>
     (lr_software r = None \<longrightarrow> lr_software_version r = None) \<and>
     (lr_software r \<noteq> None \<and> lr_filter r \<noteq> None \<longrightarrow> lr_software_version r \<noteq> None) \<and>
     (\<forall>n. lr_udp_port r = Some n \<longrightarrow> n < 2 ^ 16) \<and>
     (\<forall>f. lr_filter r = Some f \<longrightarrow> (\<exists>ts. ts \<noteq> [] \<and> list_all token ts \<and> f = join '' '' ts))"

definition login_wf :: "login_request \<Rightarrow> bool" where
  "login_wf r \<longleftrightarrow>
     callsign_wf (lr_callsign r) \<and> MIN_LOGIN_LEN \<le> length (cs_raw (lr_callsign r)) \<and>
     - (2 ^ 31) \<le> lr_passcode r \<and> lr_passcode r < 2 ^ 31 \<and> options_wf r"

lemma split_ws_join_tokens: "list_all token ws \<Longrightarrow> split_ascii_whitespace (join '' '' ws) = ws"
  by (rule split_ws_join) (auto simp: token_def list_all_iff)

lemma split_ws_tokens: "list_all token (split_ascii_whitespace s)"
  by (auto simp: list_all_iff token_def dest: split_ws_token)

lemma join_tokens_not_Nil: "ts \<noteq> [] \<Longrightarrow> list_all token ts \<Longrightarrow> join '' '' ts \<noteq> []"
  by (cases ts; cases "tl ts") (auto simp: token_def)

lemma keyword_eqs:
  "eq_ignore_ascii_case ''vers'' ''vers''" "\<not> eq_ignore_ascii_case ''UDP'' ''vers''"
  "eq_ignore_ascii_case ''UDP'' ''udp''" "\<not> eq_ignore_ascii_case ''filter'' ''vers''"
  "\<not> eq_ignore_ascii_case ''filter'' ''udp''" "eq_ignore_ascii_case ''filter'' ''filter''"
  "eq_ignore_ascii_case ''user'' ''user''" "eq_ignore_ascii_case ''pass'' ''pass''"
  by code_simp+

lemma options_filter:
  "(\<exists>ts. ts \<noteq> [] \<and> list_all token ts \<and> f = join '' '' ts) \<Longrightarrow>
     options_from (filter_tokens (Some f)) r = Inr (r\<lparr>lr_filter := Some f\<rparr>)"
  by (auto simp: keyword_eqs split_ws_join_tokens join_tokens_not_Nil)

lemma options_render:
  assumes "options_wf r" and "r0 = r\<lparr>lr_udp_port := None, lr_software := None,
      lr_software_version := None, lr_filter := None\<rparr>"
  shows "options_from (udp_tokens (lr_udp_port r) @
      vers_tokens (lr_software r) (lr_software_version r) @ filter_tokens (lr_filter r)) r0 = Inr r"
proof -
  have r0: "r0\<lparr>lr_udp_port := None\<rparr> = r0"
    by (rule login_request.equality) (simp_all add: assms(2))
  have udp: "options_from (udp_tokens (lr_udp_port r) @ ts) r0 =
      options_from ts (r0\<lparr>lr_udp_port := lr_udp_port r\<rparr>)" for ts
    using assms(1) by (cases "lr_udp_port r") (auto simp: r0 keyword_eqs options_wf_def str_simps)
  have vers: "options_from (vers_tokens (lr_software r) (lr_software_version r) @
        filter_tokens (lr_filter r)) q =
      options_from (filter_tokens (lr_filter r))
        (q\<lparr>lr_software := lr_software r, lr_software_version := lr_software_version r\<rparr>)"
    if "lr_software q = None" "lr_software_version q = None" for q
  proof -
    have q: "q\<lparr>lr_software := None, lr_software_version := None\<rparr> = q"
      by (rule login_request.equality) (simp_all add: that)
    show ?thesis
    using assms(1) that
    by (cases "lr_software r"; cases "lr_software_version r"; cases "lr_filter r")
       (auto simp: q keyword_eqs options_wf_def numeral_2_eq_2 get_def simp del: filter_tokens.simps(2))
  qed
  show ?thesis
  proof (cases "lr_filter r")
    case None
    then show ?thesis using udp vers [of "r0\<lparr>lr_udp_port := lr_udp_port r\<rparr>"] assms(2) by simp
  next
    case (Some f)
    then have "\<exists>ts. ts \<noteq> [] \<and> list_all token ts \<and> f = join '' '' ts"
      using assms(1) by (simp add: options_wf_def)
    from options_filter [OF this]
    show ?thesis using udp vers [of "r0\<lparr>lr_udp_port := lr_udp_port r\<rparr>"] assms(2) Some
      by (simp del: filter_tokens.simps)
  qed
qed

lemma show_int_token: "token (show_int n)" and show_nat_token: "token (show_nat k)"
proof -
  have d: "is_ascii_digit c \<Longrightarrow> \<not> is_ascii_ws c" for c
    by (auto simp: is_ascii_digit_def is_ascii_ws_def)
  have n: "token (show_nat k)" for k
    using show_nat_digits [of k] d by (auto simp: token_def list_all_iff)
  then show "token (show_nat k)" .
  from n show "token (show_int n)"
    by (auto simp: show_int_def token_def is_ascii_ws_def)
qed

lemma callsign_token: "callsign_wf c \<Longrightarrow> token (cs_raw c)"
proof -
  assume "callsign_wf c"
  then have "callsign_parse (cs_raw c) = Inr c" by (simp add: callsign_parse_wf_iff)
  then have "\<exists>r. validate (cs_raw c) = Inr r" by (auto simp: callsign_parse_def res_simps)
  then have "validate_for_packet (cs_raw c) = Inr ()" by (simp add: validate_for_packet_Inr)
  then show ?thesis
    using validate_for_packet_chars [of "cs_raw c"]
    by (auto simp: token_def list_all_iff is_ascii_ws_def is_call_char_iff_ord)
qed

lemma login_tokens_ok: "login_wf r \<Longrightarrow> list_all token (login_tokens r)"
proof -
  assume w: "login_wf r"
  have k: "token ''user''" "token ''pass''" "token ''UDP''" "token ''vers''" "token ''filter''"
    by (simp_all add: token_def is_ascii_ws_def)
  have "list_all token (udp_tokens (lr_udp_port r))"
    by (cases "lr_udp_port r") (simp_all add: k show_nat_token)
  moreover have "list_all token (vers_tokens (lr_software r) (lr_software_version r))"
    using w by (cases "lr_software r"; cases "lr_software_version r")
               (auto simp: k login_wf_def options_wf_def)
  moreover have "list_all token (filter_tokens (lr_filter r))"
    by (cases "lr_filter r") (simp_all add: k split_ws_tokens)
  ultimately show ?thesis
    using w by (simp add: login_tokens_def k show_int_token callsign_token login_wf_def)
qed

lemma login_parse_render: "login_wf r \<Longrightarrow> login_parse (login_render r) = Inr r"
proof -
  assume w: "login_wf r"
  define opts where "opts = udp_tokens (lr_udp_port r) @
      vers_tokens (lr_software r) (lr_software_version r) @ filter_tokens (lr_filter r)"
  have t: "split_ascii_whitespace (login_render r) =
      ''user'' # cs_raw (lr_callsign r) # ''pass'' # show_int (lr_passcode r) # opts"
    using split_ws_join_tokens [OF login_tokens_ok [OF w]]
    by (simp add: login_render_def login_tokens_def opts_def)
  have c: "parse_login (cs_raw (lr_callsign r)) = Inr (lr_callsign r)"
    using w by (simp add: parse_login_def login_wf_def callsign_parse_wf_iff)
  have n: "parse_i32 (show_int (lr_passcode r)) = Some (lr_passcode r)"
    using w by (simp add: parse_signed_show_int login_wf_def)
  have o: "options_from opts (r\<lparr>lr_udp_port := None, lr_software := None,
      lr_software_version := None, lr_filter := None\<rparr>) = Inr r"
    unfolding opts_def by (rule options_render) (use w in \<open>simp_all add: login_wf_def\<close>)
  have r0: "\<lparr>lr_callsign = lr_callsign r, lr_passcode = lr_passcode r, lr_software = None,
      lr_software_version = None, lr_udp_port = None, lr_filter = None\<rparr> =
      r\<lparr>lr_udp_port := None, lr_software := None, lr_software_version := None, lr_filter := None\<rparr>"
    by simp
  show ?thesis
    unfolding login_parse_def Let_def t
    by (simp add: keyword_eqs c n o [folded r0] login_options_spec numeral_2_eq_2 numeral_3_eq_3)
qed

text \<open>What a successful parse can produce.\<close>

lemma token_get: "list_all token ts \<Longrightarrow> get ts i = Some w \<Longrightarrow> token w"
  by (auto simp: get_Some list_all_iff)

lemma list_all_drop: "list_all P xs \<Longrightarrow> list_all P (drop n xs)"
  by (auto simp: list_all_iff dest: in_set_dropD)

lemma options_from_wf:
  assumes "options_from ts r = Inr r'" and "list_all token ts" and "options_wf r"
    and "lr_filter r = None"
    and "lr_software r \<noteq> None \<and> lr_software_version r = None \<Longrightarrow> ts = []"
  shows "options_wf r' \<and> lr_callsign r' = lr_callsign r \<and> lr_passcode r' = lr_passcode r"
  using assms
proof (induction ts r rule: options_from.induct)
  case (1 r)
  then show ?case by simp
next
  case (2 k ts r)
  consider (vers) "eq_ignore_ascii_case k ''vers''"
    | (udp) "\<not> eq_ignore_ascii_case k ''vers''" "eq_ignore_ascii_case k ''udp''"
    | (filt) "\<not> eq_ignore_ascii_case k ''vers''" "\<not> eq_ignore_ascii_case k ''udp''"
        "eq_ignore_ascii_case k ''filter''"
    | (other) "\<not> eq_ignore_ascii_case k ''vers''" "\<not> eq_ignore_ascii_case k ''udp''"
        "\<not> eq_ignore_ascii_case k ''filter''" by blast
  then show ?case
  proof cases
    case vers
    let ?r = "r\<lparr>lr_software := get ts 0, lr_software_version := get ts 1\<rparr>"
    have g: "get ts 0 = None \<Longrightarrow> get ts 1 = None" "get ts 1 = None \<Longrightarrow> drop 2 ts = []"
      by (auto simp: get_None)
    have w: "options_wf ?r"
      using "2.prems"(2-4) g token_get [of ts] by (auto simp: options_wf_def)
    show ?thesis
      using "2.IH"(1) [OF vers _ list_all_drop w] vers "2.prems" g(2) by auto
  next
    case udp
    then obtain port where p: "parse_u16 (unwrap_or [] (get ts 0)) = Some port"
      using "2.prems"(1) by (auto split: option.splits)
    let ?r = "r\<lparr>lr_udp_port := Some port\<rparr>"
    have w: "options_wf ?r"
      using "2.prems"(3) parse_unsigned_bound [OF p] by (auto simp: options_wf_def)
    show ?thesis
      using "2.IH"(2) [OF udp p _ list_all_drop w] udp p "2.prems" by auto
  next
    case filt
    have "lr_software r = None \<or> lr_software_version r \<noteq> None" using "2.prems"(5) by (cases "lr_software r") auto
    moreover have "list_all token ts" using "2.prems"(2) by simp
    moreover have "join '' '' ts \<noteq> [] \<Longrightarrow> ts \<noteq> []" by auto
    ultimately show ?thesis
      using "2.prems"(1,3) filt by (auto simp: options_wf_def split: if_splits)
  next
    case other
    show ?thesis using "2.IH"(3) [OF other] other "2.prems" by auto
  qed
qed

lemma first_four:
  "get t 0 = Some a \<Longrightarrow> get t 1 = Some b \<Longrightarrow> get t 2 = Some c \<Longrightarrow> get t 3 = Some d \<Longrightarrow>
     t = a # b # c # d # drop 4 t"
  by (cases t; cases "tl t"; cases "tl (tl t)"; cases "tl (tl (tl t))")
     (simp_all add: numeral_2_eq_2 numeral_3_eq_3)

lemma login_parse_InrD:
  assumes "login_parse line = Inr r"
  obtains k c p n opts where
    "split_ascii_whitespace line = k # c # p # n # opts"
    "eq_ignore_ascii_case k ''user''" "eq_ignore_ascii_case p ''pass''"
    "parse_login c = Inr (lr_callsign r)" "parse_i32 n = Some (lr_passcode r)"
    "options_from opts \<lparr>lr_callsign = lr_callsign r, lr_passcode = lr_passcode r,
       lr_software = None, lr_software_version = None, lr_udp_port = None, lr_filter = None\<rparr> = Inr r"
proof -
  let ?t = "split_ascii_whitespace line"
  from assms obtain k c p n cs ps where g: "get ?t 0 = Some k" "get ?t 1 = Some c"
      "get ?t 2 = Some p" "get ?t 3 = Some n"
    and e: "eq_ignore_ascii_case k ''user''" "eq_ignore_ascii_case p ''pass''"
      "parse_login c = Inr cs" "parse_i32 n = Some ps"
    and o: "options_from (drop 4 ?t) \<lparr>lr_callsign = cs, lr_passcode = ps,
       lr_software = None, lr_software_version = None, lr_udp_port = None, lr_filter = None\<rparr> = Inr r"
    unfolding login_parse_def Let_def login_options_spec
    by (auto simp: res_simps split: option.splits if_splits)
  note t = first_four [OF g]
  have "list_all token (drop 4 ?t)" by (rule list_all_drop [OF split_ws_tokens])
  from options_from_wf [OF o this] have "lr_callsign r = cs" "lr_passcode r = ps"
    by (auto simp: options_wf_def)
  with that [OF t e(1,2)] e(3,4) o show thesis by simp
qed

lemma login_parse_wf: "login_parse line = Inr r \<Longrightarrow> login_wf r"
proof -
  assume "login_parse line = Inr r"
  then obtain k c p n opts where r: "split_ascii_whitespace line = k # c # p # n # opts"
    "parse_login c = Inr (lr_callsign r)" "parse_i32 n = Some (lr_passcode r)"
    "options_from opts \<lparr>lr_callsign = lr_callsign r, lr_passcode = lr_passcode r,
       lr_software = None, lr_software_version = None, lr_udp_port = None, lr_filter = None\<rparr> = Inr r"
    by (rule login_parse_InrD)
  have "callsign_parse c = Inr (lr_callsign r)" "MIN_LOGIN_LEN \<le> length c"
    using r(2) by (auto simp: parse_login_def split: if_splits)
  then have "callsign_wf (lr_callsign r) \<and> MIN_LOGIN_LEN \<le> length (cs_raw (lr_callsign r))"
    by (simp add: callsign_parse_wf_iff)
  moreover have "- (2 ^ 31) \<le> lr_passcode r \<and> lr_passcode r < 2 ^ 31"
    using parse_signed_bounds [OF r(3)] by simp
  moreover have "list_all token opts" using split_ws_tokens [of line] r(1) by simp
  ultimately show ?thesis
    using options_from_wf [OF r(4)] by (simp add: login_wf_def options_wf_def)
qed

interpretation login_codec: wire_codec login_parse login_render login_wf
  by unfold_locales (fact login_parse_wf, fact login_parse_render)

subsection \<open>Properties\<close>

text \<open>C35: every login line the parser accepts describes a well-formed request (a login callsign of
  at least three bytes, a 32-bit passcode, one-word software fields, a 16-bit port, a non-empty
  filter), and printing that request as a canonical login line and parsing it again gives the same
  request.\<close>

theorem login_reprint:
  assumes "login_parse line = Inr r"
  shows "login_wf r \<and> login_parse (login_render r) = Inr r"
  using assms login_codec.parse_wf login_codec.reparse by blast

definition sample_login :: str where
  "sample_login = ''user AE5PL-TS  pass -1 x vers soft 1.0_05 filter r/33.25/-96.5/50  t/p''"

definition sample_request :: login_request where
  "sample_request =
     \<lparr>lr_callsign = \<lparr>cs_raw = ''AE5PL-TS'', cs_separator = Some 5\<rparr>, lr_passcode = -1,
      lr_software = Some ''soft'', lr_software_version = Some ''1.0_05'', lr_udp_port = None,
      lr_filter = Some ''r/33.25/-96.5/50 t/p''\<rparr>"

theorem login_reprint_witness:
  "login_parse sample_login = Inr sample_request \<and>
   login_parse (login_render sample_request) = Inr sample_request"
proof -
  have "login_parse sample_login = Inr sample_request" by code_simp
  with login_reprint [OF this] show ?thesis by blast
qed

text \<open>The acknowledgement says "verified" exactly when the line carried the passcode of the
  callsign it names; the words \<open>user\<close> and \<open>pass\<close>, the callsign and the passcode are the first four words
  of the line.\<close>

theorem login_verified_iff_passcode:
  assumes "login_parse line = Inr r"
  shows "\<exists>u p n opts. split_ascii_whitespace line = u # cs_raw (lr_callsign r) # p # n # opts \<and>
    parse_i32 n = Some (lr_passcode r) \<and>
    (login_response c (login_verify r) srv = ''# logresp '' @ c @ '' verified, server '' @ srv \<longleftrightarrow>
       lr_passcode r = uint (generate (cs_raw (lr_callsign r))))"
proof -
  from assms obtain k c' p n opts where
    s: "split_ascii_whitespace line = k # c' # p # n # opts" "parse_i32 n = Some (lr_passcode r)"
    and c: "parse_login c' = Inr (lr_callsign r)"
    by (rule login_parse_InrD)
  have "c' = cs_raw (lr_callsign r)"
    using c by (auto simp: parse_login_def callsign_parse_wf_iff split: if_splits)
  moreover have "login_response c (login_verify r) srv =
      ''# logresp '' @ c @ '' verified, server '' @ srv \<longleftrightarrow> login_verify r = Verified"
    by (cases "login_verify r") (simp_all add: login_response_def)
  ultimately show ?thesis
    using s by (auto simp: login_verify_def callsign_as_str_def verify_Verified_iff)
qed

theorem login_verified_iff_passcode_witness:
  "\<exists>r. login_parse ''user N0CALL pass 13023'' = Inr r \<and>
     login_response ''N0CALL'' (login_verify r) ''T2TEST'' =
       ''# logresp N0CALL verified, server T2TEST''"
proof -
  let ?r = "\<lparr>lr_callsign = \<lparr>cs_raw = ''N0CALL'', cs_separator = None\<rparr>, lr_passcode = 13023,
      lr_software = None, lr_software_version = None, lr_udp_port = None, lr_filter = None\<rparr>"
  have p: "login_parse ''user N0CALL pass 13023'' = Inr ?r" by code_simp
  have "uint (generate (cs_raw (lr_callsign ?r))) = 13023" by code_simp
  with login_verified_iff_passcode [OF p, of "''N0CALL''" "''T2TEST''"]
  have "login_response ''N0CALL'' (login_verify ?r) ''T2TEST'' =
      ''# logresp '' @ ''N0CALL'' @ '' verified, server '' @ ''T2TEST''"
    by auto
  with p show ?thesis by auto
qed

end
