(* ===== verification/F64.thy ===== *)
theory F64
  imports Text_Num Complex_Main
begin

section \<open>Double precision numbers\<close>

text \<open>
  The \<open>f64\<close> operations the program uses, as IEEE 754 binary64 with rounding to nearest, ties to
  even, on explicit sign, mantissa and exponent, so that they evaluate. \<open>round_pos\<close> is the one
  rounding step; addition, multiplication, division, square root and decimal parsing compute an
  exact result (or enough of its bits and whether any were cut off) and round it. The functions whose
  precision the standard library leaves open (\<open>sin\<close>, \<open>cos\<close>, \<open>asin\<close>, \<open>powi\<close>) are a parameter, the
  record \<open>libm\<close>.
\<close>

datatype f64 =
    NaN
  | Infinite bool
  | Finite bool int int

text \<open>The number of binary digits of a non-negative integer.\<close>

function bitlen :: "int \<Rightarrow> int" where
  "bitlen n = (if n \<le> 0 then 0 else 1 + bitlen (n div 2))"
  by pat_completeness auto
termination by (relation "measure nat") auto

declare bitlen.simps [simp del]

definition zero_f64 :: "bool \<Rightarrow> f64" where
  "zero_f64 s = Finite s 0 (-1074)"

text \<open>
  Round \<open>m * 2 ^ e\<close> (a little more when \<open>sticky\<close>) to 53 bits, exponents from -1074 to 971. A caller
  that sets \<open>sticky\<close> provides at least 55 bits.
\<close>

definition round_div :: "int \<Rightarrow> int \<Rightarrow> bool \<Rightarrow> int" where
  "round_div m p sticky =
     (let q = m div p; r = m mod p; half = p div 2
      in if r > half \<or> r = half \<and> (sticky \<or> odd q) then q + 1 else q)"

definition round_pos :: "bool \<Rightarrow> int \<Rightarrow> int \<Rightarrow> bool \<Rightarrow> f64" where
  "round_pos s m e sticky =
     (if m = 0 then zero_f64 s
      else
        (let e' = max (e + bitlen m - 53) (-1074);
             (q, f) =
               (if e' \<le> e then (m * 2 ^ nat (e - e'), e')
                else
                  (let q' = round_div m (2 ^ nat (e' - e)) sticky
                   in if q' = 2 ^ 53 then (2 ^ 52, e' + 1) else (q', e')))
         in if f > 971 then Infinite s else Finite s q f))"

definition signed :: "bool \<Rightarrow> int \<Rightarrow> int" where
  "signed s m = (if s then - m else m)"

definition scaled :: "bool \<Rightarrow> int \<Rightarrow> int \<Rightarrow> int \<Rightarrow> int" where
  "scaled s m e k = (if m = 0 then 0 else signed s m * 2 ^ nat (e - k))"

text \<open>A common exponent for two numbers; a zero does not need one.\<close>

definition common_exp :: "int \<Rightarrow> int \<Rightarrow> int \<Rightarrow> int \<Rightarrow> int" where
  "common_exp m e n f = (if m = 0 then f else if n = 0 then e else min e f)"

fun neg_f64 :: "f64 \<Rightarrow> f64" where
  "neg_f64 NaN = NaN"
| "neg_f64 (Infinite s) = Infinite (\<not> s)"
| "neg_f64 (Finite s m e) = Finite (\<not> s) m e"

fun add_f64 :: "f64 \<Rightarrow> f64 \<Rightarrow> f64" where
  "add_f64 (Finite s m e) (Finite t n f) =
     (let k = common_exp m e n f; z = scaled s m e k + scaled t n f k in
      if z = 0 then zero_f64 (s \<and> t) else round_pos (z < 0) \<bar>z\<bar> k False)"
| "add_f64 NaN y = NaN"
| "add_f64 x NaN = NaN"
| "add_f64 (Infinite s) (Infinite t) = (if s = t then Infinite s else NaN)"
| "add_f64 (Infinite s) (Finite t n f) = Infinite s"
| "add_f64 (Finite s m e) (Infinite t) = Infinite t"

definition sub_f64 :: "f64 \<Rightarrow> f64 \<Rightarrow> f64" where
  "sub_f64 x y = add_f64 x (neg_f64 y)"

fun mul_f64 :: "f64 \<Rightarrow> f64 \<Rightarrow> f64" where
  "mul_f64 (Finite s m e) (Finite t n f) = round_pos (s \<noteq> t) (m * n) (e + f) False"
| "mul_f64 NaN y = NaN"
| "mul_f64 x NaN = NaN"
| "mul_f64 (Infinite s) (Infinite t) = Infinite (s \<noteq> t)"
| "mul_f64 (Infinite s) (Finite t n f) = (if n = 0 then NaN else Infinite (s \<noteq> t))"
| "mul_f64 (Finite s m e) (Infinite t) = (if m = 0 then NaN else Infinite (s \<noteq> t))"

text \<open>The quotient of two naturals times a power of two, with at least 60 bits before rounding.\<close>

definition ratio_f64 :: "bool \<Rightarrow> int \<Rightarrow> int \<Rightarrow> int \<Rightarrow> f64" where
  "ratio_f64 s n d e =
     (let k = max 0 (64 + bitlen d - bitlen n); n' = n * 2 ^ nat k
      in round_pos s (n' div d) (e - k) (n' mod d \<noteq> 0))"

fun div_f64 :: "f64 \<Rightarrow> f64 \<Rightarrow> f64" where
  "div_f64 (Finite s m e) (Finite t n f) =
     (if n = 0 then (if m = 0 then NaN else Infinite (s \<noteq> t))
      else ratio_f64 (s \<noteq> t) m n (e - f))"
| "div_f64 NaN y = NaN"
| "div_f64 x NaN = NaN"
| "div_f64 (Infinite s) (Infinite t) = NaN"
| "div_f64 (Infinite s) (Finite t n f) = Infinite (s \<noteq> t)"
| "div_f64 (Finite s m e) (Infinite t) = zero_f64 (s \<noteq> t)"

fun isqrt_bits :: "int \<Rightarrow> nat \<Rightarrow> int \<Rightarrow> int" where
  "isqrt_bits n 0 r = r"
| "isqrt_bits n (Suc k) r =
     (let c = r + 2 ^ k in isqrt_bits n k (if c * c \<le> n then c else r))"

definition isqrt :: "int \<Rightarrow> int" where
  "isqrt n = isqrt_bits n (nat (bitlen n div 2 + 1)) 0"

fun sqrt_f64 :: "f64 \<Rightarrow> f64" where
  "sqrt_f64 NaN = NaN"
| "sqrt_f64 (Infinite s) = (if s then NaN else Infinite False)"
| "sqrt_f64 (Finite s m e) =
     (if m = 0 then Finite s m e
      else if s then NaN
      else
        (let k = (if even e then 120 else 121); n = m * 2 ^ nat k; r = isqrt n
         in round_pos False r ((e - k) div 2) (r * r \<noteq> n)))"

fun lt_f64 :: "f64 \<Rightarrow> f64 \<Rightarrow> bool" where
  "lt_f64 (Finite s m e) (Finite t n f) =
     (let k = common_exp m e n f in scaled s m e k < scaled t n f k)"
| "lt_f64 NaN y = False"
| "lt_f64 x NaN = False"
| "lt_f64 (Infinite s) (Infinite t) = (s \<and> \<not> t)"
| "lt_f64 (Infinite s) (Finite t n f) = s"
| "lt_f64 (Finite s m e) (Infinite t) = (\<not> t)"

fun le_f64 :: "f64 \<Rightarrow> f64 \<Rightarrow> bool" where
  "le_f64 (Finite s m e) (Finite t n f) =
     (let k = common_exp m e n f in scaled s m e k \<le> scaled t n f k)"
| "le_f64 NaN y = False"
| "le_f64 x NaN = False"
| "le_f64 (Infinite s) (Infinite t) = (s \<or> \<not> t)"
| "le_f64 (Infinite s) (Finite t n f) = s"
| "le_f64 (Finite s m e) (Infinite t) = (\<not> t)"

fun is_finite :: "f64 \<Rightarrow> bool" where
  "is_finite (Finite s m e) = True"
| "is_finite x = False"

definition f64_of_int :: "int \<Rightarrow> f64" where
  "f64_of_int i = round_pos (i < 0) \<bar>i\<bar> 0 False"

definition clamp_f64 :: "f64 \<Rightarrow> f64 \<Rightarrow> f64 \<Rightarrow> f64" where
  "clamp_f64 x lo hi = (if lt_f64 x lo then lo else if lt_f64 hi x then hi else x)"

definition pi_f64 :: f64 where
  "pi_f64 = ratio_f64 False 314159265358979323846264338327950288 100000000000000000000000000000000000 0"

definition to_radians :: "f64 \<Rightarrow> f64" where
  "to_radians x = mul_f64 x (div_f64 pi_f64 (f64_of_int 180))"

record libm =
  lm_sin :: "f64 \<Rightarrow> f64"
  lm_cos :: "f64 \<Rightarrow> f64"
  lm_asin :: "f64 \<Rightarrow> f64"
  lm_powi :: "f64 \<Rightarrow> int \<Rightarrow> f64"

subsection \<open>Decimal parsing (\<open>str::parse::<f64>\<close>)\<close>

text \<open>
  \<open>[+-]? ( inf | infinity | nan | digits [. digits] [e [+-] digits] )\<close>, the words in any case, with
  digits on at least one side of the point.
\<close>

definition strip_sign :: "str \<Rightarrow> bool \<times> str" where
  "strip_sign s =
     (case s of
        [] \<Rightarrow> (False, [])
      | c # cs \<Rightarrow> if c = CHR ''-'' then (True, cs) else if c = CHR ''+'' then (False, cs) else (False, s))"

definition parse_exponent :: "str \<Rightarrow> int option" where
  "parse_exponent s =
     (if s = [] then Some 0
      else if hd s = CHR ''e'' \<or> hd s = CHR ''E'' then
        (case strip_sign (tl s) of
           (neg, ds) \<Rightarrow> map_option (\<lambda>n. if neg then - int n else int n) (parse_nat ds))
      else None)"

definition digits_int :: "str \<Rightarrow> int" where
  "digits_int s = foldl (\<lambda>n c. 10 * n + int (digit_val c)) 0 s"

definition decimal_f64 :: "bool \<Rightarrow> int \<Rightarrow> int \<Rightarrow> f64" where
  "decimal_f64 s n e =
     (if 0 \<le> e then ratio_f64 s (n * 10 ^ nat e) 1 0 else ratio_f64 s n (10 ^ nat (- e)) 0)"

definition parse_f64 :: "str \<Rightarrow> f64 option" where
  "parse_f64 text =
     (case strip_sign text of (s, body) \<Rightarrow>
        if to_ascii_lowercase body = ''inf'' \<or> to_ascii_lowercase body = ''infinity''
        then Some (Infinite s)
        else if to_ascii_lowercase body = ''nan'' then Some NaN
        else
          (let ip = takeWhile is_ascii_digit body; r = dropWhile is_ascii_digit body;
               (fp, ex) =
                 (if r \<noteq> [] \<and> hd r = CHR ''.''
                  then (takeWhile is_ascii_digit (tl r), dropWhile is_ascii_digit (tl r))
                  else ([], r))
           in if ip = [] \<and> fp = [] then None
              else map_option (\<lambda>e. decimal_f64 s (digits_int (ip @ fp)) (e - int (length fp)))
                     (parse_exponent ex)))"

subsection \<open>The numbers they stand for\<close>

definition f64_val :: "f64 \<Rightarrow> rat" where
  "f64_val x =
     (case x of
        Finite s m e \<Rightarrow> of_int (signed s m) * (if 0 \<le> e then 2 ^ nat e else 1 / 2 ^ nat (- e))
      | _ \<Rightarrow> 0)"

definition pow2 :: "int \<Rightarrow> rat" where
  "pow2 e = (if 0 \<le> e then 2 ^ nat e else 1 / 2 ^ nat (- e))"

lemma f64_val_Finite: "f64_val (Finite s m e) = of_int (signed s m) * pow2 e"
  by (simp add: f64_val_def pow2_def)

lemma pow2_pos: "0 < pow2 e"
  by (simp add: pow2_def)

lemma pow2_powi: "pow2 e = 2 powi e"
  by (cases "0 \<le> e") (simp_all add: pow2_def power_int_def power_one_over [symmetric] inverse_eq_divide)

lemma pow2_shift: "k \<le> e \<Longrightarrow> pow2 e = 2 ^ nat (e - k) * pow2 k"
proof -
  assume k: "k \<le> e"
  have "pow2 e = 2 powi ((e - k) + k)" by (simp add: pow2_powi)
  also have "\<dots> = 2 powi (e - k) * 2 powi k" by (rule power_int_add) simp
  also have "(2 :: rat) powi (e - k) = 2 ^ nat (e - k)" using k by (simp add: power_int_def)
  finally show ?thesis by (simp add: pow2_powi)
qed

lemma scaled_val:
  "m = 0 \<or> k \<le> e \<Longrightarrow> of_int (scaled s m e k) * pow2 k = f64_val (Finite s m e)"
  by (auto simp: f64_val_Finite scaled_def pow2_shift signed_def)

lemma common_exp_le:
  "m = 0 \<or> common_exp m e n f \<le> e" "n = 0 \<or> common_exp m e n f \<le> f"
  by (auto simp: common_exp_def)

lemma le_f64_val:
  "is_finite x \<Longrightarrow> is_finite y \<Longrightarrow> le_f64 x y \<longleftrightarrow> f64_val x \<le> f64_val y"
proof (cases x; cases y; simp)
  fix s m e t n f
  let ?k = "common_exp m e n f"
  note v = scaled_val [OF common_exp_le(1) [of m e n f], of s]
    scaled_val [OF common_exp_le(2) [of n m e f], of t]
  show "(let k = ?k in scaled s m e k \<le> scaled t n f k) \<longleftrightarrow>
      f64_val (Finite s m e) \<le> f64_val (Finite t n f)"
    unfolding v [symmetric] Let_def using pow2_pos [of ?k] by (simp add: mult_le_cancel_right)
qed

lemma lt_f64_val:
  "is_finite x \<Longrightarrow> is_finite y \<Longrightarrow> lt_f64 x y \<longleftrightarrow> f64_val x < f64_val y"
proof (cases x; cases y; simp)
  fix s m e t n f
  let ?k = "common_exp m e n f"
  note v = scaled_val [OF common_exp_le(1) [of m e n f], of s]
    scaled_val [OF common_exp_le(2) [of n m e f], of t]
  show "(let k = ?k in scaled s m e k < scaled t n f k) \<longleftrightarrow>
      f64_val (Finite s m e) < f64_val (Finite t n f)"
    unfolding v [symmetric] Let_def using pow2_pos [of ?k] by (simp add: mult_less_cancel_right)
qed

lemma le_f64_NaN [simp]: "\<not> le_f64 NaN y" "\<not> le_f64 x NaN" "\<not> lt_f64 NaN y" "\<not> lt_f64 x NaN"
  by (cases y; simp) (cases x; simp)+

lemma le_f64_finite: "le_f64 a x \<Longrightarrow> le_f64 x b \<Longrightarrow> is_finite a \<Longrightarrow> is_finite b \<Longrightarrow> is_finite x"
  by (cases a; cases x; cases b) auto

subsection \<open>Rounding\<close>

text \<open>The result is within half a unit of the last place of the rounded number.\<close>

lemma round_div_error:
  assumes "even p" and "0 < p"
  shows "\<bar>round_div m p False * p - m\<bar> * 2 \<le> p"
proof -
  define q r where "q = m div p" and "r = m mod p"
  have m: "m = q * p + r" and r: "0 \<le> r" "r < p"
    using assms by (simp_all add: q_def r_def)
  have p: "p = 2 * (p div 2)" using assms(1) by simp
  show ?thesis
  proof (cases "r > p div 2 \<or> r = p div 2 \<and> odd q")
    case True
    then have "round_div m p False = q + 1" by (simp add: round_div_def q_def r_def)
    moreover have "\<bar>(q + 1) * p - m\<bar> = p - r" using m r by (simp add: algebra_simps)
    ultimately show ?thesis using True p by auto
  next
    case False
    then have "round_div m p False = q" by (auto simp: round_div_def q_def r_def Let_def)
    moreover have "\<bar>q * p - m\<bar> = r" using m r by simp
    ultimately show ?thesis using False p by auto
  qed
qed

lemma round_pos_shift:
  assumes "m \<noteq> 0" and "e < max (e + bitlen m - 53) (-1074)"
    and "round_pos s m e sticky = Finite s' q f"
  shows "s' = s" and "round_div m (2 ^ nat (max (e + bitlen m - 53) (-1074) - e)) sticky = 2 ^ 53 \<and>
      q = 2 ^ 52 \<and> f = max (e + bitlen m - 53) (-1074) + 1 \<or>
      q = round_div m (2 ^ nat (max (e + bitlen m - 53) (-1074) - e)) sticky \<and>
      f = max (e + bitlen m - 53) (-1074)"
  using assms unfolding round_pos_def Let_def
  by (auto split: if_splits prod.splits)

lemma round_pos_nearest:
  assumes "0 < m" and "round_pos s m e False = Finite s' q f"
  shows "s' = s" and "\<bar>of_int q * pow2 f - of_int m * pow2 e\<bar> * 2 \<le> pow2 f"
proof -
  define E where "E = max (e + bitlen m - 53) (-1074)"
  have "s' = s \<and> \<bar>of_int q * pow2 f - of_int m * pow2 e\<bar> * 2 \<le> pow2 f"
  proof (cases "E \<le> e")
    case True
    then have "s' = s" "q = m * 2 ^ nat (e - E)" "f = E"
      using assms by (auto simp: round_pos_def Let_def E_def split: if_splits)
    then show ?thesis using pow2_shift [OF True] pow2_pos [of E] by simp
  next
    case False
    define P where "P = (2 ^ nat (E - e) :: int)"
    define Q where "Q = round_div m P False"
    have r: "s' = s" "Q = 2 ^ 53 \<and> q = 2 ^ 52 \<and> f = E + 1 \<or> q = Q \<and> f = E"
      using round_pos_shift [OF _ _ assms(2)] assms(1) False
      by (auto simp: Q_def P_def E_def)
    have e: "pow2 E = of_int P * pow2 e" using False pow2_shift [of e E] by (simp add: P_def)
    have "even P" "0 < P" using False by (simp_all add: P_def)
    then have "\<bar>Q * P - m\<bar> * 2 \<le> P" unfolding Q_def by (rule round_div_error)
    then have "of_int (\<bar>Q * P - m\<bar> * 2) * pow2 e \<le> of_int P * pow2 e"
      using pow2_pos [of e] by (intro mult_right_mono) (simp_all only: of_int_le_iff less_imp_le)
    moreover have "of_int (\<bar>Q * P - m\<bar> * 2) * pow2 e =
        \<bar>of_int Q * pow2 E - of_int m * pow2 e\<bar> * 2"
    proof -
      have "of_int Q * pow2 E - of_int m * pow2 e = of_int (Q * P - m) * pow2 e"
        unfolding e by (simp add: algebra_simps)
      then show ?thesis using pow2_pos [of e] by (simp add: abs_mult)
    qed
    ultimately have n: "\<bar>of_int Q * pow2 E - of_int m * pow2 e\<bar> * 2 \<le> pow2 E" unfolding e by simp
    have "of_int q * pow2 f = of_int Q * pow2 E \<and> pow2 E \<le> pow2 f"
      using r(2)
    proof (elim disjE conjE)
      assume "Q = 2 ^ 53" "q = 2 ^ 52" "f = E + 1"
      moreover have "pow2 (E + 1) = 2 * pow2 E" using pow2_shift [of E "E + 1"] by simp
      ultimately show ?thesis using pow2_pos [of E] by simp
    qed simp
    with n r(1) show ?thesis by (metis order_trans)
  qed
  then show "s' = s" "\<bar>of_int q * pow2 f - of_int m * pow2 e\<bar> * 2 \<le> pow2 f" by blast+
qed

end
