(* ===== verification/Position.thy ===== *)
theory Position
  imports F64
begin

section \<open>Position encodings (\<open>aprsr-core/src/aprs/position.rs\<close>)\<close>

text \<open>
  The three decoders (uncompressed, compressed, Mic-E) over the bytes of the information field, with
  the double precision arithmetic of the code. Each ends in \<open>position_new\<close>, whose range check is
  what \<open>position_ok\<close> records.
\<close>

record position =
  ps_latitude :: f64
  ps_longitude :: f64

record symbol =
  sy_table :: uchar
  sy_code :: uchar

definition in_closed :: "f64 \<Rightarrow> f64 \<Rightarrow> f64 \<Rightarrow> bool" where
  "in_closed lo hi x \<longleftrightarrow> le_f64 lo x \<and> le_f64 x hi"

definition position_new :: "f64 \<Rightarrow> f64 \<Rightarrow> position option" where
  "position_new latitude longitude =
     (if is_finite latitude \<and> is_finite longitude \<and>
         in_closed (f64_of_int (-90)) (f64_of_int 90) latitude \<and>
         in_closed (f64_of_int (-180)) (f64_of_int 180) longitude
      then Some \<lparr>ps_latitude = latitude, ps_longitude = longitude\<rparr> else None)"

definition is_weather :: "symbol \<Rightarrow> bool" where
  "is_weather sy \<longleftrightarrow> sy_code sy = 95"

definition has_valid_table :: "symbol \<Rightarrow> bool" where
  "has_valid_table sy \<longleftrightarrow>
     sy_table sy = 47 \<or> sy_table sy = 92 \<or> 48 \<le> sy_table sy \<and> sy_table sy \<le> 57 \<or>
     65 \<le> sy_table sy \<and> sy_table sy \<le> 90"

text \<open>\<open>b.get(i..j)\<close> on bytes.\<close>

definition slice :: "str \<Rightarrow> nat \<Rightarrow> nat \<Rightarrow> str option" where
  "slice b i j = (if i \<le> j \<and> j \<le> length b then Some (take (j - i) (drop i b)) else None)"

definition digit :: "char \<Rightarrow> int option" where
  "digit byte = (if is_ascii_digit byte then Some (int (ord byte) - 48) else None)"

definition digit_or_space :: "char \<Rightarrow> int option" where
  "digit_or_space byte = (if byte = CHR '' '' then Some 0 else digit byte)"

definition two_digits :: "str \<Rightarrow> int option" where
  "two_digits bytes =
     Option.bind (get bytes 0) (\<lambda>x. Option.bind (digit x) (\<lambda>a.
     Option.bind (get bytes 1) (\<lambda>y. Option.bind (digit y) (\<lambda>b. Some (a * 10 + b)))))"

definition three_digits :: "str \<Rightarrow> int option" where
  "three_digits bytes =
     Option.bind (get bytes 0) (\<lambda>x. Option.bind (digit x) (\<lambda>a.
     Option.bind (get bytes 1) (\<lambda>y. Option.bind (digit y) (\<lambda>b.
     Option.bind (get bytes 2) (\<lambda>z. Option.bind (digit z) (\<lambda>c. Some (a * 100 + b * 10 + c)))))))"

definition two_digits_ambiguous :: "str \<Rightarrow> int option" where
  "two_digits_ambiguous bytes =
     Option.bind (get bytes 0) (\<lambda>x. Option.bind (digit_or_space x) (\<lambda>a.
     Option.bind (get bytes 1) (\<lambda>y. Option.bind (digit_or_space y) (\<lambda>b. Some (a * 10 + b)))))"

text \<open>\<open>deg + (min + hun / 100.0) / 60.0\<close>\<close>

definition degrees :: "f64 \<Rightarrow> f64 \<Rightarrow> f64 \<Rightarrow> f64" where
  "degrees deg mins hun =
     add_f64 deg (div_f64 (add_f64 mins (div_f64 hun (f64_of_int 100))) (f64_of_int 60))"

definition with_symbol :: "symbol \<Rightarrow> position option \<Rightarrow> (position \<times> symbol) option" where
  "with_symbol sy p = map_option (\<lambda>p. (p, sy)) p"

definition parse_uncompressed :: "str \<Rightarrow> (position \<times> symbol) option" where
  "parse_uncompressed b =
     (if length b < 19 then None
      else
      Option.bind (Option.bind (slice b 0 2) two_digits) (\<lambda>lat_deg.
      Option.bind (Option.bind (slice b 2 4) two_digits_ambiguous) (\<lambda>lat_min.
      if get b 4 \<noteq> Some CHR ''.'' then None
      else
      Option.bind (Option.bind (slice b 5 7) two_digits_ambiguous) (\<lambda>lat_hun.
      Option.bind (if get b 7 = Some CHR ''N'' then Some True
                   else if get b 7 = Some CHR ''S'' then Some False else None) (\<lambda>north.
      Option.bind (get b 8) (\<lambda>table.
      Option.bind (Option.bind (slice b 9 12) three_digits) (\<lambda>lon_deg.
      Option.bind (Option.bind (slice b 12 14) two_digits_ambiguous) (\<lambda>lon_min.
      if get b 14 \<noteq> Some CHR ''.'' then None
      else
      Option.bind (Option.bind (slice b 15 17) two_digits_ambiguous) (\<lambda>lon_hun.
      Option.bind (if get b 17 = Some CHR ''E'' then Some True
                   else if get b 17 = Some CHR ''W'' then Some False else None) (\<lambda>east.
      Option.bind (get b 18) (\<lambda>code.
      (let symbol = \<lparr>sy_table = ord table, sy_code = ord code\<rparr> in
       if \<not> has_valid_table symbol then None
       else
         (let lat = degrees (f64_of_int lat_deg) (f64_of_int lat_min) (f64_of_int lat_hun);
              lon = degrees (f64_of_int lon_deg) (f64_of_int lon_min) (f64_of_int lon_hun)
          in with_symbol symbol
               (position_new (if north then lat else neg_f64 lat)
                             (if east then lon else neg_f64 lon)))))))))))))))"

definition COMPRESSED_LAT_DIVISOR :: f64 where "COMPRESSED_LAT_DIVISOR = f64_of_int 380926"
definition COMPRESSED_LON_DIVISOR :: f64 where "COMPRESSED_LON_DIVISOR = f64_of_int 190463"

text \<open>\<open>value.checked_mul(91)?.checked_add(u32::from(byte - 33))?\<close> on \<open>u32\<close>.\<close>

fun base91_loop :: "int \<Rightarrow> str \<Rightarrow> int option" where
  "base91_loop value [] = Some value"
| "base91_loop value (byte # bytes) =
     (if \<not> (33 \<le> ord byte \<and> ord byte \<le> 124) then None
      else if value * 91 \<ge> 2 ^ 32 then None
      else if value * 91 + (int (ord byte) - 33) \<ge> 2 ^ 32 then None
      else base91_loop (value * 91 + (int (ord byte) - 33)) bytes)"

definition base91 :: "str \<Rightarrow> int option" where
  "base91 bytes = base91_loop 0 bytes"

definition parse_compressed :: "str \<Rightarrow> (position \<times> symbol) option" where
  "parse_compressed b =
     (if length b < 13 then None
      else
      Option.bind (get b 0) (\<lambda>table.
      Option.bind (get b 9) (\<lambda>code.
      (let symbol = \<lparr>sy_table = ord table, sy_code = ord code\<rparr> in
       if \<not> has_valid_table symbol then None
       else
       Option.bind (Option.bind (slice b 1 5) base91) (\<lambda>lat_raw.
       Option.bind (Option.bind (slice b 5 9) base91) (\<lambda>lon_raw.
       (let lat = sub_f64 (f64_of_int 90) (div_f64 (f64_of_int lat_raw) COMPRESSED_LAT_DIVISOR);
            lon = add_f64 (f64_of_int (-180)) (div_f64 (f64_of_int lon_raw) COMPRESSED_LON_DIVISOR)
        in with_symbol symbol (position_new lat lon))))))))"

definition mice_digit :: "char \<Rightarrow> int option" where
  "mice_digit c =
     (let n = int (ord c) in
      if 48 \<le> n \<and> n \<le> 57 then Some (n - 48)
      else if 65 \<le> n \<and> n \<le> 74 then Some (n - 65)
      else if 80 \<le> n \<and> n \<le> 89 then Some (n - 80)
      else if n = 75 \<or> n = 76 \<or> n = 90 then Some 0
      else None)"

fun mice_digits :: "str \<Rightarrow> nat list \<Rightarrow> int list option" where
  "mice_digits dest [] = Some []"
| "mice_digits dest (i # is) =
     Option.bind (Option.bind (get dest i) mice_digit) (\<lambda>d.
     map_option ((#) d) (mice_digits dest is))"

definition mice_flag :: "char \<Rightarrow> bool" where
  "mice_flag c \<longleftrightarrow> 80 \<le> ord c \<and> ord c \<le> 90"

definition mice_lon_deg :: "char \<Rightarrow> bool \<Rightarrow> int option" where
  "mice_lon_deg c lon_offset =
     (let d = int (ord c) - 28;
          d = (if lon_offset then d + 100 else d);
          d = (if 180 \<le> d \<and> d \<le> 189 then d - 80 else if 190 \<le> d \<and> d \<le> 199 then d - 190 else d)
      in if 0 \<le> d \<and> d \<le> 179 then Some d else None)"

definition mice_lon_min :: "char \<Rightarrow> int option" where
  "mice_lon_min c =
     (let m = int (ord c) - 28; m = (if m \<ge> 60 then m - 60 else m)
      in if 0 \<le> m \<and> m \<le> 59 then Some m else None)"

definition mice_lon_hun :: "char \<Rightarrow> int option" where
  "mice_lon_hun c =
     (let h = int (ord c) - 28 in if 0 \<le> h \<and> h \<le> 99 then Some h else None)"

definition ten :: "int \<Rightarrow> int \<Rightarrow> f64" where
  "ten a b = add_f64 (mul_f64 (f64_of_int a) (f64_of_int 10)) (f64_of_int b)"

definition parse_mice :: "str \<Rightarrow> str \<Rightarrow> (position \<times> symbol) option" where
  "parse_mice destination b =
     Option.bind (get (split_on CHR ''-'' destination) 0) (\<lambda>dest.
     if length dest < 6 then None
     else
     Option.bind (mice_digits dest [0, 1, 2, 3, 4, 5]) (\<lambda>digits.
     Option.bind (map_option mice_flag (get dest 3)) (\<lambda>north.
     Option.bind (map_option mice_flag (get dest 4)) (\<lambda>lon_offset.
     Option.bind (map_option mice_flag (get dest 5)) (\<lambda>west.
     (let lat = degrees (ten (digits ! 0) (digits ! 1)) (ten (digits ! 2) (digits ! 3))
                  (ten (digits ! 4) (digits ! 5)) in
      if length b < 8 then None
      else
      Option.bind (Option.bind (get b 0) (\<lambda>c. mice_lon_deg c lon_offset)) (\<lambda>lon_deg.
      Option.bind (Option.bind (get b 1) mice_lon_min) (\<lambda>lon_min.
      Option.bind (Option.bind (get b 2) mice_lon_hun) (\<lambda>lon_hun.
      (let lon = degrees (f64_of_int lon_deg) (f64_of_int lon_min) (f64_of_int lon_hun) in
       Option.bind (get b 7) (\<lambda>table.
       Option.bind (get b 6) (\<lambda>code.
       (let symbol = \<lparr>sy_table = ord table, sy_code = ord code\<rparr> in
        if \<not> has_valid_table symbol then None
        else with_symbol symbol
               (position_new (if north then lat else neg_f64 lat)
                             (if west then neg_f64 lon else lon)))))))))))))))"

subsection \<open>What a decoder can return\<close>

definition position_ok :: "position \<Rightarrow> bool" where
  "position_ok p \<longleftrightarrow>
     is_finite (ps_latitude p) \<and> is_finite (ps_longitude p) \<and>
     -90 \<le> f64_val (ps_latitude p) \<and> f64_val (ps_latitude p) \<le> 90 \<and>
     -180 \<le> f64_val (ps_longitude p) \<and> f64_val (ps_longitude p) \<le> 180"

lemma f64_bounds:
  "is_finite (f64_of_int 90)" "is_finite (f64_of_int (-90))" "is_finite (f64_of_int 180)"
  "is_finite (f64_of_int (-180))"
  "f64_val (f64_of_int 90) = 90" "f64_val (f64_of_int (-90)) = -90"
  "f64_val (f64_of_int 180) = 180" "f64_val (f64_of_int (-180)) = -180"
  by code_simp+

lemma position_new_ok: "position_new lat lon = Some p \<Longrightarrow> position_ok p"
  by (auto simp: position_new_def position_ok_def in_closed_def le_f64_val f64_bounds split: if_splits)

lemma with_symbol_Some:
  "with_symbol sy m = Some (p, t) \<longleftrightarrow> m = Some p \<and> t = sy"
  by (auto simp: with_symbol_def)

lemma parse_uncompressed_ok:
  "parse_uncompressed b = Some (p, sy) \<Longrightarrow> position_ok p \<and> has_valid_table sy \<and> 19 \<le> length b"
  by (auto simp: parse_uncompressed_def Let_def with_symbol_Some bind_eq_Some_conv
      intro: position_new_ok split: if_splits)

lemma parse_compressed_ok:
  "parse_compressed b = Some (p, sy) \<Longrightarrow> position_ok p \<and> has_valid_table sy \<and> 13 \<le> length b"
  by (auto simp: parse_compressed_def Let_def with_symbol_Some bind_eq_Some_conv
      intro: position_new_ok split: if_splits)

lemma parse_mice_ok:
  "parse_mice d b = Some (p, sy) \<Longrightarrow> position_ok p \<and> has_valid_table sy \<and> 8 \<le> length b"
  by (auto simp: parse_mice_def Let_def with_symbol_Some bind_eq_Some_conv
      intro: position_new_ok split: if_splits)

subsection \<open>Base 91\<close>

text \<open>The four-digit base-91 number of APRS101 chapter 9, most significant digit first.\<close>

fun encode91 :: "nat \<Rightarrow> nat \<Rightarrow> str" where
  "encode91 0 n = []"
| "encode91 (Suc k) n = encode91 k (n div 91) @ [char_of (33 + n mod 91)]"

lemma base91_loop_snoc:
  "base91_loop v (xs @ [c]) = Option.bind (base91_loop v xs) (\<lambda>w. base91_loop w [c])"
  by (induction v xs rule: base91_loop.induct) auto

lemma base91_loop_digit:
  "33 \<le> ord c \<Longrightarrow> ord c \<le> 124 \<Longrightarrow> v * 91 + (int (ord c) - 33) < 2 ^ 32 \<Longrightarrow>
     base91_loop v [c] = Some (v * 91 + (int (ord c) - 33))"
  by auto

lemma base91_encode: "k \<le> 4 \<Longrightarrow> n < 91 ^ k \<Longrightarrow> base91 (encode91 k n) = Some (int n)"
proof (induction k arbitrary: n)
  case 0
  then show ?case by (simp add: base91_def)
next
  case (Suc k)
  have d: "n div 91 < 91 ^ k" using Suc.prems(2) by (simp add: less_mult_imp_div_less mult.commute)
  let ?c = "char_of (33 + n mod 91) :: char"
  have o: "ord ?c = 33 + n mod 91" by (simp add: ord_char_of_lt less_trans [OF _ _])
  have n: "int n = int (n div 91) * 91 + (int (ord ?c) - 33)"
    unfolding o by (simp add: zdiv_int zmod_int)
  have "(91 :: nat) ^ Suc k \<le> 91 ^ 4" using Suc.prems(1) by (intro power_increasing) auto
  then have "int n < 2 ^ 32" using Suc.prems(2) by simp
  then have "base91_loop (int (n div 91)) [?c] = Some (int n)"
    unfolding n by (intro base91_loop_digit) (auto simp: o)
  with Suc.IH [OF _ d] Suc.prems(1) show ?case by (simp add: base91_def base91_loop_snoc)
qed

subsection \<open>Properties\<close>

text \<open>C36: whatever bytes a client sends, each of the three decoders either yields no position or one
  with finite coordinates, latitude within -90..90 and longitude within -180..180, and a symbol whose
  table APRS defines.\<close>

theorem decoded_positions_in_range:
  assumes "parse_uncompressed b = Some (p, sy) \<or> parse_compressed b = Some (p, sy) \<or>
    parse_mice d b = Some (p, sy)"
  shows "position_ok p \<and> has_valid_table sy"
  using assms parse_uncompressed_ok parse_compressed_ok parse_mice_ok by blast

theorem decoded_positions_in_range_witness:
  "\<exists>p sy. parse_uncompressed ''4903.50N/07201.75W-'' = Some (p, sy) \<and> position_ok p"
proof -
  have "parse_uncompressed ''4903.50N/07201.75W-'' =
      Some (\<lparr>ps_latitude = Finite False 6904346616231799 (-47),
             ps_longitude = Finite True 5068602002496990 (-46)\<rparr>, \<lparr>sy_table = 47, sy_code = 45\<rparr>)"
    by code_simp
  from this decoded_positions_in_range [OF disjI1 [OF this]] show ?thesis by blast
qed

text \<open>The base-91 decoder of the compressed form inverts the four-digit encoding of every number it
  can express, without overflow; but it also takes the byte 124, one past the last digit, so that
  two different texts stand for the same number.\<close>

theorem base91_roundtrip:
  assumes "n < 91 ^ 4"
  shows "base91 (encode91 4 n) = Some (int n) \<and> base91 ''!!!|'' = base91 ''!!\"!''"
proof -
  have "base91 ''!!!|'' = base91 ''!!\"!''" by code_simp
  with base91_encode [of 4 n] assms show ?thesis by simp
qed

theorem base91_roundtrip_witness: "base91 (encode91 4 20346417) = Some 20346417"
  using base91_roundtrip [of 20346417] by simp

end
