(* ===== verification/Aprs_Payload.thy ===== *)
theory Aprs_Payload
  imports Position Packet
begin

section \<open>Information field classification (\<open>aprsr-core/src/aprs/mod.rs\<close>)\<close>

text \<open>
  The packet categories as bits of a 16-bit word, and the parse of an information field into its
  categories, position, symbol, object name and addressee.
\<close>

unbundle bit_operations_syntax

type_synonym packet_type = "16 word"

definition NONE :: packet_type where "NONE = 0"
definition POSITION :: packet_type where "POSITION = 1"
definition OBJECT :: packet_type where "OBJECT = push_bit 1 1"
definition ITEM :: packet_type where "ITEM = push_bit 2 1"
definition MESSAGE :: packet_type where "MESSAGE = push_bit 3 1"
definition QUERY :: packet_type where "QUERY = push_bit 4 1"
definition STATUS :: packet_type where "STATUS = push_bit 5 1"
definition TELEMETRY :: packet_type where "TELEMETRY = push_bit 6 1"
definition USER_DEFINED :: packet_type where "USER_DEFINED = push_bit 7 1"
definition NWS :: packet_type where "NWS = push_bit 8 1"
definition WEATHER :: packet_type where "WEATHER = push_bit 9 1"

lemmas category_defs = NONE_def POSITION_def OBJECT_def ITEM_def MESSAGE_def QUERY_def STATUS_def
  TELEMETRY_def USER_DEFINED_def NWS_def WEATHER_def

definition from_filter_letter :: "char \<Rightarrow> packet_type option" where
  "from_filter_letter letter =
     (if letter = CHR ''p'' then Some POSITION
      else if letter = CHR ''o'' then Some OBJECT
      else if letter = CHR ''i'' then Some ITEM
      else if letter = CHR ''m'' then Some MESSAGE
      else if letter = CHR ''q'' then Some QUERY
      else if letter = CHR ''s'' then Some STATUS
      else if letter = CHR ''t'' then Some TELEMETRY
      else if letter = CHR ''u'' then Some USER_DEFINED
      else if letter = CHR ''n'' then Some NWS
      else if letter = CHR ''w'' then Some WEATHER
      else None)"

definition type_union :: "packet_type \<Rightarrow> packet_type \<Rightarrow> packet_type" where
  "type_union a b = a OR b"

definition type_contains :: "packet_type \<Rightarrow> packet_type \<Rightarrow> bool" where
  "type_contains a b \<longleftrightarrow> a AND b = b"

definition intersects :: "packet_type \<Rightarrow> packet_type \<Rightarrow> bool" where
  "intersects a b \<longleftrightarrow> a AND b \<noteq> 0"

definition type_is_empty :: "packet_type \<Rightarrow> bool" where
  "type_is_empty a \<longleftrightarrow> a = 0"

record parsed_payload =
  pp_types :: packet_type
  pp_position :: "position option"
  pp_symbol :: "symbol option"
  pp_object_name :: "str option"
  pp_addressee :: "str option"

definition parsed_default :: parsed_payload where
  "parsed_default =
     \<lparr>pp_types = NONE, pp_position = None, pp_symbol = None, pp_object_name = None,
      pp_addressee = None\<rparr>"

definition MICE_DTI :: "nat list" where
  "MICE_DTI = [96, 39, 28, 29]"

definition add_type :: "packet_type \<Rightarrow> parsed_payload \<Rightarrow> parsed_payload" where
  "add_type t out = out\<lparr>pp_types := type_union (pp_types out) t\<rparr>"

definition split_item_name :: "str \<Rightarrow> (str \<times> str) option" where
  "split_item_name rest =
     (let end_of = length (takeWhile (\<lambda>c. c \<noteq> CHR ''!'' \<and> c \<noteq> CHR ''_'') rest) in
      if end_of = length rest then None
      else if \<not> (3 \<le> end_of \<and> end_of \<le> 9) then None
      else Option.bind (get_to rest end_of) (\<lambda>name.
           Option.bind (get_from rest (end_of + 1)) (\<lambda>tail. Some (name, tail))))"

definition set_position :: "(position \<times> symbol) option \<Rightarrow> parsed_payload \<Rightarrow> parsed_payload" where
  "set_position r out =
     (case r of Some (pos, sy) \<Rightarrow> out\<lparr>pp_position := Some pos, pp_symbol := Some sy\<rparr> | None \<Rightarrow> out)"

definition apply_position :: "str \<Rightarrow> parsed_payload \<Rightarrow> parsed_payload" where
  "apply_position data out =
     (case parse_uncompressed data of
        Some r \<Rightarrow> set_position (Some r) out
      | None \<Rightarrow> set_position (parse_compressed data) out)"

definition has_nws_prefix :: "str \<Rightarrow> bool" where
  "has_nws_prefix call \<longleftrightarrow>
     list_ex (\<lambda>p. length p \<le> length call \<and>
        (case get_to call (length p) of Some h \<Rightarrow> eq_ignore_ascii_case h p | None \<Rightarrow> False))
       [''NWS'', ''SKY'', ''CWA'']"

definition is_nws :: "packet \<Rightarrow> parsed_payload \<Rightarrow> bool" where
  "is_nws packet parsed \<longleftrightarrow>
     has_nws_prefix (p_source packet) \<or>
     (case pp_addressee parsed of Some a \<Rightarrow> has_nws_prefix a | None \<Rightarrow> False) \<or>
     (case pp_object_name parsed of Some a \<Rightarrow> has_nws_prefix a | None \<Rightarrow> False)"

definition parse_body :: "packet \<Rightarrow> char \<Rightarrow> parsed_payload" where
  "parse_body packet dti =
     (let payload = p_payload packet; out = parsed_default;
          from = (\<lambda>i. unwrap_or [] (get_from payload i)) in
      if dti = CHR ''!'' \<or> dti = CHR ''='' then apply_position (from 1) (add_type POSITION out)
      else if dti = CHR ''/'' \<or> dti = CHR ''@'' then apply_position (from 8) (add_type POSITION out)
      else if dti = CHR '';'' then
        apply_position (from 18)
          ((add_type OBJECT out)\<lparr>pp_object_name := map_option trim_end (get_range payload 1 10)\<rparr>)
      else if dti = CHR '')'' then
        (case split_item_name (from 1) of
           Some (name, rest) \<Rightarrow> apply_position rest ((add_type ITEM out)\<lparr>pp_object_name := Some name\<rparr>)
         | None \<Rightarrow> add_type ITEM out)
      else if dti = CHR '':'' then
        (add_type MESSAGE out)\<lparr>pp_addressee := map_option trim_end (get_range payload 1 10)\<rparr>
      else if dti = CHR ''?'' then add_type QUERY out
      else if dti = CHR ''>'' then add_type STATUS out
      else if dti = CHR ''T'' then
        (if get payload 1 = Some CHR ''#'' then add_type TELEMETRY out else out)
      else if dti = CHR ''{'' then add_type USER_DEFINED out
      else if dti = CHR ''_'' then add_type WEATHER out
      else if ord dti \<in> set MICE_DTI then
        set_position (parse_mice (p_destination packet) (from 1)) (add_type POSITION out)
      else out)"

definition aprs_parse :: "packet \<Rightarrow> parsed_payload" where
  "aprs_parse packet =
     (case get (p_payload packet) 0 of
        None \<Rightarrow> parsed_default
      | Some dti \<Rightarrow>
          (let out = parse_body packet dti;
               out = (case pp_symbol out of
                        Some sy \<Rightarrow> if is_weather sy then add_type WEATHER out else out
                      | None \<Rightarrow> out)
           in if is_nws packet out then add_type NWS out else out))"

text \<open>Two of the four Mic-E data types are control characters, which the packet parser refuses: no parsed packet
  has them in front of its information field, or anywhere else.\<close>

theorem old_mice_refused:
  assumes "packet_parse raw = Inr p"
  shows "\<forall>c \<in> set (p_payload p). ord c \<noteq> 28 \<and> ord c \<noteq> 29"
proof -
  from assms obtain s d rest pl where r: "raw = s @ CHR ''>'' # d @ rest @ CHR '':'' # pl" "p_payload p = pl"
    "list_all (\<lambda>b. \<not> is_control b) raw"
    by (rule packet_parse_InrE)
  then have "list_all (\<lambda>b. \<not> is_control b) (p_payload p)" by simp
  then show ?thesis by (auto simp: list_all_iff is_control_def)
qed
end
