(* ===== verification/Geo.thy ===== *)
theory Geo
  imports F64
begin

section \<open>Geography (\<open>aprsr-core/src/geo.rs\<close>)\<close>

text \<open>
  The haversine distance, with the mathematical functions of the standard library as the
  parameter \<open>libm\<close>, and the inclusive box test with its antimeridian case.
\<close>

definition EARTH_RADIUS_KM :: f64 where
  "EARTH_RADIUS_KM = ratio_f64 False 63710088 10000 0"

definition great_circle_distance_km :: "libm \<Rightarrow> f64 \<Rightarrow> f64 \<Rightarrow> f64 \<Rightarrow> f64 \<Rightarrow> f64" where
  "great_circle_distance_km m lat1 lon1 lat2 lon2 =
     (let two = f64_of_int 2;
          phi1 = to_radians lat1;
          phi2 = to_radians lat2;
          d_phi = sub_f64 phi2 phi1;
          d_lambda = to_radians (sub_f64 lon2 lon1);
          a = add_f64 (lm_powi m (lm_sin m (div_f64 d_phi two)) 2)
                (mul_f64 (mul_f64 (lm_cos m phi1) (lm_cos m phi2))
                   (lm_powi m (lm_sin m (div_f64 d_lambda two)) 2))
      in mul_f64 (mul_f64 two EARTH_RADIUS_KM)
           (lm_asin m (clamp_f64 (sqrt_f64 a) (f64_of_int (-1)) (f64_of_int 1))))"

text \<open>An instance of the parameter for the witnesses: the functions' small-angle approximations.\<close>

definition sample_libm :: libm where
  "sample_libm =
     \<lparr>lm_sin = (\<lambda>x. x), lm_cos = (\<lambda>_. f64_of_int 1), lm_asin = (\<lambda>x. x),
      lm_powi = (\<lambda>x n. if n = 2 then mul_f64 x x else x)\<rparr>"

definition within_area :: "f64 \<Rightarrow> f64 \<Rightarrow> f64 \<Rightarrow> f64 \<Rightarrow> f64 \<Rightarrow> f64 \<Rightarrow> bool" where
  "within_area lat lon lat_north lon_west lat_south lon_east =
     (if lt_f64 lat_north lat \<or> lt_f64 lat lat_south then False
      else if le_f64 lon_west lon_east then le_f64 lon_west lon \<and> le_f64 lon lon_east
      else le_f64 lon_west lon \<or> le_f64 lon lon_east)"

text \<open>On finite coordinates the box test is inclusive on all four edges, and a box whose western
  edge lies east of its eastern edge is the one that crosses the antimeridian.\<close>

theorem within_area_iff:
  assumes "is_finite lat" "is_finite lon" "is_finite n" "is_finite w" "is_finite s" "is_finite e"
  shows "within_area lat lon n w s e \<longleftrightarrow>
    f64_val s \<le> f64_val lat \<and> f64_val lat \<le> f64_val n \<and>
    (if f64_val w \<le> f64_val e then f64_val w \<le> f64_val lon \<and> f64_val lon \<le> f64_val e
     else f64_val w \<le> f64_val lon \<or> f64_val lon \<le> f64_val e)"
  using assms by (auto simp: within_area_def le_f64_val lt_f64_val not_less)

theorem within_area_iff_witness:
  "within_area (f64_of_int 5) (f64_of_int 175) (f64_of_int 10) (f64_of_int 170)
     (f64_of_int (-10)) (f64_of_int (-170))"
proof -
  have "is_finite (f64_of_int 5)" "is_finite (f64_of_int 175)" "is_finite (f64_of_int 10)"
    "is_finite (f64_of_int 170)" "is_finite (f64_of_int (-10))" "is_finite (f64_of_int (-170))"
    by code_simp+
  moreover have "f64_val (f64_of_int 5) = 5" "f64_val (f64_of_int 175) = 175"
    "f64_val (f64_of_int 10) = 10" "f64_val (f64_of_int 170) = 170"
    "f64_val (f64_of_int (-10)) = -10" "f64_val (f64_of_int (-170)) = -170"
    by code_simp+
  ultimately show ?thesis by (subst within_area_iff) simp_all
qed

end
