(* ===== verification/Filter_Chain.thy ===== *)
theory Filter_Chain
  imports Aprs_Payload Qconstruct Geo
begin

section \<open>Server-side filters (\<open>aprsr-core/src/filter/mod.rs\<close>)\<close>

text \<open>
  The filter expression parser and the matching of one packet against a chain. The mathematical
  functions behind the distance are the parameter \<open>libm\<close>. \<open>chain_matches_iff\<close> reads the accumulator
  loop of the chain as "some positive entry matches and no negated one does".
\<close>

definition MAX_FILTERS :: nat where "MAX_FILTERS = 64"
definition MAX_LIST_ENTRIES :: nat where "MAX_LIST_ENTRIES = 64"
definition MAX_AREA_FILTERS :: nat where "MAX_AREA_FILTERS = 9"

text \<open>
  A position source: where \<open>m/\<close> and \<open>f/\<close> look stations up. A station's position does not depend on
  the case its callsign is written in, and what it returns is a position the decoders can produce.
\<close>

locale position_source =
  fixes lookup :: "'s \<Rightarrow> str \<Rightarrow> position option"
    and valid :: "'s \<Rightarrow> bool"
  assumes lookup_case: "eq_ignore_ascii_case c d \<Longrightarrow> lookup s c = lookup s d"
    and lookup_ok: "valid s \<Longrightarrow> lookup s c = Some p \<Longrightarrow> position_ok p"

definition no_positions :: "str \<Rightarrow> position option" where
  "no_positions callsign = None"

interpretation no_positions: position_source "\<lambda>_ :: unit. no_positions" "\<lambda>_. True"
  by unfold_locales (simp_all add: no_positions_def)

record match_context =
  mc_packet :: packet
  mc_parsed :: parsed_payload
  mc_client :: "str option"
  mc_positions :: "str \<Rightarrow> position option"

datatype filter_error =
    FilterEmpty
  | TooManyFilters
  | TooManyAreaFilters
  | TooManyEntries str
  | UnknownType str
  | WrongArgumentCount str str nat
  | EmptyArgumentList str
  | NotANumber str str
  | LatitudeOutOfRange f64
  | LongitudeOutOfRange f64
  | DistanceOutOfRange f64
  | UnknownTypeLetter str

datatype packet_filter =
    Range f64 f64 f64
  | Prefix "str list"
  | Budlist "str list"
  | Object "str list"
  | TypeFilter packet_type "(str \<times> f64) option"
  | SymbolFilter str str str
  | Digipeater "str list"
  | Area f64 f64 f64 f64
  | Entry "str list"
  | Group "str list"
  | Unproto "str list"
  | QFilter str bool
  | MyRange f64
  | FriendRange str f64

subsection \<open>Parsing\<close>

definition exact :: "nat \<Rightarrow> str \<Rightarrow> str list \<Rightarrow> str \<Rightarrow> (filter_error, str list) result" where
  "exact n code args expected =
     (if length args = n then Inr args else Inl (WrongArgumentCount code expected (length args)))"

definition list_arg :: "str \<Rightarrow> str list \<Rightarrow> (filter_error, str list) result" where
  "list_arg code args =
     (if args = [] \<or> list_all (\<lambda>a. a = []) args then Inl (EmptyArgumentList code)
      else if length args > MAX_LIST_ENTRIES then Inl (TooManyEntries code)
      else Inr (map to_ascii_uppercase (filter (\<lambda>a. a \<noteq> []) args)))"

definition number :: "str \<Rightarrow> str \<Rightarrow> (filter_error, f64) result" where
  "number what value =
     (case parse_f64 value of
        Some v \<Rightarrow> if is_finite v then Inr v else Inl (NotANumber what value)
      | None \<Rightarrow> Inl (NotANumber what value))"

definition latitude :: "str \<Rightarrow> (filter_error, f64) result" where
  "latitude value =
     and_then (number ''latitude'' value) (\<lambda>v.
       if in_closed (f64_of_int (-90)) (f64_of_int 90) v then Inr v else Inl (LatitudeOutOfRange v))"

definition longitude :: "str \<Rightarrow> (filter_error, f64) result" where
  "longitude value =
     and_then (number ''longitude'' value) (\<lambda>v.
       if in_closed (f64_of_int (-180)) (f64_of_int 180) v then Inr v
       else Inl (LongitudeOutOfRange v))"

definition distance :: "str \<Rightarrow> (filter_error, f64) result" where
  "distance value =
     and_then (number ''distance'' value) (\<lambda>v.
       if lt_f64 (f64_of_int 0) v then Inr v else Inl (DistanceOutOfRange v))"

fun type_letters :: "str \<Rightarrow> str \<Rightarrow> packet_type \<Rightarrow> (filter_error, packet_type) result" where
  "type_letters letters [] types = Inr types"
| "type_letters letters (l # ls) types =
     (case from_filter_letter (lower l) of
        Some t \<Rightarrow> type_letters letters ls (type_union types t)
      | None \<Rightarrow> Inl (UnknownTypeLetter letters))"

definition parse_type :: "str list \<Rightarrow> (filter_error, packet_filter) result" where
  "parse_type args =
     (let letters = unwrap_or [] (get args 0) in
      if letters = [] then Inl (EmptyArgumentList ''t'')
      else
      and_then (type_letters letters letters NONE) (\<lambda>types.
      case (get args 1, get args 2) of
        (Some call, Some km) \<Rightarrow>
          and_then (distance km) (\<lambda>d. Inr (TypeFilter types (Some (to_ascii_uppercase call, d))))
      | (None, None) \<Rightarrow> Inr (TypeFilter types None)
      | _ \<Rightarrow> Inl (WrongArgumentCount ''t'' ''1 or 3'' (length args))))"

definition filter_parse :: "str \<Rightarrow> (filter_error, packet_filter) result" where
  "filter_parse text =
     (let parts = split_on CHR ''/'' text; code = unwrap_or [] (get parts 0); args = drop 1 parts in
      if code = ''r'' then
        and_then (exact 3 code args ''3'') (\<lambda>a.
        and_then (latitude (a ! 0)) (\<lambda>lat.
        and_then (longitude (a ! 1)) (\<lambda>lon.
        and_then (distance (a ! 2)) (\<lambda>d. Inr (Range lat lon d)))))
      else if code = ''p'' then and_then (list_arg code args) (\<lambda>l. Inr (Prefix l))
      else if code = ''b'' then and_then (list_arg code args) (\<lambda>l. Inr (Budlist l))
      else if code = ''o'' then and_then (list_arg code args) (\<lambda>l. Inr (Object l))
      else if code = ''d'' then and_then (list_arg code args) (\<lambda>l. Inr (Digipeater l))
      else if code = ''e'' then and_then (list_arg code args) (\<lambda>l. Inr (Entry l))
      else if code = ''g'' then and_then (list_arg code args) (\<lambda>l. Inr (Group l))
      else if code = ''u'' then and_then (list_arg code args) (\<lambda>l. Inr (Unproto l))
      else if code = ''t'' then parse_type args
      else if code = ''s'' then
        (if args = [] \<or> length args > 3
         then Inl (WrongArgumentCount code ''1 to 3'' (length args))
         else Inr (SymbolFilter (unwrap_or [] (get args 0)) (unwrap_or [] (get args 1))
                     (unwrap_or [] (get args 2))))
      else if code = ''a'' then
        and_then (exact 4 code args ''4'') (\<lambda>a.
        and_then (latitude (a ! 0)) (\<lambda>n.
        and_then (longitude (a ! 1)) (\<lambda>w.
        and_then (latitude (a ! 2)) (\<lambda>s.
        and_then (longitude (a ! 3)) (\<lambda>e. Inr (Area n w s e))))))
      else if code = ''q'' then
        (if args = [] \<or> length args > 2
         then Inl (WrongArgumentCount code ''1 or 2'' (length args))
         else Inr (QFilter (unwrap_or [] (get args 0))
                (case get args 1 of Some a \<Rightarrow> contains_char a 73 | None \<Rightarrow> False)))
      else if code = ''m'' then
        and_then (exact 1 code args ''1'') (\<lambda>a.
        and_then (distance (a ! 0)) (\<lambda>d. Inr (MyRange d)))
      else if code = ''f'' then
        and_then (exact 2 code args ''2'') (\<lambda>a.
        and_then (distance (a ! 1)) (\<lambda>d. Inr (FriendRange (to_ascii_uppercase (a ! 0)) d)))
      else Inl (UnknownType code))"

record filter_entry =
  fe_negated :: bool
  fe_filter :: packet_filter

fun is_area :: "packet_filter \<Rightarrow> bool" where
  "is_area (Area n w s e) = True"
| "is_area _ = False"

fun chain_loop ::
  "str list \<Rightarrow> filter_entry list \<Rightarrow> nat \<Rightarrow> (filter_error, filter_entry list) result" where
  "chain_loop [] entries area_filters = Inr entries"
| "chain_loop (token # tokens) entries area_filters =
     (if length entries \<ge> MAX_FILTERS then Inl TooManyFilters
      else
        (let (negated, body) =
               (case strip_prefix_char CHR ''-'' token of
                  Some rest \<Rightarrow> (True, rest) | None \<Rightarrow> (False, token))
         in if body = [] then Inl FilterEmpty
            else
            and_then (filter_parse body) (\<lambda>f.
            let areas = (if is_area f then area_filters + 1 else area_filters) in
            if is_area f \<and> areas > MAX_AREA_FILTERS then Inl TooManyAreaFilters
            else chain_loop tokens (entries @ [\<lparr>fe_negated = negated, fe_filter = f\<rparr>]) areas)))"

definition chain_parse :: "str \<Rightarrow> (filter_error, filter_entry list) result" where
  "chain_parse expression = chain_loop (split_ascii_whitespace expression) [] 0"

definition chain_is_empty :: "filter_entry list \<Rightarrow> bool" where
  "chain_is_empty entries \<longleftrightarrow> entries = []"

subsection \<open>Matching\<close>

definition within_km :: "libm \<Rightarrow> position option \<Rightarrow> f64 \<Rightarrow> f64 \<Rightarrow> f64 \<Rightarrow> bool" where
  "within_km m pos lat lon km \<longleftrightarrow>
     (case pos of
        None \<Rightarrow> False
      | Some p \<Rightarrow> le_f64 (great_circle_distance_km m lat lon (ps_latitude p) (ps_longitude p)) km)"

definition near_station :: "libm \<Rightarrow> match_context \<Rightarrow> str \<Rightarrow> f64 \<Rightarrow> bool" where
  "near_station m ctx callsign km \<longleftrightarrow>
     (case mc_positions ctx callsign of
        None \<Rightarrow> False
      | Some centre \<Rightarrow>
          within_km m (pp_position (mc_parsed ctx)) (ps_latitude centre) (ps_longitude centre) km)"

definition matches_symbol :: "match_context \<Rightarrow> str \<Rightarrow> str \<Rightarrow> str \<Rightarrow> bool" where
  "matches_symbol ctx primary alternate overlay =
     (case pp_symbol (mc_parsed ctx) of
        None \<Rightarrow> False
      | Some sy \<Rightarrow>
          if sy_table sy = 47 then contains_char primary (sy_code sy)
          else if sy_table sy = 92 then contains_char alternate (sy_code sy)
          else contains_char overlay (sy_table sy) \<and>
               (alternate = [] \<or> contains_char alternate (sy_code sy)))"

definition matches_qconstruct :: "match_context \<Rightarrow> str \<Rightarrow> bool \<Rightarrow> bool" where
  "matches_qconstruct ctx constructs igate_positions =
     (case find_q (p_path (mc_packet ctx)) of
        None \<Rightarrow> False
      | Some found \<Rightarrow>
          if (case get (chars (qcode_as_str (fq_code found))) 2 of
                Some c \<Rightarrow> contains_char constructs c | None \<Rightarrow> False)
          then True
          else igate_positions \<and> intersects (pp_types (mc_parsed ctx)) POSITION \<and>
               fq_code found \<in> {VerifiedIgate, RemoteIgate})"

definition entry_station :: "packet \<Rightarrow> str option" where
  "entry_station packet = Option.bind (find_q (p_path packet)) fq_call"

definition any_match :: "str list \<Rightarrow> str option \<Rightarrow> bool" where
  "any_match pats call =
     (case call of None \<Rightarrow> False | Some c \<Rightarrow> list_ex (\<lambda>p. matches_pattern p c) pats)"

fun filter_matches :: "libm \<Rightarrow> match_context \<Rightarrow> packet_filter \<Rightarrow> bool" where
  "filter_matches m ctx (Range lat lon km) = within_km m (pp_position (mc_parsed ctx)) lat lon km"
| "filter_matches m ctx (Prefix prefixes) =
     list_ex (\<lambda>p. length (p_source (mc_packet ctx)) \<ge> length p \<and>
        (case get_to (p_source (mc_packet ctx)) (length p) of
           Some h \<Rightarrow> eq_ignore_ascii_case h p | None \<Rightarrow> False)) prefixes"
| "filter_matches m ctx (Budlist cs) = any_match cs (Some (p_source (mc_packet ctx)))"
| "filter_matches m ctx (Object names) = any_match names (pp_object_name (mc_parsed ctx))"
| "filter_matches m ctx (Digipeater cs) =
     list_ex (\<lambda>h. list_ex (\<lambda>c. matches_pattern c (h_call h)) cs)
       (filter h_used (hops (p_path (mc_packet ctx))))"
| "filter_matches m ctx (Entry cs) = any_match cs (entry_station (mc_packet ctx))"
| "filter_matches m ctx (Group cs) = any_match cs (pp_addressee (mc_parsed ctx))"
| "filter_matches m ctx (Unproto dests) = any_match dests (Some (p_destination (mc_packet ctx)))"
| "filter_matches m ctx (TypeFilter types near) =
     (intersects (pp_types (mc_parsed ctx)) types \<and>
      (case near of None \<Rightarrow> True | Some (call, km) \<Rightarrow> near_station m ctx call km))"
| "filter_matches m ctx (SymbolFilter primary alternate overlay) =
     matches_symbol ctx primary alternate overlay"
| "filter_matches m ctx (Area n w s e) =
     (case pp_position (mc_parsed ctx) of
        None \<Rightarrow> False
      | Some p \<Rightarrow> within_area (ps_latitude p) (ps_longitude p) n w s e)"
| "filter_matches m ctx (QFilter constructs igate_positions) =
     matches_qconstruct ctx constructs igate_positions"
| "filter_matches m ctx (MyRange km) =
     (case mc_client ctx of None \<Rightarrow> False | Some call \<Rightarrow> near_station m ctx call km)"
| "filter_matches m ctx (FriendRange callsign km) = near_station m ctx callsign km"

fun chain_match_loop :: "libm \<Rightarrow> match_context \<Rightarrow> filter_entry list \<Rightarrow> bool \<Rightarrow> bool" where
  "chain_match_loop m ctx [] passed = passed"
| "chain_match_loop m ctx (entry # entries) passed =
     (if filter_matches m ctx (fe_filter entry)
      then (if fe_negated entry then False else chain_match_loop m ctx entries True)
      else chain_match_loop m ctx entries passed)"

definition chain_matches :: "libm \<Rightarrow> match_context \<Rightarrow> filter_entry list \<Rightarrow> bool" where
  "chain_matches m ctx entries = chain_match_loop m ctx entries False"

subsection \<open>What the parser lets through\<close>

definition lat_ok :: "f64 \<Rightarrow> bool" where
  "lat_ok v \<longleftrightarrow> is_finite v \<and> -90 \<le> f64_val v \<and> f64_val v \<le> 90"

definition lon_ok :: "f64 \<Rightarrow> bool" where
  "lon_ok v \<longleftrightarrow> is_finite v \<and> -180 \<le> f64_val v \<and> f64_val v \<le> 180"

definition dist_ok :: "f64 \<Rightarrow> bool" where
  "dist_ok v \<longleftrightarrow> is_finite v \<and> 0 < f64_val v"

definition list_ok :: "str list \<Rightarrow> bool" where
  "list_ok l \<longleftrightarrow> l \<noteq> [] \<and> length l \<le> 64 \<and>
     list_all (\<lambda>a. a \<noteq> [] \<and> to_ascii_uppercase a = a) l"

fun filter_wf :: "packet_filter \<Rightarrow> bool" where
  "filter_wf (Range lat lon km) = (lat_ok lat \<and> lon_ok lon \<and> dist_ok km)"
| "filter_wf (Prefix l) = list_ok l"
| "filter_wf (Budlist l) = list_ok l"
| "filter_wf (Object l) = list_ok l"
| "filter_wf (TypeFilter types near) =
     (case near of None \<Rightarrow> True | Some (call, km) \<Rightarrow> to_ascii_uppercase call = call \<and> dist_ok km)"
| "filter_wf (SymbolFilter a b c) = True"
| "filter_wf (Digipeater l) = list_ok l"
| "filter_wf (Area n w s e) = (lat_ok n \<and> lon_ok w \<and> lat_ok s \<and> lon_ok e)"
| "filter_wf (Entry l) = list_ok l"
| "filter_wf (Group l) = list_ok l"
| "filter_wf (Unproto l) = list_ok l"
| "filter_wf (QFilter c i) = True"
| "filter_wf (MyRange km) = dist_ok km"
| "filter_wf (FriendRange call km) = (to_ascii_uppercase call = call \<and> dist_ok km)"

lemma number_finite: "number what t = Inr v \<Longrightarrow> is_finite v"
  by (auto simp: number_def split: option.splits if_splits)

lemma latitude_ok: "latitude t = Inr v \<Longrightarrow> lat_ok v"
  by (auto simp: latitude_def res_simps lat_ok_def in_closed_def le_f64_val f64_bounds
      dest: number_finite split: if_splits)

lemma longitude_ok: "longitude t = Inr v \<Longrightarrow> lon_ok v"
  by (auto simp: longitude_def res_simps lon_ok_def in_closed_def le_f64_val f64_bounds
      dest: number_finite split: if_splits)

lemma f64_zero: "is_finite (f64_of_int 0)" "f64_val (f64_of_int 0) = 0"
  by (simp_all add: f64_of_int_def round_pos_def zero_f64_def f64_val_def signed_def)

lemma distance_ok: "distance t = Inr v \<Longrightarrow> dist_ok v"
  by (auto simp: distance_def res_simps dist_ok_def lt_f64_val f64_zero
      dest: number_finite split: if_splits)

lemma list_arg_ok: "list_arg code args = Inr l \<Longrightarrow> list_ok l"
proof -
  assume a: "list_arg code args = Inr l"
  then have l: "l = map to_ascii_uppercase (filter (\<lambda>a. a \<noteq> []) args)"
    and n: "length args \<le> 64" and e: "\<not> list_all (\<lambda>a. a = []) args"
    by (auto simp: list_arg_def MAX_LIST_ENTRIES_def split: if_splits)
  have "length l \<le> 64" unfolding l using n by (simp add: le_trans [OF length_filter_le])
  moreover have "l \<noteq> []" unfolding l using e by (auto simp: list_all_iff filter_empty_conv)
  moreover have "list_all (\<lambda>a. a \<noteq> [] \<and> to_ascii_uppercase a = a) l"
    unfolding l by (auto simp: list_all_iff) (simp add: to_ascii_uppercase_def)
  ultimately show ?thesis by (simp add: list_ok_def)
qed

lemma parse_type_wf: "parse_type args = Inr f \<Longrightarrow> filter_wf f"
  by (auto simp: parse_type_def Let_def res_simps split: if_splits option.splits) (rule distance_ok)

lemma filter_parse_wf: "filter_parse text = Inr f \<Longrightarrow> filter_wf f"
  unfolding filter_parse_def Let_def
  by (auto simp: res_simps split: if_splits
      dest: parse_type_wf list_arg_ok latitude_ok longitude_ok distance_ok)

definition areas :: "filter_entry list \<Rightarrow> nat" where
  "areas entries = length (filter (is_area \<circ> fe_filter) entries)"

lemma chain_loop_ok:
  assumes "chain_loop tokens entries n = Inr es"
    and "length entries \<le> 64" and "n = areas entries" and "n \<le> 9"
    and "list_all (filter_wf \<circ> fe_filter) entries"
  shows "length es \<le> 64 \<and> areas es \<le> 9 \<and> list_all (filter_wf \<circ> fe_filter) es \<and>
    length es = length entries + length tokens"
  using assms
proof (induction tokens entries n rule: chain_loop.induct)
  case (1 entries n)
  then show ?case by simp
next
  case (2 token tokens entries n)
  define nb where "nb = (case strip_prefix_char CHR ''-'' token of
      Some rest \<Rightarrow> (True, rest) | None \<Rightarrow> (False, token))"
  obtain neg body where nb': "nb = (neg, body)" by (cases nb)
  from "2.prems"(1) have len: "length entries < 64" and ne: "body \<noteq> []"
    using nb' by (auto simp: nb_def [symmetric] MAX_FILTERS_def split: if_splits)
  with "2.prems"(1) nb' obtain f where f: "filter_parse body = Inr f"
    by (auto simp: nb_def [symmetric] res_simps Let_def split: if_splits)
  let ?n = "if is_area f then n + 1 else n"
  let ?es = "entries @ [\<lparr>fe_negated = neg, fe_filter = f\<rparr>]"
  have a: "\<not> (is_area f \<and> MAX_AREA_FILTERS < ?n)"
    and r: "chain_loop tokens ?es ?n = Inr es"
    using "2.prems"(1) nb' f ne len
    by (auto simp: nb_def [symmetric] MAX_FILTERS_def Let_def split: if_splits)
  have na: "?n = areas ?es" using "2.prems"(3) by (simp add: areas_def)
  have n9: "?n \<le> 9" using a "2.prems"(4) by (auto simp: MAX_AREA_FILTERS_def split: if_splits)
  have wf: "list_all (filter_wf \<circ> fe_filter) ?es"
    using "2.prems"(5) filter_parse_wf [OF f] by (simp add: comp_def)
  have mx: "\<not> MAX_FILTERS \<le> length entries" "length ?es \<le> 64"
    using len by (simp_all add: MAX_FILTERS_def)
  from "2.IH" [OF mx(1) nb_def nb' [symmetric] ne refl a r mx(2) na n9 wf] show ?case by simp
qed

subsection \<open>Matching as a specification\<close>

lemma chain_match_loop_eq:
  "chain_match_loop m ctx es passed \<longleftrightarrow>
     \<not> list_ex (\<lambda>e. fe_negated e \<and> filter_matches m ctx (fe_filter e)) es \<and>
     (passed \<or> list_ex (\<lambda>e. \<not> fe_negated e \<and> filter_matches m ctx (fe_filter e)) es)"
  by (induction m ctx es passed rule: chain_match_loop.induct) auto

subsection \<open>Properties\<close>

text \<open>C37: a packet passes a chain exactly when some positive entry matches it and no negated entry
  does: negation wins wherever it stands, and the empty chain passes nothing.\<close>

theorem chain_matches_iff:
  "chain_matches m ctx es \<longleftrightarrow>
     list_ex (\<lambda>e. \<not> fe_negated e \<and> filter_matches m ctx (fe_filter e)) es \<and>
     \<not> list_ex (\<lambda>e. fe_negated e \<and> filter_matches m ctx (fe_filter e)) es"
  unfolding chain_matches_def chain_match_loop_eq by blast

text \<open>An accepted filter expression has one entry per word, at most 64 of them and at most nine
  area filters; every latitude, longitude and distance in it is a finite number in its range, and
  every callsign list has between one and 64 non-empty upper-case entries.\<close>

theorem chain_parse_bounds:
  assumes "chain_parse expression = Inr es"
  shows "length es \<le> 64 \<and> length es = length (split_ascii_whitespace expression) \<and> areas es \<le> 9 \<and>
    list_all (filter_wf \<circ> fe_filter) es"
  using chain_loop_ok [OF assms [unfolded chain_parse_def]] by (simp add: areas_def)

theorem chain_parse_bounds_witness:
  "\<exists>es. chain_parse ''r/60.2/24.9/50 -b/N0SPAM'' = Inr es \<and> length es = 2 \<and> areas es \<le> 9"
proof -
  let ?es = "[\<lparr>fe_negated = False, fe_filter = packet_filter.Range (Finite False 8472396798990746 (-47))
                (Finite False 7008726920095334 (-48)) (Finite False 7036874417766400 (-47))\<rparr>,
              \<lparr>fe_negated = True, fe_filter = Budlist [''N0SPAM'']\<rparr>]"
  have p: "chain_parse ''r/60.2/24.9/50 -b/N0SPAM'' = Inr ?es" by code_simp
  have "areas ?es \<le> 9" using chain_parse_bounds [OF p] by blast
  with p show ?thesis by auto
qed

text \<open>A station whose position is unknown is never the centre of a range: the \<open>m/\<close> and \<open>f/\<close>
  filters and a \<open>t/\<close> filter with a radius match no packet at all then, rather than every packet.\<close>

theorem unknown_centre_never_matches:
  assumes "mc_positions ctx call = None"
  shows "\<not> filter_matches m ctx (FriendRange call km) \<and>
    \<not> filter_matches m ctx (TypeFilter types (Some (call, km))) \<and>
    (mc_client ctx = Some call \<longrightarrow> \<not> filter_matches m ctx (MyRange km))"
  using assms by (simp add: near_station_def)

theorem unknown_centre_never_matches_witness:
  "\<not> filter_matches sample_libm \<lparr>mc_packet = sample_packet, mc_parsed = parsed_default, mc_client = Some ''A'',
      mc_positions = no_positions\<rparr> (FriendRange ''A'' (f64_of_int 50))"
proof -
  let ?ctx = "\<lparr>mc_packet = sample_packet, mc_parsed = parsed_default, mc_client = Some ''A'',
      mc_positions = no_positions\<rparr>"
  have "mc_positions ?ctx ''A'' = None" by (simp add: no_positions_def)
  from unknown_centre_never_matches [OF this, of sample_libm] show ?thesis by blast
qed

end
