(* ===== verification/Filter_Show.thy ===== *)
theory Filter_Show
  imports Filter_Chain Login
begin

section \<open>Printing filters (\<open>Display\<close> in \<open>aprsr-core/src/filter/mod.rs\<close>)\<close>

text \<open>
  The rendering of a filter back to the wire syntax, which the status page and the connection log
  show. The shortest decimal form of a double is the standard library's: it is the parameter
  \<open>show_f64\<close>, of which \<open>prints_f64\<close> states the documented law, that reading the text gives the number
  back, in a form without slashes and blanks. \<open>filter_reprint\<close> shows that a printed chain is
  the chain again when it is parsed.
\<close>

definition joined :: "str \<Rightarrow> str list \<Rightarrow> str" where
  "joined code items = code @ concat (map (\<lambda>item. CHR ''/'' # item) items)"

definition show_type_letters :: "packet_type \<Rightarrow> str" where
  "show_type_letters types =
     filter (\<lambda>l. case from_filter_letter l of Some t \<Rightarrow> type_contains types t | None \<Rightarrow> False) ''poimqstunw''"

fun filter_show :: "(f64 \<Rightarrow> str) \<Rightarrow> packet_filter \<Rightarrow> str" where
  "filter_show sf (packet_filter.Range lat lon km) = ''r/'' @ sf lat @ ''/'' @ sf lon @ ''/'' @ sf km"
| "filter_show sf (packet_filter.Prefix items) = joined ''p'' items"
| "filter_show sf (Budlist items) = joined ''b'' items"
| "filter_show sf (Object items) = joined ''o'' items"
| "filter_show sf (Digipeater items) = joined ''d'' items"
| "filter_show sf (Entry items) = joined ''e'' items"
| "filter_show sf (Group items) = joined ''g'' items"
| "filter_show sf (Unproto items) = joined ''u'' items"
| "filter_show sf (TypeFilter types near) =
     ''t/'' @ show_type_letters types @
     (case near of Some (call, km) \<Rightarrow> ''/'' @ call @ ''/'' @ sf km | None \<Rightarrow> [])"
| "filter_show sf (SymbolFilter primary alternate overlay) =
     (if overlay = [] \<and> alternate = [] then ''s/'' @ primary
      else if overlay = [] then ''s/'' @ primary @ ''/'' @ alternate
      else ''s/'' @ primary @ ''/'' @ alternate @ ''/'' @ overlay)"
| "filter_show sf (Area n w s e) = ''a/'' @ sf n @ ''/'' @ sf w @ ''/'' @ sf s @ ''/'' @ sf e"
| "filter_show sf (QFilter constructs igate_positions) =
     (if igate_positions then ''q/'' @ constructs @ ''/I'' else ''q/'' @ constructs)"
| "filter_show sf (MyRange km) = ''m/'' @ sf km"
| "filter_show sf (FriendRange callsign km) = ''f/'' @ callsign @ ''/'' @ sf km"

definition entry_show :: "(f64 \<Rightarrow> str) \<Rightarrow> filter_entry \<Rightarrow> str" where
  "entry_show sf entry = (if fe_negated entry then ''-'' else []) @ filter_show sf (fe_filter entry)"

definition chain_show :: "(f64 \<Rightarrow> str) \<Rightarrow> filter_entry list \<Rightarrow> str" where
  "chain_show sf entries = join '' '' (map (entry_show sf) entries)"

definition plain_text :: "str \<Rightarrow> bool" where
  "plain_text s \<longleftrightarrow> CHR ''/'' \<notin> set s \<and> list_all (\<lambda>c. \<not> is_ascii_ws c) s"

definition prints_f64 :: "(f64 \<Rightarrow> str) \<Rightarrow> f64 list \<Rightarrow> bool" where
  "prints_f64 sf vs \<longleftrightarrow> (\<forall>v \<in> set vs. parse_f64 (sf v) = Some v \<and> plain_text (sf v))"

fun filter_numbers :: "packet_filter \<Rightarrow> f64 list" where
  "filter_numbers (packet_filter.Range lat lon km) = [lat, lon, km]"
| "filter_numbers (TypeFilter types near) = (case near of Some (call, km) \<Rightarrow> [km] | None \<Rightarrow> [])"
| "filter_numbers (Area n w s e) = [n, w, s, e]"
| "filter_numbers (MyRange km) = [km]"
| "filter_numbers (FriendRange callsign km) = [km]"
| "filter_numbers f = []"

definition chain_numbers :: "filter_entry list \<Rightarrow> f64 list" where
  "chain_numbers entries = concat (map (filter_numbers \<circ> fe_filter) entries)"

subsection \<open>The parts between the slashes\<close>

fun filter_parts :: "(f64 \<Rightarrow> str) \<Rightarrow> packet_filter \<Rightarrow> str list" where
  "filter_parts sf (packet_filter.Range lat lon km) = [''r'', sf lat, sf lon, sf km]"
| "filter_parts sf (packet_filter.Prefix items) = ''p'' # items"
| "filter_parts sf (Budlist items) = ''b'' # items"
| "filter_parts sf (Object items) = ''o'' # items"
| "filter_parts sf (Digipeater items) = ''d'' # items"
| "filter_parts sf (Entry items) = ''e'' # items"
| "filter_parts sf (Group items) = ''g'' # items"
| "filter_parts sf (Unproto items) = ''u'' # items"
| "filter_parts sf (TypeFilter types near) =
     ''t'' # show_type_letters types # (case near of Some (call, km) \<Rightarrow> [call, sf km] | None \<Rightarrow> [])"
| "filter_parts sf (SymbolFilter primary alternate overlay) =
     ''s'' # primary #
     (if overlay = [] \<and> alternate = [] then [] else if overlay = [] then [alternate] else [alternate, overlay])"
| "filter_parts sf (Area n w s e) = [''a'', sf n, sf w, sf s, sf e]"
| "filter_parts sf (QFilter constructs igate_positions) =
     ''q'' # constructs # (if igate_positions then [''I''] else [])"
| "filter_parts sf (MyRange km) = [''m'', sf km]"
| "filter_parts sf (FriendRange callsign km) = [''f'', callsign, sf km]"

lemma join_slash: "join ''/'' (code # items) = code @ concat (map (\<lambda>item. CHR ''/'' # item) items)"
  by (induction items arbitrary: code) simp_all

lemma joined_join: "joined code items = join ''/'' (code # items)"
  by (simp only: joined_def join_slash)

lemma filter_show_parts: "filter_show sf f = join ''/'' (filter_parts sf f)"
  by (cases f) (simp_all add: joined_join split: option.split)

text \<open>What a parsed filter has in its texts, beyond \<open>filter_wf\<close>.\<close>

definition types_ok :: "packet_type \<Rightarrow> bool" where
  "types_ok t \<longleftrightarrow> t \<noteq> 0 \<and> (\<forall>n. bit t n \<longrightarrow> n < 10)"

fun filter_texts :: "packet_filter \<Rightarrow> bool" where
  "filter_texts (packet_filter.Prefix l) = list_all plain_text l"
| "filter_texts (Budlist l) = list_all plain_text l"
| "filter_texts (Object l) = list_all plain_text l"
| "filter_texts (Digipeater l) = list_all plain_text l"
| "filter_texts (Entry l) = list_all plain_text l"
| "filter_texts (Group l) = list_all plain_text l"
| "filter_texts (Unproto l) = list_all plain_text l"
| "filter_texts (TypeFilter types near) =
     (types_ok types \<and> (case near of None \<Rightarrow> True | Some (call, km) \<Rightarrow> plain_text call))"
| "filter_texts (SymbolFilter a b c) = (plain_text a \<and> plain_text b \<and> plain_text c)"
| "filter_texts (QFilter c i) = plain_text c"
| "filter_texts (FriendRange call km) = plain_text call"
| "filter_texts f = True"

lemma plain_lit: "plain_text []" "plain_text ''I''"
  by (simp_all add: plain_text_def is_ascii_ws_def)

lemma letters_plain: "list_all (\<lambda>c. c \<noteq> CHR ''/'' \<and> \<not> is_ascii_ws c) ''poimqstunw''"
  by (simp add: is_ascii_ws_def)

lemma show_type_letters_plain: "plain_text (show_type_letters t)"
  using letters_plain by (auto simp: plain_text_def show_type_letters_def list_all_iff)

lemma filter_parts_plain:
  assumes "prints_f64 sf (filter_numbers f)" and "filter_wf f" and "filter_texts f"
  shows "list_all plain_text (tl (filter_parts sf f)) \<and> (\<exists>c. hd (filter_parts sf f) = [c] \<and> c \<noteq> CHR ''-'' \<and> plain_text [c])"
  using assms
  by (cases f) (auto simp: prints_f64_def lat_ok_def lon_ok_def dist_ok_def plain_lit show_type_letters_plain
      plain_text_def [of "[_]"] is_ascii_ws_def split: option.splits)

lemma filter_show_split:
  assumes "prints_f64 sf (filter_numbers f)" and "filter_wf f" and "filter_texts f"
  shows "split_on CHR ''/'' (filter_show sf f) = filter_parts sf f"
proof -
  have "filter_parts sf f \<noteq> []" by (cases f) simp_all
  moreover have "CHR ''/'' \<notin> set w" if "w \<in> set (filter_parts sf f)" for w
    using filter_parts_plain [OF assms] that
    by (cases "filter_parts sf f") (auto simp: plain_text_def list_all_iff)
  ultimately show ?thesis unfolding filter_show_parts by (rule split_on_join)
qed

subsection \<open>Category letters\<close>

lemma letter_bit: "from_filter_letter l = Some t \<Longrightarrow> \<exists>k < 10. t = push_bit k 1"
  by (auto simp: from_filter_letter_def category_defs split: if_splits
      intro: exI [of _ 0] exI [of _ 1] exI [of _ 2] exI [of _ 3] exI [of _ 4] exI [of _ 5] exI [of _ 6]
        exI [of _ 7] exI [of _ 8] exI [of _ 9])


lemma lower_letters: "list_all (\<lambda>l. lower l = l \<and> from_filter_letter l \<noteq> None) ''poimqstunw''"
  by code_simp

lemma type_letters_filter:
  "list_all (\<lambda>l. lower l = l \<and> from_filter_letter l \<noteq> None) ls \<Longrightarrow>
     type_letters w (filter (\<lambda>l. case from_filter_letter l of Some t \<Rightarrow> type_contains types t | None \<Rightarrow> False) ls) acc =
     Inr (foldl (\<lambda>a l. a OR (let t = the (from_filter_letter l) in if type_contains types t then t else 0)) acc ls)"
  by (induction ls arbitrary: acc) (auto simp: type_union_def Let_def)

lemma contains_bit:
  fixes t :: packet_type
  assumes "k < 16"
  shows "type_contains t (push_bit k 1) \<longleftrightarrow> bit t k"
proof -
  have a: "t AND push_bit k 1 = push_bit k (of_bool (bit t k))"
    by (rule bit_word_eqI) (auto simp: bit_simps)
  have "bit (push_bit k 1 :: packet_type) k" using assms by (simp add: bit_simps)
  then have "(push_bit k 1 :: packet_type) \<noteq> 0" by (metis bit_0_eq bot_apply bot_bool_def)
  then show ?thesis
    unfolding type_contains_def a by (cases "bit t k") auto
qed

lemma type_letters_show:
  assumes "types_ok t"
  shows "type_letters w (show_type_letters t) NONE = Inr t"
proof -
  define part :: "nat \<Rightarrow> packet_type" where "part k = (if bit t k then push_bit k 1 else 0)" for k
  have "type_letters w (show_type_letters t) NONE =
      Inr (NONE OR part 0 OR part 1 OR part 2 OR part 3 OR part 4 OR part 5 OR part 6 OR part 7 OR
        part 8 OR part 9)"
  proof -
    have f:
    "the (from_filter_letter CHR ''p'') = push_bit 0 1"
    "the (from_filter_letter CHR ''o'') = push_bit 1 1"
    "the (from_filter_letter CHR ''i'') = push_bit 2 1"
    "the (from_filter_letter CHR ''m'') = push_bit 3 1"
    "the (from_filter_letter CHR ''q'') = push_bit 4 1"
    "the (from_filter_letter CHR ''s'') = push_bit 5 1"
    "the (from_filter_letter CHR ''t'') = push_bit 6 1"
    "the (from_filter_letter CHR ''u'') = push_bit 7 1"
    "the (from_filter_letter CHR ''n'') = push_bit 8 1"
    "the (from_filter_letter CHR ''w'') = push_bit 9 1"
      by (simp_all add: from_filter_letter_def category_defs)
    have c:
    "type_contains t (push_bit 0 1) \<longleftrightarrow> bit t 0"
    "type_contains t (push_bit 1 1) \<longleftrightarrow> bit t 1"
    "type_contains t (push_bit 2 1) \<longleftrightarrow> bit t 2"
    "type_contains t (push_bit 3 1) \<longleftrightarrow> bit t 3"
    "type_contains t (push_bit 4 1) \<longleftrightarrow> bit t 4"
    "type_contains t (push_bit 5 1) \<longleftrightarrow> bit t 5"
    "type_contains t (push_bit 6 1) \<longleftrightarrow> bit t 6"
    "type_contains t (push_bit 7 1) \<longleftrightarrow> bit t 7"
    "type_contains t (push_bit 8 1) \<longleftrightarrow> bit t 8"
    "type_contains t (push_bit 9 1) \<longleftrightarrow> bit t 9"
      by (rule contains_bit, simp)+
    show ?thesis
      unfolding show_type_letters_def type_letters_filter [OF lower_letters] foldl.simps Let_def f c or.assoc part_def
      by (rule refl)
  qed
  also have "NONE OR part 0 OR part 1 OR part 2 OR part 3 OR part 4 OR part 5 OR part 6 OR part 7 OR
      part 8 OR part 9 = t"
  proof (rule bit_word_eqI)
    fix n
    assume "n < LENGTH(16)"
    have part: "bit (part k) n \<longleftrightarrow> bit t k \<and> n = k" if "k < 16" for k
      using that \<open>n < LENGTH(16)\<close> by (auto simp: part_def bit_simps)
    have bits: "bit (NONE OR part 0 OR part 1 OR part 2 OR part 3 OR part 4 OR part 5 OR part 6 OR part 7 OR
        part 8 OR part 9) n \<longleftrightarrow> (\<exists>k < 10. bit t k \<and> n = k)"
      by (simp add: bit_or_iff part NONE_def numeral_eq_Suc less_Suc_eq) blast
    show "bit (NONE OR part 0 OR part 1 OR part 2 OR part 3 OR part 4 OR part 5 OR part 6 OR part 7 OR
        part 8 OR part 9) n \<longleftrightarrow> bit t n"
      unfolding bits using assms by (auto simp: types_ok_def)
  qed
  finally show ?thesis .
qed

subsection \<open>Reading a printed filter\<close>

lemma number_show:
  assumes "parse_f64 (sf v) = Some v"
  shows "lat_ok v \<Longrightarrow> latitude (sf v) = Inr v" and "lon_ok v \<Longrightarrow> longitude (sf v) = Inr v"
    and "dist_ok v \<Longrightarrow> distance (sf v) = Inr v"
  using assms
  by (auto simp: prints_f64_def latitude_def longitude_def distance_def number_def lat_ok_def lon_ok_def
      dist_ok_def in_closed_def le_f64_val lt_f64_val f64_bounds f64_zero)

lemma list_arg_show: "list_ok l \<Longrightarrow> list_arg code l = Inr l"
proof -
  assume l: "list_ok l"
  then have "filter (\<lambda>a. a \<noteq> []) l = l" by (auto simp: list_ok_def list_all_iff filter_id_conv)
  moreover have "map to_ascii_uppercase l = l" using l by (auto simp: list_ok_def list_all_iff map_idI)
  ultimately show ?thesis
    using l by (cases l) (auto simp: list_arg_def list_ok_def MAX_LIST_ENTRIES_def)
qed

lemma show_type_letters_not_Nil: "types_ok t \<Longrightarrow> show_type_letters t \<noteq> []"
  using type_letters_show [of t "[]"] by (auto simp: NONE_def types_ok_def)

lemma filter_show_parse:
  assumes "prints_f64 sf (filter_numbers f)" and "filter_wf f" and "filter_texts f"
  shows "filter_parse (filter_show sf f) = Inr f"
proof -
  have I: "contains_char ''I'' 73" by code_simp
  show ?thesis
    unfolding filter_parse_def filter_show_split [OF assms]
    using assms
    by (cases f)
       (auto simp: Let_def exact_def list_arg_show number_show prints_f64_def parse_type_def type_letters_show
          show_type_letters_not_Nil I numeral_2_eq_2 numeral_3_eq_3 split: option.splits)
qed


subsection \<open>What parsing leaves in the texts\<close>

lemma split_by_subset: "w \<in> set (split_by P s) \<Longrightarrow> set w \<subseteq> set s"
  by (induction s arbitrary: w) (force split: if_splits list.splits)+

lemma split_parts_plain:
  assumes "list_all (\<lambda>c. \<not> is_ascii_ws c) s"
  shows "list_all plain_text (split_on CHR ''/'' s)"
proof -
  have "plain_text w" if w: "w \<in> set (split_on CHR ''/'' s)" for w
    using assms split_by_subset [OF w] split_by_no_sep [OF w] by (auto simp: plain_text_def list_all_iff)
  then show ?thesis by (simp add: list_all_iff)
qed

lemma plain_upper [simp]: "plain_text (to_ascii_uppercase s) \<longleftrightarrow> plain_text s"
proof -
  have ws: "is_ascii_ws (upper c) \<longleftrightarrow> is_ascii_ws c" for c by (auto simp: is_ascii_ws_def ord_upper)
  have "upper c = CHR ''/'' \<longleftrightarrow> c = CHR ''/''" for c
    by (auto simp: char_eq_iff_ord ord_upper)
  then have "CHR ''/'' = upper c \<longleftrightarrow> c = CHR ''/''" for c by metis
  with ws show ?thesis
    by (simp add: plain_text_def to_ascii_uppercase_def list_all_iff image_iff)
qed

lemma plain_get:
  assumes "list_all plain_text parts"
  shows "plain_text (unwrap_or [] (get parts i))"
proof (cases "get parts i")
  case (Some w)
  then have "w \<in> set parts" by (auto simp: get_Some)
  with assms Some show ?thesis by (simp add: list_all_iff)
qed (simp add: plain_lit)

lemma plain_list_arg: "list_all plain_text parts \<Longrightarrow> list_arg code parts = Inr l \<Longrightarrow> list_all plain_text l"
  by (auto simp: list_arg_def list_all_iff split: if_splits)

lemma type_letters_ok:
  "type_letters w ls acc = Inr t \<Longrightarrow> (\<forall>n. bit acc n \<longrightarrow> n < 10) \<Longrightarrow> ls \<noteq> [] \<or> acc \<noteq> 0 \<Longrightarrow> types_ok t"
proof (induction w ls acc rule: type_letters.induct)
  case (1 letters types)
  then show ?case by (auto simp: types_ok_def)
next
  case (2 letters l ls types)
  then obtain u where u: "from_filter_letter (lower l) = Some u" by (auto split: option.splits)
  then obtain k where k: "k < 10" "u = push_bit k 1" using letter_bit by blast
  have "bit (types OR u) k" using k by (simp add: bit_or_iff bit_simps)
  then have "types OR u \<noteq> 0" by (metis bit_0_eq bot_apply bot_bool_def)
  moreover have "\<forall>n. bit (types OR u) n \<longrightarrow> n < 10"
    using k "2.prems"(2) by (auto simp: bit_or_iff bit_simps)
  ultimately show ?case using "2.IH" [OF u] "2.prems"(1) u by (simp add: type_union_def)
qed

lemma parse_type_texts:
  assumes "parse_type args = Inr f" and "list_all plain_text args"
  shows "filter_texts f"
proof -
  let ?l = "unwrap_or [] (get args 0)"
  from assms(1) obtain t where t: "type_letters ?l ?l NONE = Inr t" "?l \<noteq> []"
    and f: "f = TypeFilter t None \<or> (\<exists>call d. get args 1 = Some call \<and> f = TypeFilter t (Some (to_ascii_uppercase call, d)))"
    by (auto simp: parse_type_def Let_def and_then_Inr split: if_splits option.splits)
  have "types_ok t" by (rule type_letters_ok [OF t(1)]) (use t(2) in \<open>simp_all add: NONE_def\<close>)
  moreover have "plain_text (unwrap_or [] (get args 1))" by (rule plain_get [OF assms(2)])
  ultimately show ?thesis using f by auto
qed

lemma exact_plain:
  "exact n code args e = Inr b \<Longrightarrow> 0 < n \<Longrightarrow> list_all plain_text args \<Longrightarrow> plain_text (b ! 0)"
  by (auto simp: exact_def list_all_iff split: if_splits)

lemma filter_parse_texts:
  assumes "filter_parse text = Inr f" and "list_all (\<lambda>c. \<not> is_ascii_ws c) text"
  shows "filter_texts f"
proof -
  define args where "args = drop 1 (split_on CHR ''/'' text)"
  have a: "list_all plain_text args"
    using split_parts_plain [OF assms(2)] by (auto simp: args_def list_all_iff dest: in_set_dropD)
  note g = plain_get [OF a] plain_list_arg [OF a]
  have type: "parse_type args = Inr f \<Longrightarrow> filter_texts f" by (rule parse_type_texts [OF _ a])
  have friend: "exact 2 c args e = Inr b \<Longrightarrow> plain_text (b ! 0)" for c e b
    by (erule exact_plain [OF _ _ a]) simp
  show ?thesis
    using assms(1) g
    unfolding filter_parse_def Let_def args_def [symmetric]
    by (auto simp: and_then_Inr dest: type friend split: if_splits)
qed

subsection \<open>Chains\<close>

definition entry_ok :: "filter_entry \<Rightarrow> bool" where
  "entry_ok entry \<longleftrightarrow> filter_wf (fe_filter entry) \<and> filter_texts (fe_filter entry)"

lemma entry_token:
  assumes "prints_f64 sf (filter_numbers (fe_filter entry))" and "entry_ok entry"
  shows "token (entry_show sf entry)"
    and "(case strip_prefix_char CHR ''-'' (entry_show sf entry) of
        Some rest \<Rightarrow> (True, rest) | None \<Rightarrow> (False, entry_show sf entry)) =
      (fe_negated entry, filter_show sf (fe_filter entry))"
    and "filter_show sf (fe_filter entry) \<noteq> []"
proof -
  have p: "list_all plain_text (tl (filter_parts sf (fe_filter entry)))"
    "\<exists>c. hd (filter_parts sf (fe_filter entry)) = [c] \<and> c \<noteq> CHR ''-'' \<and> plain_text [c]"
    using filter_parts_plain [OF assms(1)] assms(2) by (auto simp: entry_ok_def)
  have "filter_parts sf (fe_filter entry) \<noteq> []" by (cases "fe_filter entry") simp_all
  with p obtain c ps where ps: "filter_parts sf (fe_filter entry) = [c] # ps" "c \<noteq> CHR ''-''"
    "plain_text [c]" "list_all plain_text ps"
    by (cases "filter_parts sf (fe_filter entry)") auto
  have s: "filter_show sf (fe_filter entry) = c # concat (map (\<lambda>item. CHR ''/'' # item) ps)"
    by (simp add: filter_show_parts ps(1) join_slash)
  have "\<not> is_ascii_ws CHR ''/''" "\<not> is_ascii_ws CHR ''-''" by (simp_all add: is_ascii_ws_def)
  then show "token (entry_show sf entry)"
    using ps(3,4) by (auto simp: entry_show_def s token_def list_all_iff plain_text_def)
  show "(case strip_prefix_char CHR ''-'' (entry_show sf entry) of
        Some rest \<Rightarrow> (True, rest) | None \<Rightarrow> (False, entry_show sf entry)) =
      (fe_negated entry, filter_show sf (fe_filter entry))"
    using ps(2) by (simp add: entry_show_def s strip_prefix_char_def)
  show "filter_show sf (fe_filter entry) \<noteq> []" by (simp add: s)
qed

lemma chain_loop_show:
  shows "prints_f64 sf (chain_numbers es) \<Longrightarrow> list_all entry_ok es \<Longrightarrow> length acc + length es \<le> 64 \<Longrightarrow> n + areas es \<le> 9 \<Longrightarrow>
    chain_loop (map (entry_show sf) es) acc n = Inr (acc @ es)"
proof (induction es arbitrary: acc n)
  case (Cons e es)
  have ok: "entry_ok e" using Cons.prems(2) by simp
  have p: "prints_f64 sf (filter_numbers (fe_filter e))" "prints_f64 sf (chain_numbers es)"
    using Cons.prems(1) by (simp_all add: prints_f64_def chain_numbers_def ball_Un)
  note t = entry_token [OF p(1) ok]
  have f: "filter_parse (filter_show sf (fe_filter e)) = Inr (fe_filter e)"
    using filter_show_parse [OF p(1)] ok by (simp add: entry_ok_def)
  have e: "\<lparr>fe_negated = fe_negated e, fe_filter = fe_filter e\<rparr> = e" by simp
  have ih: "chain_loop (map (entry_show sf) es) (acc @ [e]) (if is_area (fe_filter e) then n + 1 else n) =
      Inr ((acc @ [e]) @ es)"
    by (rule Cons.IH [OF p(2)]) (use Cons.prems in \<open>auto simp: areas_def\<close>)
  have lim: "\<not> MAX_FILTERS \<le> length acc"
    "\<not> (is_area (fe_filter e) \<and> MAX_AREA_FILTERS < (if is_area (fe_filter e) then n + 1 else n))"
    using Cons.prems by (auto simp: MAX_FILTERS_def MAX_AREA_FILTERS_def areas_def)
  show ?case
    unfolding list.map chain_loop.simps t(2) using lim ih t(3) by (simp add: f e Let_def)
qed simp

lemma chain_loop_entries_ok:
  "chain_loop tokens acc n = Inr es \<Longrightarrow> list_all token tokens \<Longrightarrow> list_all (filter_texts \<circ> fe_filter) acc \<Longrightarrow>
     list_all (filter_texts \<circ> fe_filter) es"
proof (induction tokens acc n rule: chain_loop.induct)
  case (2 tok toks acc n)
  define nb where "nb = (case strip_prefix_char CHR ''-'' tok of
      Some rest \<Rightarrow> (True, rest) | None \<Rightarrow> (False, tok))"
  obtain neg body where nb': "nb = (neg, body)" by (cases nb)
  from "2.prems"(1) obtain f where f: "filter_parse body = Inr f"
    and r: "chain_loop toks (acc @ [\<lparr>fe_negated = neg, fe_filter = f\<rparr>]) (if is_area f then n + 1 else n) = Inr es"
    and c: "\<not> MAX_FILTERS \<le> length acc" "body \<noteq> []"
      "\<not> (is_area f \<and> (if is_area f then n + 1 else n) > MAX_AREA_FILTERS)"
    using nb' by (auto simp: nb_def [symmetric] and_then_Inr Let_def split: if_splits)
  have "list_all (\<lambda>c. \<not> is_ascii_ws c) body"
    using "2.prems"(2) nb' by (auto simp: nb_def token_def strip_prefix_char_def split: list.splits if_splits option.splits)
  then have "filter_texts f" by (rule filter_parse_texts [OF f])
  with "2.IH" [OF c(1) nb_def nb' [symmetric] c(2) refl c(3) r] "2.prems" show ?case by simp
qed simp

text \<open>C21: printing a chain that was parsed and parsing the text again gives the same chain, entry by entry
  with the same signs, numbers, lists and categories: what the status page and the connection log show
  of a client's filter is a filter expression for exactly that filter.\<close>

theorem filter_reprint:
  assumes "chain_parse expression = Inr es" and "prints_f64 show_f64 (chain_numbers es)"
  shows "chain_parse (chain_show show_f64 es) = Inr es"
proof -
  have b: "length es \<le> 64 \<and> areas es \<le> 9 \<and> list_all (filter_wf \<circ> fe_filter) es"
    using chain_loop_ok [OF assms(1) [unfolded chain_parse_def]] by (simp add: areas_def)
  have "list_all (filter_texts \<circ> fe_filter) es"
    by (rule chain_loop_entries_ok [OF assms(1) [unfolded chain_parse_def] split_ws_tokens]) simp
  with b have ok: "list_all entry_ok es" by (auto simp: entry_ok_def list_all_iff)
  then have "list_all token (map (entry_show show_f64) es)"
    using entry_token(1) assms(2) by (auto simp: list_all_iff prints_f64_def chain_numbers_def)
  from split_ws_join_tokens [OF this] show ?thesis
    using chain_loop_show [OF assms(2) ok, of "[]" 0] b by (simp add: chain_parse_def chain_show_def)
qed

definition whole_f64 :: "f64 \<Rightarrow> str" where
  "whole_f64 v =
     (case v of
        Finite s m e \<Rightarrow> (if s then ''-'' else []) @ show_nat (nat (if 0 \<le> e then m * 2 ^ nat e else m div 2 ^ nat (- e)))
      | _ \<Rightarrow> ''inf'')"

theorem filter_reprint_witness:
  "\<exists>es. chain_parse ''r/60/-25/50  -b/n0spam'' = Inr es \<and> length es = 2 \<and>
     chain_show whole_f64 es = ''r/60/-25/50 -b/N0SPAM'' \<and> chain_parse (chain_show whole_f64 es) = Inr es"
proof -
  let ?es = "[\<lparr>fe_negated = False, fe_filter = packet_filter.Range (Finite False 8444249301319680 (-47))
                (Finite True 7036874417766400 (-48)) (Finite False 7036874417766400 (-47))\<rparr>,
              \<lparr>fe_negated = True, fe_filter = Budlist [''N0SPAM'']\<rparr>]"
  have p: "chain_parse ''r/60/-25/50  -b/n0spam'' = Inr ?es" by code_simp
  have n: "prints_f64 whole_f64 (chain_numbers ?es)" by code_simp
  have "chain_show whole_f64 ?es = ''r/60/-25/50 -b/N0SPAM''" by code_simp
  with p filter_reprint [OF p n] show ?thesis by (intro exI [of _ ?es]) simp
qed

end
