(* ===== verification/Interval.thy ===== *)
theory Interval
  imports Interfaces
begin

section \<open>Intervals (\<open>aprsr-config/src/duration.rs\<close>)\<close>

text \<open>
  The parser and printer of aprsc-style intervals. An interval is its number of seconds, a \<open>u64\<close>;
  the checked arithmetic of the parser is written out. \<open>interval_items\<close> gives the meaning of any
  sequence of numbers with units, from which the round trip and the overflow behaviour follow.
\<close>

definition SECONDS_PER_MINUTE :: nat where "SECONDS_PER_MINUTE = 60"
definition SECONDS_PER_HOUR :: nat where "SECONDS_PER_HOUR = 60 * SECONDS_PER_MINUTE"
definition SECONDS_PER_DAY :: nat where "SECONDS_PER_DAY = 24 * SECONDS_PER_HOUR"

lemmas seconds_defs = SECONDS_PER_DAY_def SECONDS_PER_HOUR_def SECONDS_PER_MINUTE_def

datatype interval_error =
    IntervalEmpty
  | IntervalInvalidCharacter str uchar
  | TrailingNumber str
  | MissingNumber str
  | IntervalOverflow str

datatype interval = Interval (as_secs: nat)

definition from_secs :: "nat \<Rightarrow> interval" where
  "from_secs secs = Interval secs"

definition interval_wf :: "interval \<Rightarrow> bool" where
  "interval_wf i \<longleftrightarrow> as_secs i < 2 ^ 64"

definition checked_u64 :: "nat \<Rightarrow> nat option" where
  "checked_u64 n = (if n < 2 ^ 64 then Some n else None)"

definition to_digit :: "uchar \<Rightarrow> nat option" where
  "to_digit ch = (if 48 \<le> ch \<and> ch \<le> 57 then Some (ch - 48) else None)"

definition char_to_lower :: "uchar \<Rightarrow> uchar" where
  "char_to_lower ch = (if 65 \<le> ch \<and> ch \<le> 90 then ch + 32 else ch)"

definition multiplier :: "str \<Rightarrow> uchar \<Rightarrow> (interval_error, nat) result" where
  "multiplier inp ch =
     (let c = char_to_lower ch in
      if c = ord CHR ''d'' then Inr SECONDS_PER_DAY
      else if c = ord CHR ''h'' then Inr SECONDS_PER_HOUR
      else if c = ord CHR ''m'' then Inr SECONDS_PER_MINUTE
      else if c = ord CHR ''s'' then Inr 1
      else Inl (IntervalInvalidCharacter inp c))"

fun interval_loop :: "str \<Rightarrow> uchar list \<Rightarrow> nat \<Rightarrow> nat option \<Rightarrow> (interval_error, interval) result" where
  "interval_loop inp [] tot current =
     (case current of Some _ \<Rightarrow> Inl (TrailingNumber inp) | None \<Rightarrow> Inr (from_secs tot))"
| "interval_loop inp (ch # chs) tot current =
     (case to_digit ch of
        Some digit \<Rightarrow>
          and_then (ok_or (IntervalOverflow inp)
             (Option.bind (checked_u64 (unwrap_or 0 current * 10)) (\<lambda>v. checked_u64 (v + digit))))
            (\<lambda>acc. interval_loop inp chs tot (Some acc))
      | None \<Rightarrow>
          and_then (multiplier inp ch) (\<lambda>mult.
          and_then (ok_or (MissingNumber inp) current) (\<lambda>val.
          and_then (ok_or (IntervalOverflow inp)
             (Option.bind (checked_u64 (val * mult)) (\<lambda>v. checked_u64 (tot + v))))
            (\<lambda>sum_secs. interval_loop inp chs sum_secs None))))"

definition interval_parse :: "str \<Rightarrow> (interval_error, interval) result" where
  "interval_parse inp =
     (let trimmed = trim inp in
      if trimmed = [] then Inl IntervalEmpty
      else case parse_u64 trimmed of
        Some secs \<Rightarrow> Inr (from_secs secs)
      | None \<Rightarrow> interval_loop inp (chars trimmed) 0 None)"

definition units :: "(char \<times> nat) list" where
  "units = [(CHR ''d'', SECONDS_PER_DAY), (CHR ''h'', SECONDS_PER_HOUR),
            (CHR ''m'', SECONDS_PER_MINUTE), (CHR ''s'', 1)]"

fun show_units :: "(char \<times> nat) list \<Rightarrow> nat \<Rightarrow> str \<Rightarrow> bool \<Rightarrow> str \<times> bool" where
  "show_units [] secs out wrote = (out, wrote)"
| "show_units ((u, sz) # us) secs out wrote =
     (let count = secs div sz in
      if 0 < count then show_units us (secs - count * sz) (out @ show_nat count @ [u]) True
      else show_units us secs out wrote)"

definition interval_show :: "interval \<Rightarrow> str" where
  "interval_show i =
     (let secs = as_secs i in
      if secs = 0 then ''0s''
      else case show_units units secs [] False of
        (out, wrote) \<Rightarrow> if wrote then out else ''0s'')"

subsection \<open>The meaning of a sequence of numbers with units\<close>

type_synonym item = "nat \<times> char"

definition unit_size :: "char \<Rightarrow> nat option" where
  "unit_size c = result_ok (multiplier [] (ord c))"

definition item_text :: "item \<Rightarrow> str" where
  "item_text it = show_nat (fst it) @ [snd it]"

definition items_text :: "item list \<Rightarrow> str" where
  "items_text its = concat (map item_text its)"

definition item_secs :: "item \<Rightarrow> nat" where
  "item_secs it = fst it * unwrap_or 0 (unit_size (snd it))"

definition items_secs :: "item list \<Rightarrow> nat" where
  "items_secs its = sum_list (map item_secs its)"

definition item_ok :: "item \<Rightarrow> bool" where
  "item_ok it \<longleftrightarrow> unit_size (snd it) \<noteq> None"

lemma to_digit_ord: "is_ascii_digit c \<Longrightarrow> to_digit (ord c) = Some (digit_val c)"
  by (simp add: to_digit_def is_ascii_digit_def digit_val_def)

lemma checked_step:
  "Option.bind (checked_u64 (a * 10)) (\<lambda>v. checked_u64 (v + d)) = checked_u64 (10 * a + d)"
  by (simp add: checked_u64_def mult.commute)

lemma checked_total:
  "Option.bind (checked_u64 v) (\<lambda>w. checked_u64 (t + w)) = checked_u64 (t + v)"
  by (simp add: checked_u64_def)

abbreviation digits_from :: "nat \<Rightarrow> str \<Rightarrow> nat" where
  "digits_from \<equiv> foldl (\<lambda>n c. 10 * n + digit_val c)"

lemma digits_from_ge: "a \<le> digits_from a ds"
proof (induction ds arbitrary: a)
  case (Cons d ds)
  then have "10 * a + digit_val d \<le> digits_from (10 * a + digit_val d) ds" .
  then show ?case by simp
qed simp

lemma loop_digits:
  assumes "list_all is_ascii_digit ds" and "ds \<noteq> []"
  shows "interval_loop inp (map ord ds @ rest) t current =
    and_then (ok_or (IntervalOverflow inp) (checked_u64 (digits_from (unwrap_or 0 current) ds)))
      (\<lambda>acc. interval_loop inp rest t (Some acc))"
  using assms
proof (induction ds arbitrary: current)
  case (Cons d ds)
  let ?a = "10 * unwrap_or 0 current + digit_val d"
  have step: "interval_loop inp (map ord (d # ds) @ rest) t current =
      and_then (ok_or (IntervalOverflow inp) (checked_u64 ?a))
        (\<lambda>acc. interval_loop inp (map ord ds @ rest) t (Some acc))"
    using Cons.prems by (simp add: to_digit_ord checked_step)
  show ?case
  proof (cases "ds = []")
    case True
    with step show ?thesis by simp
  next
    case False
    note ih = Cons.IH [OF _ False, of "Some ?a"]
    have "2 ^ 64 \<le> ?a \<Longrightarrow> 2 ^ 64 \<le> digits_from ?a ds"
      using digits_from_ge [of ?a ds] by (meson order_trans)
    with ih step Cons.prems show ?thesis by (auto simp: checked_u64_def)
  qed
qed simp

lemma unit_multiplier: "unit_size c = Some k \<Longrightarrow> multiplier inp (ord c) = Inr k"
  by (auto simp: unit_size_def multiplier_def Let_def split: if_splits)

lemma unit_ord:
  assumes "unit_size c = Some k"
  shows "ord c = 100 \<or> ord c = 104 \<or> ord c = 109 \<or> ord c = 115 \<or>
    ord c = 68 \<or> ord c = 72 \<or> ord c = 77 \<or> ord c = 83"
  using assms
  by (auto simp: unit_size_def multiplier_def Let_def char_to_lower_def split: if_splits)

lemma unit_props:
  assumes "unit_size c = Some k"
  shows "to_digit (ord c) = None" and "is_ascii c" and "\<not> is_ascii_digit c" and "\<not> is_whitespace (ord c)"
    and "c \<noteq> CHR ''+''" and "0 < k"
  using unit_ord [OF assms] unit_multiplier [OF assms, of "[]"]
  by (auto simp: to_digit_def is_ascii_def is_ascii_digit_def is_whitespace_def multiplier_def Let_def
      seconds_defs split: if_splits)

lemma loop_items:
  assumes "list_all item_ok its" and "t < 2 ^ 64"
  shows "interval_loop inp (map ord (items_text its)) t None =
    and_then (ok_or (IntervalOverflow inp) (checked_u64 (t + items_secs its))) (\<lambda>n. Inr (from_secs n))"
  using assms
proof (induction its arbitrary: t)
  case Nil
  then show ?case by (simp add: items_text_def items_secs_def checked_u64_def)
next
  case (Cons it its)
  obtain n c where it: "it = (n, c)" by (cases it)
  with Cons.prems obtain k where k: "unit_size c = Some k" by (auto simp: item_ok_def)
  have tx: "map ord (items_text (it # its)) = map ord (show_nat n) @ ord c # map ord (items_text its)"
    by (simp add: items_text_def item_text_def it)
  have sec: "items_secs (it # its) = n * k + items_secs its"
    by (simp add: items_secs_def item_secs_def it k)
  have dig: "digits_from 0 (show_nat n) = n"
    using digits_val_show_nat [of n] by (simp add: digits_val_def)
  have step: "interval_loop inp (map ord (items_text (it # its))) t None =
      and_then (ok_or (IntervalOverflow inp) (checked_u64 n)) (\<lambda>v.
      and_then (ok_or (IntervalOverflow inp) (checked_u64 (t + v * k))) (\<lambda>u.
      interval_loop inp (map ord (items_text its)) u None))"
    unfolding tx loop_digits [OF show_nat_digits show_nat_not_Nil]
    by (simp add: dig unit_multiplier [OF k] unit_props(1) [OF k] checked_total)
  have big: "n \<le> n * k" using unit_props(6) [OF k] by simp
  show ?case
  proof (cases "t + n * k < 2 ^ 64")
    case True
    with big have "n < 2 ^ 64" by linarith
    with step Cons.IH [OF _ True] Cons.prems(1) True show ?thesis
      by (simp add: checked_u64_def sec add.assoc)
  next
    case False
    with step show ?thesis by (simp add: checked_u64_def sec)
  qed
qed

lemma trim_id:
  assumes "list_all is_ascii s" and "s \<noteq> []"
    and "\<not> is_whitespace (ord (hd s))" and "\<not> is_whitespace (ord (last s))"
  shows "trim s = s"
proof -
  have sg: "segs s = map (\<lambda>b. [b]) s" using segs_ascii [OF assms(1)] .
  have a: "is_ascii (hd s)" "is_ascii (last s)" using assms(1,2) by (auto simp: list_all_iff)
  have "dropWhile ws_seg (segs s) = segs s"
    unfolding sg using assms(2,3) a by (cases s) (auto simp: ws_seg_def)
  then have l: "trim_start s = s" by (simp add: trim_start_def)
  have "dropWhile ws_seg (rev (segs s)) = rev (segs s)"
    unfolding sg using assms(2,4) a by (cases s rule: rev_cases) (auto simp: ws_seg_def)
  then have "trim_end s = s" by (simp add: trim_end_def)
  with l show ?thesis by (simp add: trim_def)
qed

lemma digit_not_ws: "is_ascii_digit c \<Longrightarrow> is_ascii c \<and> \<not> is_whitespace (ord c)"
  by (auto simp: is_ascii_digit_def is_ascii_def is_whitespace_def)

lemma item_text_ascii: "item_ok it \<Longrightarrow> list_all is_ascii (item_text it)"
  using show_nat_digits [of "fst it"]
  by (auto simp: item_ok_def item_text_def list_all_iff unit_props digit_not_ws)

lemma items_text_shape:
  assumes "list_all item_ok its" and "its \<noteq> []"
  shows "list_all is_ascii (items_text its)"
    and "\<exists>d ds. items_text its = d # ds \<and> is_ascii_digit d"
    and "\<exists>ds c. items_text its = ds @ [c] \<and> unit_size c \<noteq> None"
proof -
  show "list_all is_ascii (items_text its)"
    using assms(1) item_text_ascii by (fastforce simp: items_text_def list_all_iff)
  obtain it rest where "its = it # rest" using assms(2) by (cases its) auto
  then show "\<exists>d ds. items_text its = d # ds \<and> is_ascii_digit d"
    using show_nat_hd [of "fst it"] by (auto simp: items_text_def item_text_def)
  obtain init it where "its = init @ [it]" using assms(2) by (cases its rule: rev_cases) auto
  with assms(1) show "\<exists>ds c. items_text its = ds @ [c] \<and> unit_size c \<noteq> None"
    by (auto simp: items_text_def item_text_def item_ok_def intro!: exI)
qed

lemma items_text_parse:
  assumes "list_all item_ok its" and "its \<noteq> []"
  shows "interval_parse (items_text its) =
    (if items_secs its < 2 ^ 64 then Inr (from_secs (items_secs its))
     else Inl (IntervalOverflow (items_text its)))"
proof -
  let ?s = "items_text its"
  obtain d ds where d: "?s = d # ds" "is_ascii_digit d" using items_text_shape(2) [OF assms] by blast
  obtain es c where c: "?s = es @ [c]" "unit_size c \<noteq> None"
    using items_text_shape(3) [OF assms] by blast
  have a: "list_all is_ascii ?s" using items_text_shape(1) [OF assms] .
  have ne: "?s \<noteq> []" using d(1) by simp
  have "\<not> is_whitespace (ord (hd ?s))" using d digit_not_ws by simp
  moreover have "\<not> is_whitespace (ord (last ?s))" using c unit_props(4) by auto
  ultimately have t: "trim ?s = ?s" using trim_id [OF a] d(1) by simp
  have "strip_plus ?s = ?s"
    using d digit_not_sign by (auto simp: strip_plus_def strip_prefix_char_def)
  moreover have "\<not> list_all is_ascii_digit ?s"
    using c unit_props(3) by (auto simp: list_all_iff)
  ultimately have u: "parse_u64 ?s = None" by (simp add: parse_unsigned_def parse_nat_def)
  have "interval_parse ?s = interval_loop ?s (map ord ?s) 0 None"
    using ne unfolding interval_parse_def t Let_def u chars_ascii [OF a] by simp
  then show ?thesis using loop_items [OF assms(1), of 0 ?s] by (simp add: checked_u64_def)
qed

subsection \<open>The printer writes such a sequence\<close>

fun unit_items :: "(char \<times> nat) list \<Rightarrow> nat \<Rightarrow> item list" where
  "unit_items [] secs = []"
| "unit_items ((u, sz) # us) secs =
     (if 0 < secs div sz then (secs div sz, u) # unit_items us (secs mod sz)
      else unit_items us secs)"

lemma show_units_items:
  "show_units us secs out wrote = (out @ items_text (unit_items us secs), wrote \<or> unit_items us secs \<noteq> [])"
  by (induction us secs out wrote rule: show_units.induct)
     (auto simp: Let_def items_text_def item_text_def minus_div_mult_eq_mod)

lemma unit_items_ok:
  "list_all (\<lambda>(u, sz). unit_size u = Some sz) us \<Longrightarrow> list_all item_ok (unit_items us secs)"
  by (induction us secs rule: unit_items.induct) (auto simp: item_ok_def)

lemma unit_items_secs:
  assumes "list_all (\<lambda>(u, sz). unit_size u = Some sz) us" and "us \<noteq> []" and "snd (last us) = 1"
  shows "items_secs (unit_items us secs) = secs"
  using assms
  by (induction us secs rule: unit_items.induct)
     (auto simp: items_secs_def item_secs_def div_mult_mod_eq split: if_splits)

lemma units_ok: "list_all (\<lambda>(u, sz). unit_size u = Some sz) units"
  by (simp add: units_def unit_size_def multiplier_def Let_def char_to_lower_def)

lemma show_nat_0: "show_nat 0 = ''0''"
  by code_simp

lemma interval_show_items:
  "\<exists>its. interval_show i = items_text its \<and> its \<noteq> [] \<and> list_all item_ok its \<and> items_secs its = as_secs i"
proof (cases "as_secs i = 0")
  case True
  have "interval_show i = items_text [(0, CHR ''s'')]"
    using True by (simp add: interval_show_def items_text_def item_text_def show_nat_0)
  moreover have "item_ok (0, CHR ''s'')"
    by (simp add: item_ok_def unit_size_def multiplier_def Let_def char_to_lower_def)
  ultimately show ?thesis
    using True by (intro exI [of _ "[(0, CHR ''s'')]"]) (simp add: items_secs_def item_secs_def)
next
  case False
  let ?its = "unit_items units (as_secs i)"
  have sec: "items_secs ?its = as_secs i"
    by (rule unit_items_secs [OF units_ok]) (simp_all add: units_def)
  then have "?its \<noteq> []" using False by (auto simp: items_secs_def)
  moreover from this have "interval_show i = items_text ?its"
    using False by (simp add: interval_show_def Let_def show_units_items)
  ultimately show ?thesis using sec unit_items_ok [OF units_ok] by blast
qed

lemma interval_loop_wf:
  "interval_loop inp chs t current = Inr i \<Longrightarrow> t < 2 ^ 64 \<Longrightarrow> interval_wf i"
  by (induction inp chs t current rule: interval_loop.induct)
     (auto simp: res_simps from_secs_def interval_wf_def checked_u64_def Option.bind_eq_Some_conv
        split: option.splits if_splits)

lemma interval_parse_wf: "interval_parse s = Inr i \<Longrightarrow> interval_wf i"
  using interval_loop_wf [of s "chars (trim s)" 0 None i]
  by (auto simp: interval_parse_def Let_def from_secs_def interval_wf_def
      split: if_splits option.splits dest: parse_unsigned_bound)

lemma interval_parse_show: "interval_wf i \<Longrightarrow> interval_parse (interval_show i) = Inr i"
  using interval_show_items [of i] items_text_parse
  by (auto simp: interval_wf_def from_secs_def)

interpretation interval_codec: wire_codec interval_parse interval_show interval_wf
  by unfold_locales (fact interval_parse_wf, fact interval_parse_show)

subsection \<open>Properties\<close>

text \<open>A sequence of numbers with units (in any order, repeated or not, in either case) parses to
  the sum of its parts when that fits 64 bits and is refused as an overflow otherwise, however the
  overflow comes about: a number, a product or the sum.\<close>

theorem interval_items:
  assumes "list_all item_ok its" and "its \<noteq> []"
  shows "interval_parse (items_text its) =
    (if items_secs its < 2 ^ 64 then Inr (from_secs (items_secs its))
     else Inl (IntervalOverflow (items_text its)))"
  by (rule items_text_parse [OF assms])

theorem interval_items_witness: "interval_parse ''1h30m'' = Inr (from_secs 5400)"
proof -
  let ?its = "[(1, CHR ''h''), (30, CHR ''m'')]"
  have ok: "list_all item_ok ?its"
    by (simp add: item_ok_def unit_size_def multiplier_def Let_def char_to_lower_def)
  have tx: "items_text ?its = ''1h30m''"
    by code_simp
  have sec: "items_secs ?its = 5400"
    by (simp add: items_secs_def item_secs_def unit_size_def multiplier_def Let_def char_to_lower_def
        seconds_defs)
  from interval_items [OF ok] show ?thesis unfolding tx sec by simp
qed

text \<open>Every interval is printed as a text that parses back to it, zero included, and what the
  parser accepts is always such an interval.\<close>

theorem interval_roundtrip:
  "(interval_wf i \<longrightarrow> interval_parse (interval_show i) = Inr i) \<and>
   (interval_wf i \<longleftrightarrow> (\<exists>s. interval_parse s = Inr i))"
  using interval_codec.wf_iff_parsed interval_codec.parse_render by blast

theorem interval_roundtrip_witness: "interval_parse (interval_show (Interval 98124)) = Inr (Interval 98124)"
proof -
  have "interval_wf (Interval 98124)" by (simp add: interval_wf_def)
  with interval_roundtrip [of "Interval 98124"] show ?thesis by blast
qed

subsection \<open>In a configuration file\<close>

text \<open>The serde forms: an interval is written as its text and read from a text or from a number of seconds.\<close>

datatype interval_repr = Text_Repr str | Seconds_Repr nat

definition interval_serialize :: "interval \<Rightarrow> interval_repr" where
  "interval_serialize i = Text_Repr (interval_show i)"

fun interval_deserialize :: "interval_repr \<Rightarrow> (interval_error, interval) result" where
  "interval_deserialize (Text_Repr t) = interval_parse t"
| "interval_deserialize (Seconds_Repr secs) = Inr (from_secs secs)"

theorem interval_survives_file: "interval_wf i \<Longrightarrow> interval_deserialize (interval_serialize i) = Inr i"
  by (simp add: interval_serialize_def interval_parse_show)

end
