(* ===== verification/Config.thy ===== *)
theory Config
  imports Interval Dupecheck Filter_Chain
begin

section \<open>Configuration (\<open>aprsr-config/src/lib.rs\<close>)\<close>

text \<open>
  The configuration records with their defaults and the validation that every loaded
  configuration passes. Reading TOML and environment variables is the work of the figment
  library: \<open>from_toml\<close> takes it as the parameter \<open>figment\<close>.
\<close>

definition PLACEHOLDER_SERVER_ID :: str where "PLACEHOLDER_SERVER_ID = ''NOCALL''"

datatype ip_addr = V4 "nat list" | V6 "nat list" nat

record socket_addr =
  sa_ip :: ip_addr
  sa_port :: nat

datatype 'e config_error =
    Read 'e
  | InvalidServerId str callsign_error
  | PlaceholderServerId
  | NoListeners
  | DuplicateListenerName str
  | InvalidListenerFilter str filter_error

record server_config =
  sv_id :: str
  sv_passcode :: int
  sv_admin :: str
  sv_email :: str
  sv_run_dir :: str

record limits =
  lm_client_timeout :: interval
  lm_upstream_timeout :: interval
  lm_dupecheck_window :: interval
  lm_keepalive_interval :: interval
  lm_file_limit :: nat
  lm_client_queue :: nat

datatype port_kind = FullFeed | Igate | DupeFeed | UdpSubmit

definition accepts_filters :: "port_kind \<Rightarrow> bool" where
  "accepts_filters k \<longleftrightarrow> k = Igate"

definition is_send_only :: "port_kind \<Rightarrow> bool" where
  "is_send_only k \<longleftrightarrow> k = UdpSubmit"

datatype protocol = Tcp | Udp

record listener_config =
  lc_name :: str
  lc_kind :: port_kind
  lc_protocol :: protocol
  lc_bind :: socket_addr
  lc_filter :: "str option"
  lc_max_clients :: "nat option"
  lc_hidden :: bool

datatype uplink_kind = Full | ReadOnly

record uplink =
  ul_name :: str
  ul_kind :: uplink_kind
  ul_address :: str

record config =
  cf_server :: server_config
  cf_limits :: limits
  cf_database_url :: str
  cf_status_bind :: "socket_addr option"
  cf_listeners :: "listener_config list"
  cf_uplinks :: "uplink list"

subsection \<open>Defaults\<close>

definition default_run_dir :: str where "default_run_dir = ''data''"

definition default_client_timeout :: interval where
  "default_client_timeout = from_secs (48 * 60 * 60)"

definition default_upstream_timeout :: interval where
  "default_upstream_timeout = from_secs 15"

definition default_dupecheck_window :: interval where
  "default_dupecheck_window = from_secs DEFAULT_WINDOW_SECS"

definition default_keepalive_interval :: interval where
  "default_keepalive_interval = from_secs 20"

definition default_file_limit :: nat where "default_file_limit = 10000"
definition default_client_queue :: nat where "default_client_queue = 1024"

definition default_database_url :: str where
  "default_database_url = ''sqlite://data/aprsr.sqlite?mode=rwc''"

definition default_limits :: limits where
  "default_limits =
     \<lparr>lm_client_timeout = default_client_timeout,
      lm_upstream_timeout = default_upstream_timeout,
      lm_dupecheck_window = default_dupecheck_window,
      lm_keepalive_interval = default_keepalive_interval,
      lm_file_limit = default_file_limit,
      lm_client_queue = default_client_queue\<rparr>"

subsection \<open>Validation\<close>

fun validate_listeners ::
  "listener_config list \<Rightarrow> str list \<Rightarrow> ('e config_error, unit) result" where
  "validate_listeners [] seen = Inr ()"
| "validate_listeners (l # ls) seen =
     (if list_ex (\<lambda>n. eq_ignore_ascii_case n (lc_name l)) seen
      then Inl (DuplicateListenerName (lc_name l))
      else and_then
        (case lc_filter l of
           Some expression \<Rightarrow>
             map_err (InvalidListenerFilter (lc_name l))
               (and_then (chain_parse expression) (\<lambda>_. Inr ()))
         | None \<Rightarrow> Inr ())
        (\<lambda>_. validate_listeners ls (seen @ [lc_name l])))"

definition config_validate :: "config \<Rightarrow> ('e config_error, unit) result" where
  "config_validate c =
     (if eq_ignore_ascii_case (sv_id (cf_server c)) PLACEHOLDER_SERVER_ID
      then Inl PlaceholderServerId
      else and_then
        (map_err (InvalidServerId (sv_id (cf_server c))) (parse_login (sv_id (cf_server c))))
        (\<lambda>_. if cf_listeners c = [] then Inl NoListeners
             else validate_listeners (cf_listeners c) []))"

definition from_toml ::
  "('t \<Rightarrow> ('e, config) result) \<Rightarrow> 't \<Rightarrow> ('e config_error, config) result" where
  "from_toml figment inp =
     and_then (map_err Read (figment inp)) (\<lambda>c.
     and_then (config_validate c) (\<lambda>_. Inr c))"

definition visible_listeners :: "config \<Rightarrow> listener_config list" where
  "visible_listeners c = filter (\<lambda>l. \<not> lc_hidden l) (cf_listeners c)"

subsection \<open>What validation establishes\<close>

definition listener_ok :: "listener_config \<Rightarrow> bool" where
  "listener_ok l \<longleftrightarrow> (case lc_filter l of None \<Rightarrow> True | Some e \<Rightarrow> is_ok (chain_parse e))"

abbreviation folded_name :: "listener_config \<Rightarrow> str" where
  "folded_name l \<equiv> to_ascii_uppercase (lc_name l)"

lemma filter_step_ok:
  "(case lc_filter l of
      Some expression \<Rightarrow>
        map_err (InvalidListenerFilter (lc_name l)) (and_then (chain_parse expression) (\<lambda>_. Inr ()))
    | None \<Rightarrow> Inr ()) = Inr () \<longleftrightarrow> listener_ok l"
  by (auto simp: listener_ok_def res_simps is_ok_iff split: option.splits)

lemma validate_listeners_iff:
  "validate_listeners ls seen = Inr () \<longleftrightarrow>
     list_all listener_ok ls \<and> distinct (map folded_name ls) \<and>
     set (map folded_name ls) \<inter> set (map to_ascii_uppercase seen) = {}"
proof (induction ls arbitrary: seen)
  case (Cons l ls)
  have dup: "list_ex (\<lambda>n. eq_ignore_ascii_case n (lc_name l)) seen \<longleftrightarrow>
      folded_name l \<in> set (map to_ascii_uppercase seen)"
    unfolding list_ex_iff eq_ignore_iff_uppercase set_map image_iff by metis
  show ?case
    unfolding validate_listeners.simps dup
    by (auto simp: Cons.IH filter_step_ok and_then_Inr)
qed simp

definition server_id_ok :: "str \<Rightarrow> bool" where
  "server_id_ok s \<longleftrightarrow> is_ok (parse_login s) \<and> to_ascii_uppercase s \<noteq> ''NOCALL''"

lemma placeholder_iff:
  "eq_ignore_ascii_case s PLACEHOLDER_SERVER_ID \<longleftrightarrow> to_ascii_uppercase s = ''NOCALL''"
proof -
  have "to_ascii_uppercase ''NOCALL'' = ''NOCALL''" by code_simp
  then show ?thesis by (simp add: eq_ignore_iff_uppercase PLACEHOLDER_SERVER_ID_def)
qed

lemma config_validate_iff:
  "config_validate c = Inr () \<longleftrightarrow>
     server_id_ok (sv_id (cf_server c)) \<and> cf_listeners c \<noteq> [] \<and>
     list_all listener_ok (cf_listeners c) \<and> distinct (map folded_name (cf_listeners c))"
  by (auto simp: config_validate_def placeholder_iff server_id_ok_def res_simps is_ok_iff
      validate_listeners_iff)

lemma from_toml_iff:
  fixes figment :: "'t \<Rightarrow> ('e, config) result"
  shows "from_toml figment inp = Inr c \<longleftrightarrow>
    figment inp = Inr c \<and> config_validate c = (Inr () :: ('e config_error, unit) result)"
  by (auto simp: from_toml_def res_simps)

text \<open>The first of two listeners with names that differ only in case is accepted, the second is not.\<close>

lemma validate_listeners_append:
  "validate_listeners (ks @ ls) seen =
     and_then (validate_listeners ks seen) (\<lambda>_. validate_listeners ls (seen @ map lc_name ks))"
proof (induction ks arbitrary: seen)
  case (Cons k ks)
  have assoc: "and_then (and_then r f) g = and_then r (\<lambda>x. and_then (f x) g)"
    for r :: "('e config_error, unit) result" and f g
    by (cases r) simp_all
  show ?case by (simp add: Cons.IH assoc)
qed simp

subsection \<open>Properties\<close>

text \<open>A configuration is loaded exactly when the reader produces it, its server id is a login
  callsign other than the placeholder in any case, it has a listener, the listener names are
  pairwise different up to case, and every port filter is a valid filter expression.\<close>

theorem loaded_config_iff:
  "from_toml figment inp = Inr c \<longleftrightarrow>
     figment inp = Inr c \<and> is_ok (parse_login (sv_id (cf_server c))) \<and>
     to_ascii_uppercase (sv_id (cf_server c)) \<noteq> ''NOCALL'' \<and> cf_listeners c \<noteq> [] \<and>
     distinct (map (\<lambda>l. to_ascii_uppercase (lc_name l)) (cf_listeners c)) \<and>
     list_all (\<lambda>l. case lc_filter l of None \<Rightarrow> True | Some e \<Rightarrow> is_ok (chain_parse e)) (cf_listeners c)"
  unfolding from_toml_iff config_validate_iff server_id_ok_def listener_ok_def by blast

text \<open>The listener named in a duplicate-name error is the first one whose name repeats, up to
  case, that of a listener before it, and every listener before it is fine.\<close>

theorem duplicate_listener_reported:
  assumes "server_id_ok (sv_id (cf_server c))"
    and "cf_listeners c = ks @ l # ls"
    and "validate_listeners ks [] = (Inr () :: ('e config_error, unit) result)"
    and "to_ascii_uppercase (lc_name l) \<in> to_ascii_uppercase ` lc_name ` set ks"
  shows "config_validate c = (Inl (DuplicateListenerName (lc_name l)) :: ('e config_error, unit) result)"
proof -
  have "list_ex (\<lambda>n. eq_ignore_ascii_case n (lc_name l)) (map lc_name ks)"
    using assms(4) unfolding list_ex_iff eq_ignore_iff_uppercase set_map by force
  then have "validate_listeners (cf_listeners c) [] =
      (Inl (DuplicateListenerName (lc_name l)) :: ('e config_error, unit) result)"
    unfolding assms(2) validate_listeners_append assms(3) by simp
  then show ?thesis
    using assms(1,2) by (auto simp: config_validate_def placeholder_iff server_id_ok_def is_ok_iff)
qed

definition sample_addr :: socket_addr where
  "sample_addr = \<lparr>sa_ip = V6 [0, 0, 0, 0, 0, 0, 0, 0] 0, sa_port = 14580\<rparr>"

definition sample_listener :: "str \<Rightarrow> listener_config" where
  "sample_listener name =
     \<lparr>lc_name = name, lc_kind = Igate, lc_protocol = Tcp, lc_bind = sample_addr, lc_filter = None,
      lc_max_clients = None, lc_hidden = False\<rparr>"

definition sample_config :: "listener_config list \<Rightarrow> config" where
  "sample_config ls =
     \<lparr>cf_server = \<lparr>sv_id = ''T2TEST'', sv_passcode = 0, sv_admin = [], sv_email = [],
        sv_run_dir = default_run_dir\<rparr>,
      cf_limits = default_limits, cf_database_url = default_database_url, cf_status_bind = None,
      cf_listeners = ls, cf_uplinks = []\<rparr>"

theorem duplicate_listener_reported_witness:
  "config_validate (sample_config [sample_listener ''Full'', sample_listener ''FULL'']) =
     (Inl (DuplicateListenerName ''FULL'') :: (unit config_error, unit) result)"
proof -
  let ?c = "sample_config [sample_listener ''Full'', sample_listener ''FULL'']"
  have "server_id_ok ''T2TEST''" by code_simp
  then have i: "server_id_ok (sv_id (cf_server ?c))" by (simp add: sample_config_def)
  have l: "cf_listeners ?c = [sample_listener ''Full''] @ sample_listener ''FULL'' # []"
    by (simp add: sample_config_def)
  have v: "validate_listeners [sample_listener ''Full''] [] = (Inr () :: (unit config_error, unit) result)"
    by (simp add: sample_listener_def)
  have "to_ascii_uppercase ''Full'' = ''FULL''" "to_ascii_uppercase ''FULL'' = ''FULL''" by code_simp+
  then have d: "to_ascii_uppercase (lc_name (sample_listener ''FULL'')) \<in>
      to_ascii_uppercase ` lc_name ` set [sample_listener ''Full'']"
    by (simp add: sample_listener_def)
  show ?thesis
    using duplicate_listener_reported [OF i l v d] by (simp add: sample_listener_def)
qed

end
