(* ===== verification/Metrics.thy ===== *)
theory Metrics
  imports Prelude
begin

section \<open>Traffic counters (\<open>aprsr-server/src/metrics.rs\<close>)\<close>

text \<open>
  The server-wide and the per-client counters. Every counter is an \<open>AtomicU64\<close>: a 64-bit word whose
  \<open>fetch_add\<close> and \<open>fetch_sub\<close> wrap around. The connection log stores signed 64-bit integers, and
  \<open>client_totals\<close> saturates instead of wrapping into the negative.
\<close>

type_synonym u64 = "64 word"

record metrics =
  mt_packets_received :: u64
  mt_packets_sent :: u64
  mt_packets_duplicate :: u64
  mt_packets_invalid :: u64
  mt_packets_rejected :: u64
  mt_packets_unverified :: u64
  mt_packets_dropped_slow :: u64
  mt_bytes_received :: u64
  mt_bytes_sent :: u64
  mt_clients_connected :: u64
  mt_clients_total :: u64
  mt_logins_rejected :: u64

definition metrics_new :: metrics where
  "metrics_new =
     \<lparr>mt_packets_received = 0, mt_packets_sent = 0, mt_packets_duplicate = 0, mt_packets_invalid = 0,
      mt_packets_rejected = 0, mt_packets_unverified = 0, mt_packets_dropped_slow = 0,
      mt_bytes_received = 0, mt_bytes_sent = 0, mt_clients_connected = 0, mt_clients_total = 0,
      mt_logins_rejected = 0\<rparr>"

definition ctr_add :: "u64 \<Rightarrow> u64 \<Rightarrow> u64" where
  "ctr_add counter v = counter + v"

definition ctr_incr :: "u64 \<Rightarrow> u64" where
  "ctr_incr counter = counter + 1"

definition ctr_decr :: "u64 \<Rightarrow> u64" where
  "ctr_decr counter = counter - 1"

record metrics_snapshot =
  ms_packets_received :: u64
  ms_packets_sent :: u64
  ms_packets_duplicate :: u64
  ms_packets_invalid :: u64
  ms_packets_rejected :: u64
  ms_packets_unverified :: u64
  ms_packets_dropped_slow :: u64
  ms_bytes_received :: u64
  ms_bytes_sent :: u64
  ms_clients_connected :: u64
  ms_clients_total :: u64
  ms_logins_rejected :: u64

definition metrics_snapshot_of :: "metrics \<Rightarrow> metrics_snapshot" where
  "metrics_snapshot_of m =
     \<lparr>ms_packets_received = mt_packets_received m,
      ms_packets_sent = mt_packets_sent m,
      ms_packets_duplicate = mt_packets_duplicate m,
      ms_packets_invalid = mt_packets_invalid m,
      ms_packets_rejected = mt_packets_rejected m,
      ms_packets_unverified = mt_packets_unverified m,
      ms_packets_dropped_slow = mt_packets_dropped_slow m,
      ms_bytes_received = mt_bytes_received m,
      ms_bytes_sent = mt_bytes_sent m,
      ms_clients_connected = mt_clients_connected m,
      ms_clients_total = mt_clients_total m,
      ms_logins_rejected = mt_logins_rejected m\<rparr>"

record client_counters =
  cc_packets_received :: u64
  cc_packets_sent :: u64
  cc_packets_dropped :: u64
  cc_bytes_received :: u64
  cc_bytes_sent :: u64

definition counters_new :: client_counters where
  "counters_new =
     \<lparr>cc_packets_received = 0, cc_packets_sent = 0, cc_packets_dropped = 0, cc_bytes_received = 0,
      cc_bytes_sent = 0\<rparr>"

definition I64_MAX :: int where "I64_MAX = 2 ^ 63 - 1"

text \<open>\<open>i64::try_from(n).unwrap_or(i64::MAX)\<close>\<close>

definition i64_saturating :: "nat \<Rightarrow> int" where
  "i64_saturating n = (if int n \<le> I64_MAX then int n else I64_MAX)"

record session_totals =
  st_packets_received :: int
  st_packets_sent :: int
  st_packets_dropped :: int
  st_bytes_received :: int
  st_bytes_sent :: int

definition client_totals :: "client_counters \<Rightarrow> session_totals" where
  "client_totals c =
     \<lparr>st_packets_received = i64_saturating (unat (cc_packets_received c)),
      st_packets_sent = i64_saturating (unat (cc_packets_sent c)),
      st_packets_dropped = i64_saturating (unat (cc_packets_dropped c)),
      st_bytes_received = i64_saturating (unat (cc_bytes_received c)),
      st_bytes_sent = i64_saturating (unat (cc_bytes_sent c))\<rparr>"

lemma i64_saturating_bounds: "0 \<le> i64_saturating n \<and> i64_saturating n \<le> I64_MAX"
  by (simp add: i64_saturating_def I64_MAX_def)

lemma i64_saturating_mono: "a \<le> b \<Longrightarrow> i64_saturating a \<le> i64_saturating b"
  by (simp add: i64_saturating_def)

lemma unat_ctr_incr: "unat (ctr_incr c) = (unat c + 1) mod 2 ^ 64"
  by (simp add: ctr_incr_def unat_word_ariths)

lemma unat_ctr_add: "unat (ctr_add c v) = (unat c + unat v) mod 2 ^ 64"
  by (simp add: ctr_add_def unat_word_ariths)

end
