(* ===== verification/Registry.thy ===== *)
theory Registry
  imports Config Metrics "HOL-Library.AList" "HOL-Library.Multiset" "HOL-Library.Product_Lexorder"
begin

section \<open>The client registry and packet fan-out (\<open>aprsr-server/src/registry.rs\<close>)\<close>

text \<open>
  The registry is an association list from client ids to clients. Its order stands for the order
  in which the concurrent map is iterated, which the map does not specify:
  \<open>broadcast_order_irrelevant\<close> shows that nothing depends on it.

  A client's outgoing queue is a bounded channel of the tokio library. Its state is the type
  parameter \<open>'o\<close>, and its \<open>try_send\<close> is the parameter \<open>send\<close>: \<open>send q line\<close> is the queue with the
  line, or \<open>None\<close> when the queue is full or closed. The reader-writer lock around a filter is
  poisoned only by a panic while it is held, which the code has none of; it is left out.
\<close>

type_synonym client_id = u64

record 'o client =
  cl_id :: client_id
  cl_callsign :: str
  cl_remote :: socket_addr
  cl_listener :: str
  cl_port_kind :: port_kind
  cl_software :: "str option"
  cl_verified :: bool
  cl_connected_at :: nat
  cl_session_id :: "int option"
  cl_counters :: client_counters
  cl_filter :: "filter_entry list"
  cl_filter_locked :: bool
  cl_outbox :: 'o

record 'o registration =
  re_callsign :: str
  re_remote :: socket_addr
  re_listener :: str
  re_port_kind :: port_kind
  re_software :: "str option"
  re_verified :: bool
  re_connected_at :: nat
  re_session_id :: "int option"
  re_filter :: "filter_entry list"
  re_filter_locked :: bool
  re_outbox :: 'o

definition set_filter :: "'o client \<Rightarrow> filter_entry list \<Rightarrow> bool \<times> 'o client" where
  "set_filter c chain =
     (if cl_filter_locked c then (False, c) else (True, c\<lparr>cl_filter := chain\<rparr>))"

definition try_send ::
  "('o \<Rightarrow> str \<Rightarrow> 'o option) \<Rightarrow> 'o client \<Rightarrow> str \<Rightarrow> bool \<times> 'o client" where
  "try_send send c line =
     (case send (cl_outbox c) line of
        Some q \<Rightarrow> (True, c\<lparr>cl_outbox := q\<rparr>)
      | None \<Rightarrow> (False, c))"

record 'o registry =
  rg_clients :: "(client_id \<times> 'o client) list"
  rg_next_id :: u64

definition registry_new :: "'o registry" where
  "registry_new = \<lparr>rg_clients = [], rg_next_id = 0\<rparr>"

definition reg_insert :: "'o registry \<Rightarrow> 'o registration \<Rightarrow> 'o client \<times> 'o registry" where
  "reg_insert r g =
     (let i = rg_next_id r;
          c = \<lparr>cl_id = i,
               cl_callsign = re_callsign g,
               cl_remote = re_remote g,
               cl_listener = re_listener g,
               cl_port_kind = re_port_kind g,
               cl_software = re_software g,
               cl_verified = re_verified g,
               cl_connected_at = re_connected_at g,
               cl_session_id = re_session_id g,
               cl_counters = counters_new,
               cl_filter = re_filter g,
               cl_filter_locked = re_filter_locked g,
               cl_outbox = re_outbox g\<rparr>
      in (c, r\<lparr>rg_next_id := i + 1, rg_clients := AList.update i c (rg_clients r)\<rparr>))"

definition reg_remove :: "'o registry \<Rightarrow> client_id \<Rightarrow> 'o client option \<times> 'o registry" where
  "reg_remove r i =
     (map_of (rg_clients r) i, r\<lparr>rg_clients := AList.delete i (rg_clients r)\<rparr>)"

definition reg_get :: "'o registry \<Rightarrow> client_id \<Rightarrow> 'o client option" where
  "reg_get r i = map_of (rg_clients r) i"

definition reg_len :: "'o registry \<Rightarrow> nat" where
  "reg_len r = length (rg_clients r)"

definition reg_is_empty :: "'o registry \<Rightarrow> bool" where
  "reg_is_empty r \<longleftrightarrow> rg_clients r = []"

definition count_on_listener :: "'o registry \<Rightarrow> str \<Rightarrow> nat" where
  "count_on_listener r name = length (filter (\<lambda>e. cl_listener (snd e) = name) (rg_clients r))"

definition reg_snapshot :: "'o registry \<Rightarrow> 'o client list" where
  "reg_snapshot r = sort_key (\<lambda>c. (cl_connected_at c, cl_id c)) (map snd (rg_clients r))"

text \<open>A packet on its way to the clients: the line with its parses, its origin and the positions.\<close>

record feed =
  fd_packet :: packet
  fd_parsed :: parsed_payload
  fd_line :: str
  fd_origin :: "client_id option"
  fd_positions :: "str \<Rightarrow> position option"

definition accepts :: "libm \<Rightarrow> feed \<Rightarrow> 'o client \<Rightarrow> bool" where
  "accepts m f c =
     (case cl_port_kind c of
        FullFeed \<Rightarrow> True
      | UdpSubmit \<Rightarrow> False
      | DupeFeed \<Rightarrow> False
      | Igate \<Rightarrow>
          chain_matches m
            \<lparr>mc_packet = fd_packet f, mc_parsed = fd_parsed f, mc_client = Some (cl_callsign c),
             mc_positions = fd_positions f\<rparr>
            (cl_filter c))"

definition feed_bytes :: "feed \<Rightarrow> u64" where
  "feed_bytes f = of_nat (length (fd_line f)) + 2"

definition offer ::
  "('o \<Rightarrow> str \<Rightarrow> 'o option) \<Rightarrow> libm \<Rightarrow> feed \<Rightarrow> 'o client \<Rightarrow> metrics \<Rightarrow> 'o client \<times> metrics" where
  "offer send m f c mt =
     (if Some (cl_id c) = fd_origin f then (c, mt)
      else if \<not> accepts m f c then (c, mt)
      else case try_send send c (fd_line f) of
        (True, c) \<Rightarrow>
          (c\<lparr>cl_counters := (cl_counters c)
               \<lparr>cc_packets_sent := ctr_incr (cc_packets_sent (cl_counters c)),
                cc_bytes_sent := ctr_add (cc_bytes_sent (cl_counters c)) (feed_bytes f)\<rparr>\<rparr>,
           mt\<lparr>mt_packets_sent := ctr_incr (mt_packets_sent mt),
              mt_bytes_sent := ctr_add (mt_bytes_sent mt) (feed_bytes f)\<rparr>)
      | (False, c) \<Rightarrow>
          (c\<lparr>cl_counters := (cl_counters c)
               \<lparr>cc_packets_dropped := ctr_incr (cc_packets_dropped (cl_counters c))\<rparr>\<rparr>,
           mt\<lparr>mt_packets_dropped_slow := ctr_incr (mt_packets_dropped_slow mt)\<rparr>))"

fun broadcast_loop ::
  "('o \<Rightarrow> str \<Rightarrow> 'o option) \<Rightarrow> libm \<Rightarrow> feed \<Rightarrow> (client_id \<times> 'o client) list \<Rightarrow> metrics \<Rightarrow>
     (client_id \<times> 'o client) list \<times> metrics" where
  "broadcast_loop send m f [] mt = ([], mt)"
| "broadcast_loop send m f ((k, c) # es) mt =
     (case offer send m f c mt of (c', mt') \<Rightarrow>
      case broadcast_loop send m f es mt' of (es', mt'') \<Rightarrow> ((k, c') # es', mt''))"

definition broadcast ::
  "('o \<Rightarrow> str \<Rightarrow> 'o option) \<Rightarrow> libm \<Rightarrow> 'o registry \<Rightarrow> feed \<Rightarrow> metrics \<Rightarrow> 'o registry \<times> metrics" where
  "broadcast send m r f mt =
     (case broadcast_loop send m f (rg_clients r) mt of (es, mt') \<Rightarrow> (r\<lparr>rg_clients := es\<rparr>, mt'))"

subsection \<open>What one broadcast does\<close>

definition eligible :: "libm \<Rightarrow> feed \<Rightarrow> 'o client \<Rightarrow> bool" where
  "eligible m f c \<longleftrightarrow> Some (cl_id c) \<noteq> fd_origin f \<and> accepts m f c"

definition queued :: "('o \<Rightarrow> str \<Rightarrow> 'o option) \<Rightarrow> libm \<Rightarrow> feed \<Rightarrow> 'o client \<Rightarrow> bool" where
  "queued send m f c \<longleftrightarrow> eligible m f c \<and> send (cl_outbox c) (fd_line f) \<noteq> None"

definition dropped :: "('o \<Rightarrow> str \<Rightarrow> 'o option) \<Rightarrow> libm \<Rightarrow> feed \<Rightarrow> 'o client \<Rightarrow> bool" where
  "dropped send m f c \<longleftrightarrow> eligible m f c \<and> send (cl_outbox c) (fd_line f) = None"

definition after_offer ::
  "('o \<Rightarrow> str \<Rightarrow> 'o option) \<Rightarrow> libm \<Rightarrow> feed \<Rightarrow> 'o client \<Rightarrow> 'o client" where
  "after_offer send m f c = fst (offer send m f c metrics_new)"

definition count_feed :: "feed \<Rightarrow> nat \<Rightarrow> nat \<Rightarrow> metrics \<Rightarrow> metrics" where
  "count_feed f s d mt =
     mt\<lparr>mt_packets_sent := mt_packets_sent mt + of_nat s,
        mt_bytes_sent := mt_bytes_sent mt + of_nat s * feed_bytes f,
        mt_packets_dropped_slow := mt_packets_dropped_slow mt + of_nat d\<rparr>"

lemma count_feed_0 [simp]: "count_feed f 0 0 mt = mt"
  by (simp add: count_feed_def)

lemma count_feed_add [simp]: "count_feed f s d (count_feed f s' d' mt) = count_feed f (s' + s) (d' + d) mt"
  by (simp add: count_feed_def algebra_simps)

lemma offer_eq:
  "offer send m f c mt =
     (after_offer send m f c,
      count_feed f (of_bool (queued send m f c)) (of_bool (dropped send m f c)) mt)"
  by (simp add: after_offer_def offer_def try_send_def queued_def dropped_def eligible_def
      count_feed_def ctr_incr_def ctr_add_def split: option.splits)

lemma after_offer_cases:
  "after_offer send m f c =
     (if \<not> eligible m f c then c
      else case send (cl_outbox c) (fd_line f) of
        Some q \<Rightarrow> c\<lparr>cl_outbox := q, cl_counters := (cl_counters c)
            \<lparr>cc_packets_sent := cc_packets_sent (cl_counters c) + 1,
             cc_bytes_sent := cc_bytes_sent (cl_counters c) + feed_bytes f\<rparr>\<rparr>
      | None \<Rightarrow> c\<lparr>cl_counters := (cl_counters c)
            \<lparr>cc_packets_dropped := cc_packets_dropped (cl_counters c) + 1\<rparr>\<rparr>)"
  by (simp add: after_offer_def offer_def try_send_def eligible_def ctr_incr_def ctr_add_def
      split: option.splits)

lemma after_offer_id [simp]: "cl_id (after_offer send m f c) = cl_id c"
  by (simp add: after_offer_cases split: option.splits)

abbreviation count_clients :: "('o client \<Rightarrow> bool) \<Rightarrow> (client_id \<times> 'o client) list \<Rightarrow> nat" where
  "count_clients P es \<equiv> length (filter (\<lambda>e. P (snd e)) es)"

lemma broadcast_loop_eq:
  "broadcast_loop send m f es mt =
     (map (\<lambda>(k, c). (k, after_offer send m f c)) es,
      count_feed f (count_clients (queued send m f) es) (count_clients (dropped send m f) es) mt)"
proof (induction es arbitrary: mt)
  case (Cons e es)
  obtain k c where e: "e = (k, c)" by (cases e)
  show ?case by (simp add: e offer_eq Cons.IH)
qed simp

lemma broadcast_eq:
  "broadcast send m r f mt =
     (r\<lparr>rg_clients := map (\<lambda>(k, c). (k, after_offer send m f c)) (rg_clients r)\<rparr>,
      count_feed f (count_clients (queued send m f) (rg_clients r))
        (count_clients (dropped send m f) (rg_clients r)) mt)"
  by (simp add: broadcast_def broadcast_loop_eq)

lemma map_of_map_clients:
  "map_of (map (\<lambda>(k, c). (k, g c)) es) i = map_option g (map_of es i)"
  by (induction es) auto

lemma broadcast_get:
  "reg_get (fst (broadcast send m r f mt)) i = map_option (after_offer send m f) (reg_get r i)"
  by (simp add: broadcast_eq reg_get_def map_of_map_clients)

subsection \<open>The registry as a transition system\<close>

text \<open>
  A client is shared between the registry and its connection, which changes its filter and its
  counters in place: \<open>with_client\<close> applies such a change. \<open>reg_step\<close> has one rule per operation;
  its second component counts the inserts, of which there are at most \<open>2 ^ 64\<close>.
\<close>

definition with_client :: "'o registry \<Rightarrow> client_id \<Rightarrow> ('o client \<Rightarrow> 'o client) \<Rightarrow> 'o registry" where
  "with_client r i g =
     r\<lparr>rg_clients := map (\<lambda>(k, c). (k, if k = i then g c else c)) (rg_clients r)\<rparr>"

lemma map_of_with:
  "map_of (map (\<lambda>(k, c). (k, if k = i then g c else c)) es) j =
     (if j = i then map_option g (map_of es j) else map_of es j)"
  by (induction es) auto

lemma with_client_get:
  "reg_get (with_client r i g) j = (if j = i then map_option g (reg_get r j) else reg_get r j)"
  by (simp add: reg_get_def with_client_def map_of_with)

inductive reg_step ::
  "('o \<Rightarrow> str \<Rightarrow> 'o option) \<Rightarrow> libm \<Rightarrow> 'o registry \<times> nat \<Rightarrow> 'o registry \<times> nat \<Rightarrow> bool"
  for send :: "'o \<Rightarrow> str \<Rightarrow> 'o option" and m :: libm
where
  insert: "n < 2 ^ 64 \<Longrightarrow> reg_step send m (r, n) (snd (reg_insert r g), Suc n)"
| remove: "reg_step send m (r, n) (snd (reg_remove r i), n)"
| refilter: "reg_step send m (r, n) (with_client r i (\<lambda>c. snd (set_filter c chain)), n)"
| touch: "reg_step send m (r, n) (with_client r i (\<lambda>c. c\<lparr>cl_counters := k c, cl_outbox := b c\<rparr>), n)"
| send: "reg_step send m (r, n) (fst (broadcast send m r f mt), n)"

inductive_cases reg_stepE: "reg_step send m (r, n) t"

definition reg_init :: "'o registry \<times> nat \<Rightarrow> bool" where
  "reg_init s \<longleftrightarrow> s = (registry_new, 0)"

definition reg_inv :: "'o registry \<times> nat \<Rightarrow> bool" where
  "reg_inv s \<longleftrightarrow>
     (case s of (r, n) \<Rightarrow>
        n \<le> 2 ^ 64 \<and> rg_next_id r = of_nat n \<and> distinct (map fst (rg_clients r)) \<and>
        (\<forall>(k, c) \<in> set (rg_clients r). cl_id c = k \<and> unat k < n))"

lemma map_fst_clients: "map fst (map (\<lambda>(k, c). (k, g k c)) es) = map fst es"
  by (induction es) auto

lemma update_fresh: "i \<notin> fst ` set es \<Longrightarrow> AList.update i c es = es @ [(i, c)]"
  by (induction es) auto

lemma reg_inv_map:
  assumes "reg_inv (r, n)" and "\<And>k c. cl_id (g k c) = cl_id c"
  shows "reg_inv (r\<lparr>rg_clients := map (\<lambda>(k, c). (k, g k c)) (rg_clients r)\<rparr>, n)"
  using assms(1) by (auto simp: reg_inv_def map_fst_clients assms(2) simp del: map_map)

lemma set_filter_id: "cl_id (snd (set_filter c chain)) = cl_id c"
  by (simp add: set_filter_def)

text \<open>The next id is not in use as long as there were fewer than \<open>2 ^ 64\<close> inserts.\<close>

lemma reg_inv_fresh:
  assumes "reg_inv (r, n)" and "n < 2 ^ 64"
  shows "rg_next_id r \<notin> fst ` set (rg_clients r)"
proof -
  have "unat (of_nat n :: u64) = n"
    using assms(2) by (simp add: unat_of_nat)
  with assms(1) show ?thesis by (force simp: reg_inv_def)
qed

lemma reg_insert_fresh:
  assumes "rg_next_id r \<notin> fst ` set (rg_clients r)"
  shows "snd (reg_insert r g) =
    r\<lparr>rg_next_id := rg_next_id r + 1, rg_clients := rg_clients r @ [(rg_next_id r, fst (reg_insert r g))]\<rparr>"
  using update_fresh [OF assms] by (simp add: reg_insert_def Let_def)

lemma reg_insert_id: "cl_id (fst (reg_insert r g)) = rg_next_id r"
  by (simp add: reg_insert_def Let_def)

lemma reg_inv_insert:
  assumes "reg_inv (r, n)" and "n < 2 ^ 64"
  shows "reg_inv (snd (reg_insert r g), Suc n)"
proof -
  note fresh = reg_inv_fresh [OF assms]
  have u: "unat (of_nat n :: u64) = n"
    using assms(2) by (simp add: unat_of_nat)
  from assms u fresh reg_insert_id [of r g] show ?thesis
    unfolding reg_insert_fresh [OF fresh] reg_inv_def by auto
qed

lemma reg_inv_remove: "reg_inv (r, n) \<Longrightarrow> reg_inv (snd (reg_remove r i), n)"
  using AList.distinct_delete [of "rg_clients r" i]
  by (fastforce simp: reg_inv_def reg_remove_def AList.delete_eq simp del: filter_map)

lemma reg_inv_step: "reg_inv s \<Longrightarrow> reg_step send m s t \<Longrightarrow> reg_inv t"
proof -
  assume i: "reg_inv s" and "reg_step send m s t"
  from this(2) show ?thesis
  proof (cases rule: reg_step.cases)
    case (insert n r g)
    with i show ?thesis by (auto intro: reg_inv_insert)
  next
    case (remove r n i)
    with i show ?thesis by (auto intro: reg_inv_remove)
  next
    case (refilter r n i chain)
    with i show ?thesis
      unfolding with_client_def by (auto intro!: reg_inv_map simp: set_filter_id)
  next
    case (touch r n i k b)
    with i show ?thesis unfolding with_client_def by (auto intro!: reg_inv_map)
  next
    case (send r n f mt)
    with i show ?thesis by (auto intro!: reg_inv_map simp: broadcast_eq)
  qed
qed

interpretation registry: inductive_invariant reg_init "reg_step send m" reg_inv for send m
proof unfold_locales
  show "reg_inv s" if "reg_init s" for s :: "'o registry \<times> nat"
    using that by (simp add: reg_init_def reg_inv_def registry_new_def)
  show "reg_inv t" if "reg_inv s" and "reg_step send m s t"
    for s t :: "'o registry \<times> nat" and send :: "'o \<Rightarrow> str \<Rightarrow> 'o option" and m
    using that by (rule reg_inv_step)
qed

lemma reg_step_mono: "reg_step send m s t \<Longrightarrow> snd s \<le> snd t"
  by (cases rule: reg_step.cases) auto

lemma reg_steps_mono: "(reg_step send m)\<^sup>*\<^sup>* s t \<Longrightarrow> snd s \<le> snd t"
  by (induction rule: rtranclp_induct) (auto dest: reg_step_mono)

lemma reg_inv_insert_id:
  "reg_inv (r, n) \<Longrightarrow> n < 2 ^ 64 \<Longrightarrow> unat (cl_id (fst (reg_insert r g))) = n"
  by (simp add: reg_insert_id reg_inv_def unat_of_nat)

subsection \<open>A forced filter stays in force\<close>

text \<open>Client \<open>i\<close>, once registered with a locked filter, has this filter as long as it is there.\<close>

definition forced :: "client_id \<Rightarrow> filter_entry list \<Rightarrow> 'o registry \<times> nat \<Rightarrow> bool" where
  "forced i chain s \<longleftrightarrow> reg_inv s \<and> unat i < snd s \<and>
     (\<forall>c. reg_get (fst s) i = Some c \<longrightarrow> cl_filter_locked c \<and> cl_filter c = chain)"

lemma after_offer_filter:
  "cl_filter (after_offer send m f c) = cl_filter c"
  "cl_filter_locked (after_offer send m f c) = cl_filter_locked c"
  by (simp_all add: after_offer_cases split: option.splits)

lemma forced_step: "forced i chain s \<Longrightarrow> reg_step send m s t \<Longrightarrow> forced i chain t"
proof -
  assume f: "forced i chain s" and st: "reg_step send m s t"
  have inv: "reg_inv t" and mono: "unat i < snd t"
    using reg_inv_step [OF _ st] reg_step_mono [OF st] f by (auto simp: forced_def)
  have "cl_filter_locked c \<and> cl_filter c = chain" if g: "reg_get (fst t) i = Some c" for c
    using st
  proof (cases rule: reg_step.cases)
    case (insert n r k)
    then have ri: "reg_inv (r, n)" using f by (simp add: forced_def)
    note fresh = reg_inv_fresh [OF ri insert(3)]
    have "unat (rg_next_id r) = n" using ri insert(3) by (simp add: reg_inv_def unat_of_nat)
    then have "i \<noteq> rg_next_id r" using f insert by (auto simp: forced_def)
    then have "reg_get r i = Some c"
      using g insert by (auto simp: reg_get_def reg_insert_fresh [OF fresh] map_add_def split: option.splits)
    with f insert show ?thesis by (simp add: forced_def)
  next
    case (remove r n j)
    then have "reg_get r i = Some c"
      using g by (auto simp: reg_get_def reg_remove_def AList.delete_conv' split: if_splits)
    with f remove show ?thesis by (simp add: forced_def)
  next
    case (refilter r n j ch)
    with f g show ?thesis
      by (auto simp: forced_def with_client_get set_filter_def split: if_splits)
  next
    case (touch r n j k b)
    with f g show ?thesis by (auto simp: forced_def with_client_get split: if_splits)
  next
    case (send r n fd mt)
    with f g show ?thesis by (auto simp: forced_def broadcast_get after_offer_filter)
  qed
  with inv mono show ?thesis by (simp add: forced_def)
qed

interpretation forced_filter: inductive_invariant "forced i chain" "reg_step send m" "forced i chain"
  for i chain send m
  by unfold_locales (assumption, rule forced_step)

subsection \<open>Properties\<close>

text \<open>Over any sequence of connects, disconnects, filter commands and broadcasts with fewer than
  2 to the 64 connects, a new client gets an id greater than every id given out before it, and its
  entry never replaces another client's.\<close>

theorem client_ids_increase:
  assumes "(reg_step send m)\<^sup>*\<^sup>* (registry_new, 0) (r, n)" and "n < 2 ^ 64"
    and "(reg_step send m)\<^sup>*\<^sup>* (snd (reg_insert r g), Suc n) (r', n')" and "n' < 2 ^ 64"
  shows "cl_id (fst (reg_insert r g)) < cl_id (fst (reg_insert r' g')) \<and>
    reg_get r' (cl_id (fst (reg_insert r' g'))) = None"
proof -
  have i: "reg_inv (r, n)"
    using registry.reachable_inv [OF _ assms(1)] by (simp add: reg_init_def)
  have i': "reg_inv (r', n')"
    using registry.steps_inv [OF assms(3)] reg_inv_insert [OF i assms(2)] by blast
  have "Suc n \<le> n'" using reg_steps_mono [OF assms(3)] by simp
  then show ?thesis
    using reg_inv_insert_id [OF i assms(2)] reg_inv_insert_id [OF i' assms(4)] reg_inv_fresh [OF i' assms(4)]
    by (simp add: word_less_nat_alt reg_get_def reg_insert_id map_of_eq_None_iff)
qed

text \<open>A broadcast changes exactly the clients that did not send the packet and accept it: such a
  client has the line in its queue and one more packet and the line with its CR and LF counted, or,
  when the queue is full, the same queue and one more dropped packet. Nothing depends on the other
  clients, and the sender is never offered its own packet.\<close>

theorem broadcast_per_client:
  assumes "reg_get r i = Some c" and "broadcast send m r f mt = (r', mt')"
  shows "reg_get r' i = Some
    (if Some (cl_id c) = fd_origin f \<or> \<not> accepts m f c then c
     else case send (cl_outbox c) (fd_line f) of
       Some q \<Rightarrow> c\<lparr>cl_outbox := q, cl_counters := (cl_counters c)
           \<lparr>cc_packets_sent := cc_packets_sent (cl_counters c) + 1,
            cc_bytes_sent := cc_bytes_sent (cl_counters c) + of_nat (length (fd_line f) + 2)\<rparr>\<rparr>
     | None \<Rightarrow> c\<lparr>cl_counters := (cl_counters c)
           \<lparr>cc_packets_dropped := cc_packets_dropped (cl_counters c) + 1\<rparr>\<rparr>)"
  using broadcast_get [of send m r f mt i] assms
  by (simp add: after_offer_cases eligible_def feed_bytes_def split: option.splits)

text \<open>A broadcast adds to the server's counters one sent packet and its bytes for every client
  that queued it and one slow drop for every client that could not, and touches no other counter.\<close>

theorem broadcast_accounting:
  "snd (broadcast send m r f mt) =
     (let es = map snd (rg_clients r);
          wanted = filter (\<lambda>c. Some (cl_id c) \<noteq> fd_origin f \<and> accepts m f c) es;
          sent = length (filter (\<lambda>c. send (cl_outbox c) (fd_line f) \<noteq> None) wanted);
          slow = length wanted - sent
      in mt\<lparr>mt_packets_sent := mt_packets_sent mt + of_nat sent,
            mt_bytes_sent := mt_bytes_sent mt + of_nat sent * of_nat (length (fd_line f) + 2),
            mt_packets_dropped_slow := mt_packets_dropped_slow mt + of_nat slow\<rparr>)"
proof -
  define wanted where "wanted = filter (eligible m f) (map snd (rg_clients r))"
  define takes where "takes = (\<lambda>c :: 'a client. send (cl_outbox c) (fd_line f) \<noteq> None)"
  have q: "count_clients (queued send m f) (rg_clients r) = length (filter takes wanted)"
    by (simp add: wanted_def takes_def queued_def filter_map comp_def conj_commute)
  have d: "count_clients (dropped send m f) (rg_clients r) = length (filter (\<lambda>c. \<not> takes c) wanted)"
    by (simp add: wanted_def takes_def dropped_def filter_map comp_def conj_commute)
  have l: "length (filter (\<lambda>c. \<not> takes c) wanted) = length wanted - length (filter takes wanted)"
    using sum_length_filter_compl [of takes wanted] by simp
  have w: "filter (\<lambda>c. Some (cl_id c) \<noteq> fd_origin f \<and> accepts m f c) (map snd (rg_clients r)) = wanted"
    by (simp add: wanted_def eligible_def [abs_def])
  show ?thesis
    unfolding Let_def w takes_def [symmetric] broadcast_eq snd_conv q d l
    by (simp add: count_feed_def feed_bytes_def add.commute)
qed

text \<open>The iteration order of the concurrent map has no effect: on the same clients in another
  order a broadcast leaves the same clients and the same counters.\<close>

theorem broadcast_order_irrelevant:
  assumes "mset (rg_clients r) = mset (rg_clients s)"
  shows "mset (rg_clients (fst (broadcast send m r f mt))) =
      mset (rg_clients (fst (broadcast send m s f mt))) \<and>
    snd (broadcast send m r f mt) = snd (broadcast send m s f mt)"
proof -
  have "count_clients P (rg_clients r) = count_clients P (rg_clients s)" for P
    using assms by (metis mset_filter size_mset)
  with assms show ?thesis by (simp add: broadcast_eq)
qed

text \<open>The snapshot for the dashboard lists every client once, by connection time and then id, in an
  order that does not depend on the order of the map.\<close>

theorem snapshot_stable:
  assumes "reg_inv (r, n)" and "mset (rg_clients r) = mset (rg_clients s)"
  shows "reg_snapshot r = reg_snapshot s \<and> mset (reg_snapshot r) = mset (map snd (rg_clients r)) \<and>
    sorted_wrt (\<lambda>c d. (cl_connected_at c, cl_id c) \<le> (cl_connected_at d, cl_id d)) (reg_snapshot r)"
proof -
  let ?k = "\<lambda>c. (cl_connected_at c, cl_id c)"
  have ms: "mset (map snd (rg_clients r)) = mset (map snd (rg_clients s))" using assms(2) by simp
  have "inj_on cl_id (set (map snd (rg_clients r)))"
  proof (rule inj_onI)
    fix c d
    assume "c \<in> set (map snd (rg_clients r))" "d \<in> set (map snd (rg_clients r))" "cl_id c = cl_id d"
    then have "(cl_id c, c) \<in> set (rg_clients r)" "(cl_id c, d) \<in> set (rg_clients r)"
      using assms(1) by (auto simp: reg_inv_def)
    then show "c = d"
      using assms(1) by (auto simp: reg_inv_def dest: eq_key_imp_eq_value)
  qed
  then have inj: "inj_on ?k (set (map snd (rg_clients r)))" by (auto simp: inj_on_def)
  have "reg_snapshot r = reg_snapshot s"
    unfolding reg_snapshot_def
    by (rule sort_key_inj_key_eq [OF _ inj]) (use ms in simp_all)
  moreover have "mset (reg_snapshot r) = mset (map snd (rg_clients r))" by (simp add: reg_snapshot_def)
  moreover have "sorted (map ?k (reg_snapshot r))" by (simp add: reg_snapshot_def)
  ultimately show ?thesis by (simp only: sorted_map)
qed

text \<open>A filter the port forces (a locked one) is the filter of that client for as long as it is
  connected, whatever filter commands it or anybody else sends.\<close>

theorem forced_filter_stays:
  assumes "(reg_step send m)\<^sup>*\<^sup>* (registry_new, 0) (r, n)" and "n < 2 ^ 64"
    and "re_filter_locked g"
    and "(reg_step send m)\<^sup>*\<^sup>* (snd (reg_insert r g), Suc n) (r', n')"
    and "reg_get r' (cl_id (fst (reg_insert r g))) = Some c"
  shows "cl_filter c = re_filter g"
proof -
  let ?i = "cl_id (fst (reg_insert r g))"
  have i: "reg_inv (r, n)"
    using registry.reachable_inv [OF _ assms(1)] by (simp add: reg_init_def)
  note fresh = reg_inv_fresh [OF i assms(2)]
  have "reg_get (snd (reg_insert r g)) ?i = Some (fst (reg_insert r g))"
    using fresh unfolding reg_insert_fresh [OF fresh] reg_insert_id reg_get_def
    by (simp add: map_add_def map_of_eq_None_iff [THEN iffD2])
  then have "forced ?i (re_filter g) (snd (reg_insert r g), Suc n)"
    using reg_inv_insert [OF i assms(2)] reg_inv_insert_id [OF i assms(2), of g] assms(3)
    by (simp add: forced_def) (simp add: reg_insert_def Let_def)
  then have "forced ?i (re_filter g) (r', n')"
    using forced_filter.steps_inv [OF assms(4)] by blast
  with assms(5) show ?thesis by (simp add: forced_def)
qed

subsection \<open>Witnesses\<close>

text \<open>A bounded queue of lines, as the channel is documented to behave.\<close>

definition bounded_send :: "nat \<Rightarrow> str list \<Rightarrow> str \<Rightarrow> str list option" where
  "bounded_send cap q line = (if length q < cap then Some (q @ [line]) else None)"

definition sample_registration :: "port_kind \<Rightarrow> filter_entry list \<Rightarrow> bool \<Rightarrow> str list registration" where
  "sample_registration kind chain locked =
     \<lparr>re_callsign = ''N0CALL'', re_remote = sample_addr, re_listener = ''igate'', re_port_kind = kind,
      re_software = None, re_verified = True, re_connected_at = 300, re_session_id = None,
      re_filter = chain, re_filter_locked = locked, re_outbox = []\<rparr>"

definition sample_registry :: "str list registry" where
  "sample_registry =
     snd (reg_insert
       (snd (reg_insert registry_new (sample_registration FullFeed [] True)))
       (sample_registration FullFeed [] True))"

definition sample_feed :: feed where
  "sample_feed =
     \<lparr>fd_packet = sample_packet, fd_parsed = parsed_default, fd_line = ''N0CALL>APRS:>hi'',
      fd_origin = Some 0, fd_positions = no_positions\<rparr>"

theorem client_ids_increase_witness:
  "cl_id (fst (reg_insert registry_new (sample_registration Igate [] True))) <
     cl_id (fst (reg_insert (snd (reg_insert registry_new (sample_registration Igate [] True)))
       (sample_registration Igate [] False)))"
  using client_ids_increase [where send = "bounded_send 1" and m = sample_libm and r = registry_new
      and n = 0 and g = "sample_registration Igate [] True"
      and r' = "snd (reg_insert registry_new (sample_registration Igate [] True))" and n' = "Suc 0"
      and g' = "sample_registration Igate [] False"]
  by simp

text \<open>Two full-feed clients, the packet from the first: the second gets it, in a queue of one line only
  once.\<close>

theorem broadcast_per_client_witness:
  "reg_get (fst (broadcast (bounded_send 1) sample_libm sample_registry sample_feed metrics_new)) 1 =
     Some ((the (reg_get sample_registry 1))
       \<lparr>cl_outbox := [''N0CALL>APRS:>hi''], cl_counters := counters_new
          \<lparr>cc_packets_sent := 1, cc_bytes_sent := 17\<rparr>\<rparr>)"
proof -
  have g: "reg_get sample_registry 1 = Some (the (reg_get sample_registry 1))"
    by (simp add: sample_registry_def reg_get_def reg_insert_def registry_new_def Let_def)
  have c: "cl_id (the (reg_get sample_registry 1)) = 1" "cl_port_kind (the (reg_get sample_registry 1)) = FullFeed"
    "cl_outbox (the (reg_get sample_registry 1)) = []" "cl_counters (the (reg_get sample_registry 1)) = counters_new"
    by (simp_all add: sample_registry_def reg_get_def reg_insert_def registry_new_def Let_def
        sample_registration_def)
  show ?thesis
    using broadcast_per_client [OF g surjective_pairing, of "bounded_send 1" sample_libm sample_feed metrics_new]
    by (simp add: c accepts_def sample_feed_def bounded_send_def counters_new_def)
qed

theorem broadcast_order_irrelevant_witness:
  "snd (broadcast (bounded_send 1) sample_libm sample_registry sample_feed metrics_new) =
   snd (broadcast (bounded_send 1) sample_libm
     (sample_registry\<lparr>rg_clients := rev (rg_clients sample_registry)\<rparr>) sample_feed metrics_new)"
  using broadcast_order_irrelevant [of sample_registry
      "sample_registry\<lparr>rg_clients := rev (rg_clients sample_registry)\<rparr>" "bounded_send 1" sample_libm
      sample_feed metrics_new]
  by simp

lemma sample_registry_inv: "reg_inv (sample_registry, 2)"
proof -
  let ?r = "registry_new :: str list registry" and ?g = "sample_registration FullFeed [] True"
  have "reg_inv (?r, 0)" by (simp add: reg_inv_def registry_new_def)
  then have "reg_inv (snd (reg_insert ?r ?g), Suc 0)" by (rule reg_inv_insert) simp
  then have "reg_inv (snd (reg_insert (snd (reg_insert ?r ?g)) ?g), Suc (Suc 0))"
    by (rule reg_inv_insert) simp
  then show ?thesis by (simp add: sample_registry_def numeral_2_eq_2)
qed

theorem snapshot_stable_witness:
  "reg_snapshot sample_registry =
     reg_snapshot (sample_registry\<lparr>rg_clients := rev (rg_clients sample_registry)\<rparr>)"
  using snapshot_stable [OF sample_registry_inv,
      of "sample_registry\<lparr>rg_clients := rev (rg_clients sample_registry)\<rparr>"]
  by simp

theorem forced_filter_stays_witness:
  "\<exists>c. reg_get (with_client (snd (reg_insert registry_new (sample_registration Igate [] True))) 0
        (\<lambda>c. snd (set_filter c [\<lparr>fe_negated = False, fe_filter = MyRange (f64_of_int 1)\<rparr>]))) 0 = Some c \<and>
     cl_filter c = []"
proof -
  let ?g = "sample_registration Igate [] True"
  let ?r = "snd (reg_insert registry_new ?g)"
  let ?f = "\<lambda>c :: str list client. snd (set_filter c [\<lparr>fe_negated = False, fe_filter = MyRange (f64_of_int 1)\<rparr>])"
  have st: "(reg_step (bounded_send 1) sample_libm)\<^sup>*\<^sup>* (?r, Suc 0) (with_client ?r 0 ?f, Suc 0)"
    by (rule r_into_rtranclp) (rule reg_step.refilter)
  have i: "cl_id (fst (reg_insert registry_new ?g)) = 0"
    by (simp add: reg_insert_id registry_new_def)
  have "reg_get ?r 0 \<noteq> None"
    by (simp add: reg_get_def reg_insert_def registry_new_def Let_def)
  then obtain c where c: "reg_get (with_client ?r 0 ?f) 0 = Some c"
    by (auto simp: with_client_get)
  have "cl_filter c = re_filter ?g"
    using forced_filter_stays [OF rtranclp.rtrancl_refl _ _ st, of c] c i
    by (simp add: sample_registration_def)
  with c show ?thesis by (simp add: sample_registration_def)
qed

end
