(* ===== verification/Position_Cache.thy ===== *)
theory Position_Cache
  imports Filter_Chain Interfaces "HOL-Library.AList"
begin

section \<open>The station position cache (\<open>aprsr-store/src/lib.rs\<close>)\<close>

text \<open>
  The last known position of every station, under its upper-cased callsign. The hash map is an
  association list with distinct keys; its order stands for the iteration order the hash map does
  not specify. The lock around it is poisoned only by a panic while it is held, which the code has
  none of; the branches for a poisoned lock are left out.

  \<open>newest\<close> is the abstract specification: the report of a station with the greatest time, the
  latest one received among equals. \<open>cache_holds_newest\<close> shows that the cache implements it.
\<close>

record cached_position =
  ca_position :: position
  ca_symbol :: "symbol option"
  ca_heard_at :: int

record position_entry =
  pe_callsign :: str
  pe_position :: position
  pe_symbol :: "symbol option"
  pe_heard_at :: int

type_synonym position_cache = "(str \<times> cached_position) list"

definition cache_new :: position_cache where
  "cache_new = []"

definition cache_record ::
  "position_cache \<Rightarrow> str \<Rightarrow> position \<Rightarrow> symbol option \<Rightarrow> int \<Rightarrow> position_cache" where
  "cache_record es callsign pos sy heard_at =
     (let key = to_ascii_uppercase callsign;
          new = \<lparr>ca_position = pos, ca_symbol = sy, ca_heard_at = heard_at\<rparr>
      in case map_of es key of
           Some existing \<Rightarrow>
             if ca_heard_at existing > heard_at then es else AList.update key new es
         | None \<Rightarrow> AList.update key new es)"

definition cache_snapshot :: "position_cache \<Rightarrow> position_entry list" where
  "cache_snapshot es =
     map (\<lambda>(callsign, cached).
       \<lparr>pe_callsign = callsign, pe_position = ca_position cached, pe_symbol = ca_symbol cached,
        pe_heard_at = ca_heard_at cached\<rparr>) es"

definition cache_len :: "position_cache \<Rightarrow> nat" where
  "cache_len es = length es"

definition cache_is_empty :: "position_cache \<Rightarrow> bool" where
  "cache_is_empty es \<longleftrightarrow> cache_len es = 0"

definition evict_older_than :: "position_cache \<Rightarrow> int \<Rightarrow> nat \<times> position_cache" where
  "evict_older_than es before =
     (let kept = filter (\<lambda>(_, cached). ca_heard_at cached \<ge> before) es
      in (length es - length kept, kept))"

definition position_of :: "position_cache \<Rightarrow> str \<Rightarrow> position option" where
  "position_of es callsign = map_option ca_position (map_of es (to_ascii_uppercase callsign))"

subsection \<open>The invariant\<close>

definition cache_inv :: "position_cache \<Rightarrow> bool" where
  "cache_inv es \<longleftrightarrow>
     distinct (map fst es) \<and>
     list_all (\<lambda>(k, c). to_ascii_uppercase k = k \<and> position_ok (ca_position c)) es"

inductive cache_step :: "position_cache \<Rightarrow> position_cache \<Rightarrow> bool" where
  heard: "position_ok p \<Longrightarrow> cache_step es (cache_record es callsign p sy t)"
| evict: "cache_step es (snd (evict_older_than es t))"

lemma cache_record_update:
  "cache_record es callsign p sy t = es \<or>
   cache_record es callsign p sy t =
     AList.update (to_ascii_uppercase callsign)
       \<lparr>ca_position = p, ca_symbol = sy, ca_heard_at = t\<rparr> es"
  by (simp add: cache_record_def Let_def split: option.splits)

lemma cache_inv_update:
  assumes "cache_inv es" and "position_ok (ca_position c)" and "to_ascii_uppercase k = k"
  shows "cache_inv (AList.update k c es)"
proof -
  have "distinct (map fst (AList.update k c es))"
    using assms(1) AList.distinct_update by (auto simp: cache_inv_def)
  moreover have "set (AList.update k c es) \<subseteq> insert (k, c) (set es)"
    by (induction es) auto
  ultimately show ?thesis
    using assms by (fastforce simp: cache_inv_def list_all_iff)
qed

lemma cache_inv_record:
  "cache_inv es \<Longrightarrow> position_ok p \<Longrightarrow> cache_inv (cache_record es callsign p sy t)"
  using cache_record_update [of es callsign p sy t] cache_inv_update [of es] by fastforce

lemma cache_inv_evict: "cache_inv es \<Longrightarrow> cache_inv (snd (evict_older_than es t))"
  by (auto simp: cache_inv_def evict_older_than_def Let_def list_all_iff distinct_map_filter)

interpretation cache: inductive_invariant "\<lambda>es. es = cache_new" cache_step cache_inv
proof unfold_locales
  show "cache_inv es" if "es = cache_new" for es
    using that by (simp add: cache_inv_def cache_new_def)
  show "cache_inv t" if "cache_inv s" and "cache_step s t" for s t
    using that(2,1) by cases (auto intro: cache_inv_record cache_inv_evict)
qed

lemma position_of_ok: "cache_inv es \<Longrightarrow> position_of es c = Some p \<Longrightarrow> position_ok p"
  by (auto simp: position_of_def cache_inv_def list_all_iff dest!: map_of_SomeD)

interpretation cache_source: position_source position_of cache_inv
  by unfold_locales
    (auto simp: position_of_def eq_ignore_iff_uppercase position_of_ok [unfolded position_of_def])

subsection \<open>The abstract specification\<close>

record report =
  rp_callsign :: str
  rp_position :: position
  rp_symbol :: "symbol option"
  rp_heard_at :: int

fun newest :: "report list \<Rightarrow> str \<Rightarrow> report option" where
  "newest [] k = None"
| "newest (r # rs) k =
     (case newest rs k of
        Some later \<Rightarrow>
          if eq_ignore_ascii_case (rp_callsign r) k \<and> rp_heard_at r > rp_heard_at later
          then Some r else Some later
      | None \<Rightarrow> if eq_ignore_ascii_case (rp_callsign r) k then Some r else None)"

definition cached_of :: "report \<Rightarrow> cached_position" where
  "cached_of r =
     \<lparr>ca_position = rp_position r, ca_symbol = rp_symbol r, ca_heard_at = rp_heard_at r\<rparr>"

definition record_all :: "report list \<Rightarrow> position_cache \<Rightarrow> position_cache" where
  "record_all rs es =
     foldl (\<lambda>es r. cache_record es (rp_callsign r) (rp_position r) (rp_symbol r) (rp_heard_at r)) es rs"

lemma record_lookup:
  "map_of (cache_record es (rp_callsign r) (rp_position r) (rp_symbol r) (rp_heard_at r)) k =
     (if k = to_ascii_uppercase (rp_callsign r) then
        (case map_of es k of
           Some c \<Rightarrow> Some (if ca_heard_at c > rp_heard_at r then c else cached_of r)
         | None \<Rightarrow> Some (cached_of r))
      else map_of es k)"
  by (simp add: cache_record_def Let_def cached_of_def update_conv' split: option.splits)

text \<open>What a later report does to the newest one so far.\<close>

lemma newest_snoc:
  "newest (rs @ [r]) k =
     (if eq_ignore_ascii_case (rp_callsign r) k then
        (case newest rs k of
           Some n \<Rightarrow> Some (if rp_heard_at n > rp_heard_at r then n else r)
         | None \<Rightarrow> Some r)
      else newest rs k)"
  by (induction rs) (auto split: option.splits)

lemma record_all_lookup:
  "map_of (record_all rs []) (to_ascii_uppercase k) = map_option cached_of (newest rs k)"
proof (induction rs rule: rev_induct)
  case Nil
  then show ?case by (simp add: record_all_def)
next
  case (snoc r rs)
  have step: "record_all (rs @ [r]) [] =
      cache_record (record_all rs []) (rp_callsign r) (rp_position r) (rp_symbol r) (rp_heard_at r)"
    by (simp add: record_all_def)
  show ?case
    unfolding step newest_snoc record_lookup snoc.IH eq_ignore_iff_uppercase
      eq_commute [of "to_ascii_uppercase k"]
    by (simp add: cached_of_def split: option.split)
qed

lemma newest_None:
  "newest rs k = None \<longleftrightarrow> (\<forall>q \<in> set rs. \<not> eq_ignore_ascii_case (rp_callsign q) k)"
  by (induction rs) (auto split: option.splits)

lemma newest_Some:
  "newest rs k = Some r \<Longrightarrow> r \<in> set rs \<and> eq_ignore_ascii_case (rp_callsign r) k \<and>
     (\<forall>q \<in> set rs. eq_ignore_ascii_case (rp_callsign q) k \<longrightarrow> rp_heard_at q \<le> rp_heard_at r)"
proof (induction rs arbitrary: r)
  case (Cons a rs)
  show ?case
  proof (cases "newest rs k")
    case None
    with Cons.prems show ?thesis by (auto simp: newest_None split: if_splits)
  next
    case (Some l)
    from Cons.IH [OF this] Cons.prems Some show ?thesis by (auto split: if_splits)
  qed
qed simp

subsection \<open>Properties\<close>

text \<open>C25: after any sequence of reports the cache answers for a callsign, in any case, with the position
  of the report of that station that carries the greatest time; a delayed report never moves a
  station back, and a station without a report is unknown.\<close>

theorem cache_holds_newest:
  "position_of (record_all rs cache_new) k = map_option rp_position (newest rs k) \<and>
   (case newest rs k of
      Some r \<Rightarrow> r \<in> set rs \<and> eq_ignore_ascii_case (rp_callsign r) k \<and>
        list_all (\<lambda>q. rp_heard_at q \<le> rp_heard_at r)
          (filter (\<lambda>q. eq_ignore_ascii_case (rp_callsign q) k) rs)
    | None \<Rightarrow> list_all (\<lambda>q. \<not> eq_ignore_ascii_case (rp_callsign q) k) rs)"
  using newest_Some [of rs k] newest_None [of rs k]
  by (auto simp: position_of_def cache_new_def record_all_lookup cached_of_def list_all_iff
      option.map_comp comp_def split: option.splits)

end
