(* ===== verification/Dispatch.thy ===== *)
theory Dispatch
  imports Registry Position_Cache
begin

section \<open>The packet ingest path (\<open>aprsr-server/src/dispatch.rs\<close>, \<open>ServerState\<close> of \<open>lib.rs\<close>)\<close>

text \<open>
  \<open>process\<close> decides the fate of one submitted line: it composes the packet parser, the duplicate
  detector, the q algorithm, the information field parser, the position cache and the fan-out in
  the order of the code, with the counters each branch touches. The parameters are the keyed hash
  of the duplicate detector, the channels' \<open>try_send\<close> and the mathematical functions.
\<close>

record 'o server_state =
  ss_config :: config
  ss_server_id :: str
  ss_metrics :: metrics
  ss_registry :: "'o registry"
  ss_positions :: position_cache
  ss_started_at :: nat

definition server_state_new :: "config \<Rightarrow> nat \<Rightarrow> 'o server_state" where
  "server_state_new config now =
     \<lparr>ss_config = config, ss_server_id = sv_id (cf_server config), ss_metrics = metrics_new,
      ss_registry = registry_new, ss_positions = cache_new, ss_started_at = now\<rparr>"

definition uptime_secs :: "'o server_state \<Rightarrow> nat \<Rightarrow> nat" where
  "uptime_secs st now = now - ss_started_at st"

record ingest =
  in_line :: str
  in_origin :: "client_id option"
  in_login :: str
  in_verified :: bool
  in_via_udp :: bool
  in_send_only :: bool

datatype disposition =
    Delivered str qcode
  | Unverified
  | Invalid packet_error
  | Duplicate
  | Rejected qreject

definition was_delivered :: "disposition \<Rightarrow> bool" where
  "was_delivered d \<longleftrightarrow> (case d of Delivered _ _ \<Rightarrow> True | _ \<Rightarrow> False)"

definition with_metrics :: "'o server_state \<Rightarrow> (metrics \<Rightarrow> metrics) \<Rightarrow> 'o server_state" where
  "with_metrics st g = st\<lparr>ss_metrics := g (ss_metrics st)\<rparr>"

definition count_received :: "str \<Rightarrow> metrics \<Rightarrow> metrics" where
  "count_received line mt =
     mt\<lparr>mt_packets_received := ctr_incr (mt_packets_received mt),
        mt_bytes_received := ctr_add (mt_bytes_received mt) (of_nat (length line) + 2)\<rparr>"

definition count_unverified :: "metrics \<Rightarrow> metrics" where
  "count_unverified mt = mt\<lparr>mt_packets_unverified := ctr_incr (mt_packets_unverified mt)\<rparr>"

definition count_invalid :: "metrics \<Rightarrow> metrics" where
  "count_invalid mt = mt\<lparr>mt_packets_invalid := ctr_incr (mt_packets_invalid mt)\<rparr>"

definition count_duplicate :: "metrics \<Rightarrow> metrics" where
  "count_duplicate mt = mt\<lparr>mt_packets_duplicate := ctr_incr (mt_packets_duplicate mt)\<rparr>"

definition count_rejected :: "metrics \<Rightarrow> metrics" where
  "count_rejected mt = mt\<lparr>mt_packets_rejected := ctr_incr (mt_packets_rejected mt)\<rparr>"

definition context_of :: "'o server_state \<Rightarrow> ingest \<Rightarrow> qcontext" where
  "context_of st i =
     \<lparr>qc_server_id = ss_server_id st, qc_login = in_login i, qc_verified = in_verified i,
      qc_via_udp = in_via_udp i, qc_send_only = in_send_only i\<rparr>"

definition record_position :: "packet \<Rightarrow> parsed_payload \<Rightarrow> nat \<Rightarrow> position_cache \<Rightarrow> position_cache" where
  "record_position packet parsed now es =
     (case pp_position parsed of
        Some pos \<Rightarrow> cache_record es (p_source packet) pos (pp_symbol parsed) (i64_saturating now)
      | None \<Rightarrow> es)"

definition deliver ::
  "('o \<Rightarrow> str \<Rightarrow> 'o option) \<Rightarrow> libm \<Rightarrow> ingest \<Rightarrow> str \<Rightarrow> packet \<Rightarrow> nat \<Rightarrow> 'o server_state \<Rightarrow> 'o server_state" where
  "deliver send m i rendered packet now st =
     (let parsed = aprs_parse packet;
          positions = record_position packet parsed now (ss_positions st);
          f = \<lparr>fd_packet = packet, fd_parsed = parsed, fd_line = rendered, fd_origin = in_origin i,
               fd_positions = position_of positions\<rparr>
      in case broadcast send m (ss_registry st) f (ss_metrics st) of
        (reg, mt) \<Rightarrow> st\<lparr>ss_positions := positions, ss_registry := reg, ss_metrics := mt\<rparr>)"

definition process ::
  "(str list \<Rightarrow> nat) \<Rightarrow> ('o \<Rightarrow> str \<Rightarrow> 'o option) \<Rightarrow> libm \<Rightarrow> ingest \<Rightarrow> dupecheck \<Rightarrow> 'o server_state \<Rightarrow> nat \<Rightarrow>
     disposition \<times> dupecheck \<times> 'o server_state" where
  "process hash send m i dc st now =
     (let st = with_metrics st (count_received (in_line i)) in
      if \<not> in_verified i then (Unverified, dc, with_metrics st count_unverified)
      else case packet_parse (in_line i) of
        Inl e \<Rightarrow> (Invalid e, dc, with_metrics st count_invalid)
      | Inr packet \<Rightarrow>
          (case check_packet hash dc packet now of
             (True, dc) \<Rightarrow> (Duplicate, dc, with_metrics st count_duplicate)
           | (False, dc) \<Rightarrow>
               (case apply_client packet (context_of st i) of
                  Inl r \<Rightarrow> (Rejected r, dc, with_metrics st count_rejected)
                | Inr out \<Rightarrow>
                    (let rendered = (if qo_rewritten out then with_path packet (qo_path out) else in_line i) in
                     case packet_parse rendered of
                       Inl _ \<Rightarrow> (Invalid PacketEmpty, dc, with_metrics st count_invalid)
                     | Inr final \<Rightarrow>
                         (Delivered rendered (qo_code out), dc, deliver send m i rendered final now st)))))"

fun process_all ::
  "(str list \<Rightarrow> nat) \<Rightarrow> ('o \<Rightarrow> str \<Rightarrow> 'o option) \<Rightarrow> libm \<Rightarrow> (ingest \<times> nat) list \<Rightarrow> dupecheck \<Rightarrow> 'o server_state \<Rightarrow>
     disposition list \<times> dupecheck \<times> 'o server_state" where
  "process_all hash send m [] dc st = ([], dc, st)"
| "process_all hash send m ((i, now) # is) dc st =
     (case process hash send m i dc st now of (d, dc, st) \<Rightarrow>
      case process_all hash send m is dc st of (ds, dc, st) \<Rightarrow> (d # ds, dc, st))"

subsection \<open>The six outcomes\<close>

text \<open>Every run of \<open>process\<close> is one of six cases; the proofs below are case distinctions over them.\<close>

definition rendered_line :: "ingest \<Rightarrow> packet \<Rightarrow> qoutcome \<Rightarrow> str" where
  "rendered_line i packet out =
     (if qo_rewritten out then with_path packet (qo_path out) else in_line i)"

lemma process_cases [consumes 1, case_names unverified malformed duplicate rejected outgrown delivered]:
  assumes "process hash send m i dc st now = (d, dc', st')"
  obtains
    "\<not> in_verified i" "d = Unverified" "dc' = dc"
      "st' = with_metrics st (count_unverified \<circ> count_received (in_line i))"
  | e where "in_verified i" "packet_parse (in_line i) = Inl e" "d = Invalid e" "dc' = dc"
      "st' = with_metrics st (count_invalid \<circ> count_received (in_line i))"
  | packet where "in_verified i" "packet_parse (in_line i) = Inr packet"
      "check_packet hash dc packet now = (True, dc')" "d = Duplicate"
      "st' = with_metrics st (count_duplicate \<circ> count_received (in_line i))"
  | packet r where "in_verified i" "packet_parse (in_line i) = Inr packet"
      "check_packet hash dc packet now = (False, dc')" "apply_client packet (context_of st i) = Inl r"
      "d = Rejected r" "st' = with_metrics st (count_rejected \<circ> count_received (in_line i))"
  | packet out e where "in_verified i" "packet_parse (in_line i) = Inr packet"
      "check_packet hash dc packet now = (False, dc')" "apply_client packet (context_of st i) = Inr out"
      "packet_parse (rendered_line i packet out) = Inl e" "d = Invalid PacketEmpty"
      "st' = with_metrics st (count_invalid \<circ> count_received (in_line i))"
  | packet out final where "in_verified i" "packet_parse (in_line i) = Inr packet"
      "check_packet hash dc packet now = (False, dc')" "apply_client packet (context_of st i) = Inr out"
      "packet_parse (rendered_line i packet out) = Inr final"
      "d = Delivered (rendered_line i packet out) (qo_code out)"
      "st' = deliver send m i (rendered_line i packet out) final now
         (with_metrics st (count_received (in_line i)))"
proof -
  have ctx: "context_of (with_metrics st (count_received (in_line i))) i = context_of st i"
    by (simp add: context_of_def with_metrics_def)
  show ?thesis
    using assms that
    unfolding process_def Let_def ctx rendered_line_def [symmetric]
    by (auto simp: with_metrics_def split: if_splits sum.splits prod.splits bool.splits)
qed

subsection \<open>What each outcome changes\<close>

definition is_invalid :: "disposition \<Rightarrow> bool" where
  "is_invalid d \<longleftrightarrow> (case d of Invalid _ \<Rightarrow> True | _ \<Rightarrow> False)"

definition is_rejected :: "disposition \<Rightarrow> bool" where
  "is_rejected d \<longleftrightarrow> (case d of Rejected _ \<Rightarrow> True | _ \<Rightarrow> False)"

text \<open>What a list of dispositions of the given lines adds to the counters of the ingest side.\<close>

definition ingest_counts :: "str list \<Rightarrow> disposition list \<Rightarrow> metrics \<Rightarrow> metrics \<Rightarrow> bool" where
  "ingest_counts lines ds mt mt' \<longleftrightarrow>
     mt_packets_received mt' = mt_packets_received mt + of_nat (length lines) \<and>
     mt_bytes_received mt' = mt_bytes_received mt + of_nat (sum_list (map (\<lambda>l. length l + 2) lines)) \<and>
     mt_packets_unverified mt' = mt_packets_unverified mt + of_nat (length (filter (\<lambda>d. d = Unverified) ds)) \<and>
     mt_packets_invalid mt' = mt_packets_invalid mt + of_nat (length (filter is_invalid ds)) \<and>
     mt_packets_duplicate mt' = mt_packets_duplicate mt + of_nat (length (filter (\<lambda>d. d = Duplicate) ds)) \<and>
     mt_packets_rejected mt' = mt_packets_rejected mt + of_nat (length (filter is_rejected ds)) \<and>
     mt_clients_connected mt' = mt_clients_connected mt \<and> mt_clients_total mt' = mt_clients_total mt \<and>
     mt_logins_rejected mt' = mt_logins_rejected mt"

lemma ingest_counts_refl: "ingest_counts [] [] mt mt"
  by (simp add: ingest_counts_def)

lemma ingest_counts_append:
  "ingest_counts ls ds mt mt1 \<Longrightarrow> ingest_counts ls' ds' mt1 mt2 \<Longrightarrow>
     ingest_counts (ls @ ls') (ds @ ds') mt mt2"
  by (simp add: ingest_counts_def)

lemma deliver_metrics:
  "ss_metrics (deliver send m i line p now st) =
     (let parsed = aprs_parse p; es = record_position p parsed now (ss_positions st) in
      snd (broadcast send m (ss_registry st)
        \<lparr>fd_packet = p, fd_parsed = parsed, fd_line = line, fd_origin = in_origin i,
         fd_positions = position_of es\<rparr> (ss_metrics st)))"
  by (simp add: deliver_def Let_def split: prod.split)

lemmas counter_defs = count_received_def count_unverified_def count_invalid_def count_duplicate_def
  count_rejected_def ctr_incr_def ctr_add_def

lemma process_counts:
  assumes "process hash send m i dc st now = (d, dc', st')"
  shows "ingest_counts [in_line i] [d] (ss_metrics st) (ss_metrics st')"
  using assms
proof (cases rule: process_cases)
  case (delivered packet out final)
  then show ?thesis
    by (simp add: deliver_metrics Let_def broadcast_eq count_feed_def with_metrics_def counter_defs
        ingest_counts_def is_invalid_def is_rejected_def)
qed (simp_all add: with_metrics_def counter_defs ingest_counts_def is_invalid_def is_rejected_def)

lemma process_all_counts:
  "process_all hash send m is dc st = (ds, dc', st') \<Longrightarrow>
     length ds = length is \<and>
     ingest_counts (map (in_line \<circ> fst) is) ds (ss_metrics st) (ss_metrics st')"
proof (induction "is" arbitrary: dc st ds)
  case Nil
  then show ?case by (simp add: ingest_counts_refl)
next
  case (Cons a "is")
  obtain i now where a: "a = (i, now)" by (cases a)
  obtain d dc1 st1 where p: "process hash send m i dc st now = (d, dc1, st1)"
    by (cases "process hash send m i dc st now")
  obtain es where q: "process_all hash send m is dc1 st1 = (es, dc', st')" and ds: "ds = d # es"
    using Cons.prems by (auto simp: a p split: prod.splits)
  have "ingest_counts ([in_line i] @ map (in_line \<circ> fst) is) ([d] @ es) (ss_metrics st) (ss_metrics st')"
    by (rule ingest_counts_append [OF process_counts [OF p]]) (use Cons.IH [OF q] in blast)
  with Cons.IH [OF q] show ?case by (simp add: a ds comp_def)
qed

lemma disposition_partition:
  "length ds = length (filter (\<lambda>d. d = Unverified) ds) + length (filter is_invalid ds) +
     length (filter (\<lambda>d. d = Duplicate) ds) + length (filter is_rejected ds) +
     length (filter was_delivered ds)"
proof (induction ds)
  case (Cons d ds)
  then show ?case by (cases d) (simp_all add: is_invalid_def is_rejected_def was_delivered_def)
qed simp

text \<open>A packet that is not delivered changes no client and no position.\<close>

lemma process_frame:
  assumes "process hash send m i dc st now = (d, dc', st')" and "\<not> was_delivered d"
  shows "ss_registry st' = ss_registry st \<and> ss_positions st' = ss_positions st"
  using assms(1) by (cases rule: process_cases) (use assms(2) in \<open>auto simp: with_metrics_def was_delivered_def\<close>)

lemma process_constant:
  assumes "process hash send m i dc st now = (d, dc', st')"
  shows "ss_config st' = ss_config st \<and> ss_server_id st' = ss_server_id st \<and> ss_started_at st' = ss_started_at st"
  using assms by (cases rule: process_cases) (auto simp: with_metrics_def deliver_def Let_def split: prod.split)

subsection \<open>The server invariant\<close>

text \<open>
  The state of the dispatcher: its duplicate detector, the shared state and the number of clients
  that ever connected. Besides the dispatcher's own step, the connections change the registry
  (\<open>reg_step\<close>) at any moment in between, and counters of the server that the ingest path does not
  own.
\<close>

type_synonym 'o dispatcher = "dupecheck \<times> 'o server_state \<times> nat"

inductive server_step ::
  "(str list \<Rightarrow> nat) \<Rightarrow> ('o \<Rightarrow> str \<Rightarrow> 'o option) \<Rightarrow> libm \<Rightarrow> 'o dispatcher \<Rightarrow> 'o dispatcher \<Rightarrow> bool"
  for hash send m
where
  ingest: "process hash send m i dc st now = (d, dc', st') \<Longrightarrow>
    server_step hash send m (dc, st, n) (dc', st', n)"
| connection: "reg_step send m (ss_registry st, n) (r, n') \<Longrightarrow>
    server_step hash send m (dc, st, n) (dc, st\<lparr>ss_registry := r, ss_metrics := mt\<rparr>, n')"

text \<open>The server starts with the positions its database holds.\<close>

definition server_init :: "config \<Rightarrow> 'o dispatcher \<Rightarrow> bool" where
  "server_init config s \<longleftrightarrow>
     (\<exists>t positions. cache_inv positions \<and>
        s = (with_window (as_secs (lm_dupecheck_window (cf_limits config))),
          (server_state_new config t)\<lparr>ss_positions := positions\<rparr>, 0))"

lemma server_init_new:
  "server_init config (with_window (as_secs (lm_dupecheck_window (cf_limits config))), server_state_new config t, 0)"
  unfolding server_init_def
  by (intro exI [of _ t] exI [of _ cache_new]) (simp add: server_state_new_def cache_inv_def cache_new_def)

definition server_inv :: "config \<Rightarrow> 'o dispatcher \<Rightarrow> bool" where
  "server_inv config s \<longleftrightarrow>
     (case s of (dc, st, n) \<Rightarrow>
        dupe_inv dc \<and> cache_inv (ss_positions st) \<and> reg_inv (ss_registry st, n) \<and>
        ss_config st = config \<and> ss_server_id st = sv_id (cf_server config))"

lemma aprs_parse_position_ok: "pp_position (aprs_parse p) = Some q \<Longrightarrow> position_ok q"
proof -
  have set_pos: "pp_position (set_position r out) = Some q \<Longrightarrow>
      (\<exists>sy. r = Some (q, sy)) \<or> pp_position out = Some q" for r out
    by (auto simp: set_position_def split: option.splits)
  have app: "pp_position (apply_position b out) = Some q \<Longrightarrow> pp_position out = None \<Longrightarrow> position_ok q" for b out
    using parse_uncompressed_ok parse_compressed_ok
    by (auto simp: apply_position_def dest!: set_pos split: option.splits)
  have mice: "pp_position (set_position (parse_mice d b) out) = Some q \<Longrightarrow> pp_position out = None \<Longrightarrow>
      position_ok q" for d b out
    using parse_mice_ok by (auto dest!: set_pos)
  have "pp_position (parse_body p dti) = Some q \<Longrightarrow> position_ok q" for dti
    using app mice
    by (auto simp: parse_body_def Let_def parsed_default_def add_type_def split: if_splits option.splits)
  then show "pp_position (aprs_parse p) = Some q \<Longrightarrow> position_ok q"
    by (auto simp: aprs_parse_def Let_def parsed_default_def add_type_def split: if_splits option.splits)
qed

lemma record_position_inv:
  "cache_inv es \<Longrightarrow> cache_inv (record_position p (aprs_parse q) now es)"
  by (auto simp: record_position_def split: option.split intro: cache_inv_record aprs_parse_position_ok)

lemma deliver_registry:
  "\<exists>f mt. ss_registry (deliver send m i line p now st) = fst (broadcast send m (ss_registry st) f mt)"
  by (simp add: deliver_def Let_def split: prod.split) (metis fst_conv)

lemma deliver_positions:
  "ss_positions (deliver send m i line p now st) = record_position p (aprs_parse p) now (ss_positions st)"
  by (simp add: deliver_def Let_def split: prod.split)

lemma process_reg_step:
  assumes "process hash send m i dc st now = (d, dc', st')"
  shows "reg_step send m (ss_registry st, n) (ss_registry st', n) \<or> ss_registry st' = ss_registry st"
  using assms
proof (cases rule: process_cases)
  case (delivered packet out final)
  then show ?thesis
    using deliver_registry [of send m i "rendered_line i packet out" final now
        "with_metrics st (count_received (in_line i))"]
    by (auto simp: with_metrics_def intro: reg_step.send)
qed (simp_all add: with_metrics_def)

lemma process_dupe:
  assumes "process hash send m i dc st now = (d, dc', st')"
  obtains "dc' = dc"
  | packet where "packet_parse (in_line i) = Inr packet" and "in_verified i"
      and "dc' = snd (check_packet hash dc packet now)"
  using assms by (cases rule: process_cases) auto

lemma process_inv:
  assumes "server_inv config (dc, st, n)" and "process hash send m i dc st now = (d, dc', st')"
  shows "server_inv config (dc', st', n)"
proof -
  have "dupe_inv dc'"
    using assms(2)
    by (rule process_dupe) (use assms(1) dupe.check_inv in \<open>auto simp: server_inv_def check_packet_def\<close>)
  moreover have "reg_inv (ss_registry st', n)"
    using process_reg_step [OF assms(2), of n] assms(1) by (auto simp: server_inv_def intro: reg_inv_step)
  moreover have "cache_inv (ss_positions st')"
    using assms(2)
    by (cases rule: process_cases)
       (use assms(1) in \<open>auto simp: server_inv_def with_metrics_def deliver_positions record_position_inv\<close>)
  ultimately show ?thesis
    using process_constant [OF assms(2)] assms(1) by (simp add: server_inv_def)
qed

interpretation server: inductive_invariant "server_init config" "server_step hash send m" "server_inv config"
  for config hash send m
proof unfold_locales
  show "server_inv config s" if "server_init config s" for s :: "'o dispatcher"
    using that with_window_inv
    by (auto simp: server_init_def server_inv_def server_state_new_def reg_inv_def registry_new_def
        cache_inv_def cache_new_def)
  show "server_inv config t" if "server_inv config s" and "server_step hash send m s t"
    for s t :: "'o dispatcher" and hash and send :: "'o \<Rightarrow> str \<Rightarrow> 'o option" and m
    using that(2)
  proof cases
    case (ingest i dc st now d dc' st' n)
    with that(1) show ?thesis by (auto intro: process_inv)
  next
    case (connection st n r n' dc mt)
    with that(1) show ?thesis by (auto simp: server_inv_def intro: reg_inv_step)
  qed
qed

subsection \<open>Following a packet through the dispatcher\<close>

lemma unchanged_path: "\<not> qo_rewritten (rewrite_of p ctx) \<Longrightarrow> qo_path (rewrite_of p ctx) = p_path p"
  by (auto simp: rewrite_of_def Let_def unchanged_def append_q_def replace_at_def replace_or_append_def
      rewrite_i_construct_def split: option.splits if_splits)

lemma rendered_reparse:
  assumes "packet_parse (in_line i) = Inr p" and "valid_utf8 (in_line i)"
    and "valid_station (qc_server_id ctx)" and "valid_station (qc_login ctx)"
    and "apply_client p ctx = Inr out"
  shows "packet_parse (rendered_line i p out) =
    (if length (rendered_line i p out) \<le> 510
     then Inr (if qo_rewritten out then with_path_packet p (qo_path out) else p)
     else Inl (PacketTooLong (length (rendered_line i p out))))"
proof (cases "qo_rewritten out")
  case True
  have "packet_wf p" using assms(1) packet_codec.parse_wf by blast
  from with_path_reparse [OF this apply_client_path_text [OF assms]] True show ?thesis
    by (simp add: rendered_line_def MAX_PACKET_BODY_LEN_def MAX_PACKET_LEN_def)
next
  case False
  have "\<not> length (in_line i) > MAX_PACKET_BODY_LEN"
    using assms(1) by (auto simp: packet_parse_def split: if_splits)
  with False assms(1) show ?thesis
    by (simp add: rendered_line_def MAX_PACKET_BODY_LEN_def MAX_PACKET_LEN_def)
qed

lemma delivered_packet:
  assumes "process hash send m i dc st now = (Delivered line code, dc', st')"
    and "valid_utf8 (in_line i)" and "valid_station (ss_server_id st)" and "valid_station (in_login i)"
  obtains p out q where "in_verified i" "packet_parse (in_line i) = Inr p"
    "apply_client p (context_of st i) = Inr out" "packet_parse line = Inr q"
    "p_source q = p_source p" "p_destination q = p_destination p" "p_payload q = p_payload p"
    "p_path q = qo_path out" "code = qo_code out" "length line \<le> 510"
    "check_packet hash dc p now = (False, dc')"
  using assms(1)
proof (cases rule: process_cases)
  case (delivered p out final)
  have v: "valid_station (qc_server_id (context_of st i))" "valid_station (qc_login (context_of st i))"
    using assms(3,4) by (simp_all add: context_of_def)
  note r = rendered_reparse [OF delivered(2) assms(2) v delivered(4)]
  have l: "length line \<le> 510" "line = rendered_line i p out" "code = qo_code out"
    using r delivered(5,6) by (auto split: if_splits)
  have q: "final = (if qo_rewritten out then with_path_packet p (qo_path out) else p)"
    using r delivered(5) l by simp
  have "\<not> qo_rewritten out \<Longrightarrow> qo_path out = p_path p"
    using delivered(4) unchanged_path by (auto simp: apply_client_eq split: option.splits)
  then have "p_source final = p_source p" "p_destination final = p_destination p"
    "p_payload final = p_payload p" "p_path final = qo_path out"
    by (simp_all add: q with_path_packet_def)
  with that delivered l show ?thesis by blast
qed simp_all

lemma delivered_dupe:
  assumes "process hash send m i dc st now = (Delivered line code, dc', st')"
  obtains p where "packet_parse (in_line i) = Inr p" "\<not> fst (check_digest dc (digest hash p) now)"
    "dc' = snd (check_digest dc (digest hash p) now)"
  using assms
proof (cases rule: process_cases)
  case (delivered p out final)
  from delivered(3) have "\<not> fst (check_digest dc (digest hash p) now)"
    and c: "snd (check_digest dc (digest hash p) now) = dc'" by (simp_all add: check_packet_def)
  from that [OF delivered(2) this(1) c [symmetric]] show ?thesis .
qed simp_all

lemma process_all_dupe:
  assumes "process_all hash send m is dc st = (ds, dc', st')" and "list_all (\<lambda>(_, t). t \<le> b) is"
  shows "\<exists>ops. dc' = dupe.run dc ops \<and> list_all (\<lambda>(_, t). t \<le> b) ops"
  using assms
proof (induction "is" arbitrary: dc st ds)
  case Nil
  then show ?case by (intro exI [of _ "[]"]) simp
next
  case (Cons a "is")
  obtain i now where a: "a = (i, now)" by (cases a)
  obtain d dc1 st1 where p: "process hash send m i dc st now = (d, dc1, st1)"
    by (cases "process hash send m i dc st now")
  obtain es where q: "process_all hash send m is dc1 st1 = (es, dc', st')"
    using Cons.prems by (auto simp: a p split: prod.splits)
  obtain ops where ops: "dc' = dupe.run dc1 ops" "list_all (\<lambda>(_, t). t \<le> b) ops"
    using Cons.IH [OF q] Cons.prems(2) by auto
  from p show ?case
  proof (rule process_dupe)
    assume "dc1 = dc"
    with ops show ?thesis by blast
  next
    fix packet
    assume "dc1 = snd (check_packet hash dc packet now)"
    with ops Cons.prems(2) show ?thesis
      by (intro exI [of _ "(digest hash packet, now) # ops"]) (simp add: check_packet_def a)
  qed
qed

lemma process_all_dupe_inv:
  "process_all hash send m is dc st = (ds, dc', st') \<Longrightarrow> dupe_inv dc \<Longrightarrow> dupe_inv dc'"
proof (induction "is" arbitrary: dc st ds)
  case (Cons a "is")
  obtain i now where a: "a = (i, now)" by (cases a)
  obtain d dc1 st1 where p: "process hash send m i dc st now = (d, dc1, st1)"
    by (cases "process hash send m i dc st now")
  obtain es where q: "process_all hash send m is dc1 st1 = (es, dc', st')"
    using Cons.prems by (auto simp: a p split: prod.splits)
  from p have "dupe_inv dc1"
    by (rule process_dupe) (use Cons.prems(2) dupe.check_inv in \<open>auto simp: check_packet_def\<close>)
  with Cons.IH [OF q] show ?case by blast
qed simp

subsection \<open>Properties\<close>

text \<open>C18: a delivered line comes from a verified submission that parsed, and it parses itself, within 510
  bytes: same source, destination and information field. Unless a trailing \<open>,I\<close> pair was rewritten
  behind an older construct, its path carries exactly the q construct the dispatcher reports.\<close>

theorem delivered_line_tagged:
  assumes "process hash send m i dc st now = (Delivered line code, dc', st')"
    and "valid_utf8 (in_line i)" and "valid_station (ss_server_id st)" and "valid_station (in_login i)"
  shows "\<exists>p q. in_verified i \<and> packet_parse (in_line i) = Inr p \<and> packet_parse line = Inr q \<and>
    length line \<le> 510 \<and> p_source q = p_source p \<and> p_destination q = p_destination p \<and>
    p_payload q = p_payload p \<and>
    (find_q (p_path p) = None \<or> i_construct (p_path p) = None \<or> in_via_udp i \<longrightarrow>
      (\<exists>f. find_q (p_path q) = Some f \<and> fq_code f = code \<and> code \<noteq> Internal))"
proof -
  from delivered_packet [OF assms] obtain p out q where d: "in_verified i"
    "packet_parse (in_line i) = Inr p" "apply_client p (context_of st i) = Inr out"
    "packet_parse line = Inr q" "p_source q = p_source p" "p_destination q = p_destination p"
    "p_payload q = p_payload p" "p_path q = qo_path out" "code = qo_code out" "length line \<le> 510" by metis
  have v: "valid_station (qc_server_id (context_of st i))" "valid_station (qc_login (context_of st i))"
    using assms(3,4) by (simp_all add: context_of_def)
  have "\<exists>f. find_q (p_path q) = Some f \<and> fq_code f = code \<and> code \<noteq> Internal"
    if "find_q (p_path p) = None \<or> i_construct (p_path p) = None \<or> in_via_udp i"
    using written_construct [OF d(2) assms(2) v d(3)] that d(8,9) by (auto simp: context_of_def)
  with d show ?thesis by blast
qed

text \<open>A packet that is not delivered leaves every client and every position as it was; one from an
  unverified client, or one that does not parse, does not even reach the duplicate detector.\<close>

theorem undelivered_no_effect:
  assumes "process hash send m i dc st now = (d, dc', st')" and "\<not> was_delivered d"
  shows "ss_registry st' = ss_registry st \<and> ss_positions st' = ss_positions st \<and>
    (\<not> in_verified i \<longrightarrow> d = Unverified \<and> dc' = dc) \<and>
    (in_verified i \<and> (\<exists>e. packet_parse (in_line i) = Inl e) \<longrightarrow> is_invalid d \<and> dc' = dc)"
proof -
  have "(\<not> in_verified i \<longrightarrow> d = Unverified \<and> dc' = dc) \<and>
    (in_verified i \<and> (\<exists>e. packet_parse (in_line i) = Inl e) \<longrightarrow> is_invalid d \<and> dc' = dc)"
    using assms(1) by (cases rule: process_cases) (simp_all add: is_invalid_def)
  with process_frame [OF assms] show ?thesis by blast
qed

text \<open>C19: over any sequence of submissions each one is counted as received exactly once and ends in
  exactly one of the five outcomes, and the counters of the four kinds of drop add up with the
  deliveries to the packets received.\<close>

theorem every_packet_accounted:
  assumes "process_all hash send m is dc st = (ds, dc', st')"
  shows "ingest_counts (map (in_line \<circ> fst) is) ds (ss_metrics st) (ss_metrics st') \<and>
    mt_packets_received (ss_metrics st') - mt_packets_received (ss_metrics st) =
      (mt_packets_unverified (ss_metrics st') - mt_packets_unverified (ss_metrics st)) +
      (mt_packets_invalid (ss_metrics st') - mt_packets_invalid (ss_metrics st)) +
      (mt_packets_duplicate (ss_metrics st') - mt_packets_duplicate (ss_metrics st)) +
      (mt_packets_rejected (ss_metrics st') - mt_packets_rejected (ss_metrics st)) +
      of_nat (length (filter was_delivered ds))"
proof -
  have c: "length ds = length is"
    "ingest_counts (map (in_line \<circ> fst) is) ds (ss_metrics st) (ss_metrics st')"
    using process_all_counts [OF assms] by simp_all
  have "(of_nat (length is) :: u64) = of_nat (length (filter (\<lambda>d. d = Unverified) ds)) +
      of_nat (length (filter is_invalid ds)) + of_nat (length (filter (\<lambda>d. d = Duplicate) ds)) +
      of_nat (length (filter is_rejected ds)) + of_nat (length (filter was_delivered ds))"
    unfolding c(1) [symmetric] by (subst disposition_partition) simp
  with c(2) show ?thesis by (simp add: ingest_counts_def)
qed

text \<open>C5: once a packet has been delivered, no packet with the same source, destination and information
  field is delivered within the duplicate window, by whichever client and over whichever path it
  comes and whatever else is processed in between.\<close>

theorem repeat_not_delivered:
  assumes "process hash send m i dc st now = (Delivered line code, dc1, st1)"
    and "dupe_inv dc" and "dc_now dc \<le> now"
    and "process_all hash send m is dc1 st1 = (ds, dc2, st2)"
    and "list_all (\<lambda>(_, t). t \<le> later) is" and "now \<le> later" and "later - now \<le> dc_window dc"
    and "packet_parse (in_line i) = Inr p" and "packet_parse (in_line j) = Inr q"
    and "p_source q = p_source p" and "p_destination q = p_destination p" and "p_payload q = p_payload p"
  shows "\<not> was_delivered (fst (process hash send m j dc2 st2 later))"
proof -
  let ?d = "digest hash p"
  from assms(1,8) have pass: "\<not> fst (check_digest dc ?d now)" and dc1: "dc1 = snd (check_digest dc ?d now)"
    by (auto elim: delivered_dupe)
  obtain ops where ops: "dc2 = dupe.run dc1 ops" "list_all (\<lambda>(_, t). t \<le> later) ops"
    using process_all_dupe [OF assms(4,5)] by blast
  have "dc_now dc1 \<le> later" using dupe.check_clock [OF assms(2)] assms(3,6) by (simp add: dc1)
  moreover have "dupe_inv dc1" unfolding dc1 by (rule dupe.check_inv [OF assms(2)])
  ultimately have "dc_now dc2 \<le> later" unfolding ops(1) using ops(2) by (intro dupe.run_clock_le)
  then have hit: "fst (check_digest dc2 ?d later)"
    using dupe.pass_then_hit [OF assms(2) pass, of ops later] assms(3,6,7) by (simp add: ops(1) dc1)
  have dig: "digest hash q = ?d" using assms(10-12) by (simp add: digest_def)
  obtain d dc3 st3 where r: "process hash send m j dc2 st2 later = (d, dc3, st3)"
    by (cases "process hash send m j dc2 st2 later")
  then have "\<not> was_delivered d"
    by (cases rule: process_cases)
       (use assms(9) hit dig in \<open>simp_all add: was_delivered_def check_packet_def\<close>)
  with r show ?thesis by simp
qed

text \<open>C6: no routing loop through this server: a line it tagged with its own name, for a direct
  submission of the station itself or one over UDP, is never delivered again, at any later time, from
  any client and in any later state of the server.\<close>

theorem own_line_not_redelivered:
  assumes "process hash send m i dc st now = (Delivered line code, dc1, st1)"
    and "valid_utf8 (in_line i)" and "valid_station (ss_server_id st)" and "valid_station (in_login i)"
    and "packet_parse (in_line i) = Inr p"
    and "in_via_udp i \<or> find_q (p_path p) = None \<and> i_construct (p_path p) = None \<and>
         eq_ignore_ascii_case (p_source p) (in_login i)"
    and "in_line j = line" and "ss_server_id st2 = ss_server_id st"
  shows "\<not> was_delivered (fst (process hash send m j dc2 st2 later))"
proof -
  from delivered_packet [OF assms(1-4)] assms(5) obtain out q where d:
    "apply_client p (context_of st i) = Inr out" "packet_parse line = Inr q" "p_path q = qo_path out"
    by (metis sum.inject(2))
  have v: "valid_station (qc_server_id (context_of st i))" "valid_station (qc_login (context_of st i))"
    using assms(3,4) by (simp_all add: context_of_def)
  have "\<exists>r. apply_client q (context_of st2 j) = Inl r"
    using own_path_rejected [OF assms(5,2) v d(1) _ d(3), of "context_of st2 j"] assms(6,8)
    by (auto simp: context_of_def)
  then obtain r where r: "apply_client q (context_of st2 j) = Inl r" ..
  obtain d' dc3 st3 where pr: "process hash send m j dc2 st2 later = (d', dc3, st3)"
    by (cases "process hash send m j dc2 st2 later")
  then have "\<not> was_delivered d'"
    by (cases rule: process_cases) (use assms(7) d(2) r in \<open>simp_all add: was_delivered_def\<close>)
  with pr show ?thesis by simp
qed

text \<open>C38: the branch for a rewritten line that does not parse is reachable. A valid packet whose line
  outgrows 510 bytes with the q construct in it is dropped and counted as invalid with the error
  "empty packet"; it stays in the duplicate detector, so that a shorter retransmission over another
  path within the window is dropped as a duplicate of a packet nobody got.\<close>

theorem outgrown_line_dropped:
  assumes "in_verified i" and "packet_parse (in_line i) = Inr p"
    and "valid_utf8 (in_line i)" and "valid_station (ss_server_id st)" and "valid_station (in_login i)"
    and "dupe_inv dc" and "dc_now dc \<le> now" and "\<not> fst (check_packet hash dc p now)"
    and "apply_client p (context_of st i) = Inr out" and "qo_rewritten out"
    and "510 < length (with_path p (qo_path out))"
  shows "\<exists>dc1 st1. process hash send m i dc st now = (Invalid PacketEmpty, dc1, st1) \<and>
    mt_packets_invalid (ss_metrics st1) = mt_packets_invalid (ss_metrics st) + 1 \<and>
    (\<forall>j q later. in_verified j \<and> packet_parse (in_line j) = Inr q \<and> p_source q = p_source p \<and>
       p_destination q = p_destination p \<and> p_payload q = p_payload p \<and> now \<le> later \<and>
       later - now \<le> dc_window dc \<longrightarrow> fst (process hash send m j dc1 st1 later) = Duplicate)"
proof -
  have v: "valid_station (qc_server_id (context_of st i))" "valid_station (qc_login (context_of st i))"
    using assms(4,5) by (simp_all add: context_of_def)
  have e: "packet_parse (rendered_line i p out) = Inl (PacketTooLong (length (rendered_line i p out)))"
    using rendered_reparse [OF assms(2,3) v assms(9)] assms(10,11) by (simp add: rendered_line_def)
  obtain d dc1 st1 where pr: "process hash send m i dc st now = (d, dc1, st1)"
    by (cases "process hash send m i dc st now")
  have r: "d = Invalid PacketEmpty \<and> dc1 = snd (check_packet hash dc p now) \<and>
      st1 = with_metrics st (count_invalid \<circ> count_received (in_line i))"
    using pr by (cases rule: process_cases) (use assms(1,2,8,9) e in auto)
  have "fst (process hash send m j dc1 st1 later) = Duplicate"
    if j: "in_verified j" "packet_parse (in_line j) = Inr q" "p_source q = p_source p"
      "p_destination q = p_destination p" "p_payload q = p_payload p" "now \<le> later"
      "later - now \<le> dc_window dc" for j q later
  proof -
    have dig: "digest hash q = digest hash p" using j by (simp add: digest_def)
    have "fst (check_digest dc1 (digest hash p) later)"
      using dupe.pass_then_hit [OF assms(6), of "digest hash p" now "[]" later] assms(7,8) j(6,7) r
        dupe.check_clock [OF assms(6), of "digest hash p" now]
      by (simp add: check_packet_def)
    then have hit: "fst (check_packet hash dc1 q later)" by (simp add: check_packet_def dig)
    obtain d2 dc2 st2 where q: "process hash send m j dc1 st1 later = (d2, dc2, st2)"
      by (cases "process hash send m j dc1 st1 later")
    then have "d2 = Duplicate" by (cases rule: process_cases) (use j(1,2) hit in auto)
    with q show ?thesis by simp
  qed
  with pr r show ?thesis
    by (auto simp: with_metrics_def counter_defs)
qed

text \<open>In every state the server reaches, with connections coming and going between the packets in any
  order, the duplicate detector and the client registry are consistent and every station position the
  filters look up is a valid one, the same for every spelling of the callsign.\<close>

theorem reachable_server_consistent:
  assumes "server_init config s" and "(server_step hash send m)\<^sup>*\<^sup>* s (dc, st, n)"
  shows "dupe_inv dc \<and> reg_inv (ss_registry st, n) \<and> ss_server_id st = sv_id (cf_server config) \<and>
    (case position_of (ss_positions st) c of None \<Rightarrow> True | Some p \<Rightarrow> position_ok p) \<and>
    position_of (ss_positions st) (to_ascii_uppercase c) = position_of (ss_positions st) c"
proof -
  have i: "server_inv config (dc, st, n)" using server.reachable_inv [OF assms] .
  then have "cache_inv (ss_positions st)" by (simp add: server_inv_def)
  then show ?thesis
    using i cache_source.lookup_ok [of "ss_positions st" c]
      cache_source.lookup_case [of "to_ascii_uppercase c" c "ss_positions st"]
    by (auto simp: server_inv_def split: option.split)
qed

subsection \<open>Witnesses\<close>

definition sample_hash :: "str list \<Rightarrow> nat" where
  "sample_hash parts = sum_list (map length parts)"

definition sample_ingest :: ingest where
  "sample_ingest =
     \<lparr>in_line = ''N0CALL>APRS,TCPIP*:>status'', in_origin = None, in_login = ''N0CALL'',
      in_verified = True, in_via_udp = False, in_send_only = False\<rparr>"

definition tagged_line :: str where
  "tagged_line = ''N0CALL>APRS,TCPIP*,qAC,T2TEST:>status''"

abbreviation sample_state :: "str list server_state" where
  "sample_state \<equiv> server_state_new (sample_config [sample_listener ''igate'']) 0"

lemma sample_state_id: "ss_server_id sample_state = ''T2TEST''"
  by (simp add: server_state_new_def sample_config_def)

lemma sample_pass:
  "\<not> fst (check_packet sample_hash (with_window 30) sample_packet 5)"
  by code_simp

lemma sample_delivered_in:
  assumes "ss_server_id st = ''T2TEST''"
  shows "\<exists>dc st'. process sample_hash send m (sample_ingest\<lparr>in_origin := og\<rparr>) (with_window 30) st 5 =
     (Delivered tagged_line VerifiedClient, dc, st')"
proof -
  let ?out = "\<lparr>qo_code = VerifiedClient, qo_path = ''TCPIP*,qAC,T2TEST'', qo_rewritten = True\<rparr>"
  have c: "context_of (with_metrics st g) (sample_ingest\<lparr>in_origin := og\<rparr>) = sample_ctx" for g
    by (simp add: context_of_def sample_ingest_def sample_ctx_def with_metrics_def assms)
  have a: "apply_client sample_packet sample_ctx = Inr ?out" by code_simp
  have w: "with_path sample_packet ''TCPIP*,qAC,T2TEST'' = tagged_line" by code_simp
  have "is_ok (packet_parse tagged_line)" by code_simp
  then obtain q where q: "packet_parse tagged_line = Inr q" by (auto simp: is_ok_iff)
  have l: "in_line sample_ingest = ''N0CALL>APRS,TCPIP*:>status''" "in_verified sample_ingest"
    by (simp_all add: sample_ingest_def)
  obtain dc where d: "check_packet sample_hash (with_window 30) sample_packet 5 = (False, dc)"
    using sample_pass by (cases "check_packet sample_hash (with_window 30) sample_packet 5") simp
  show ?thesis
    unfolding process_def Let_def c
    by (simp add: l sample_packet_parsed d a w q del: with_path_def)
qed

lemma sample_delivered_from:
  "\<exists>dc st. process sample_hash (bounded_send 1) sample_libm (sample_ingest\<lparr>in_origin := og\<rparr>) (with_window 30) sample_state 5 =
     (Delivered tagged_line VerifiedClient, dc, st)"
  by (rule sample_delivered_in [OF sample_state_id])

lemma sample_delivered:
  "\<exists>dc st. process sample_hash (bounded_send 1) sample_libm sample_ingest (with_window 30) sample_state 5 =
     (Delivered tagged_line VerifiedClient, dc, st)"
  using sample_delivered_from [of None] by (simp add: sample_ingest_def)

lemma sample_stations:
  "valid_utf8 (in_line sample_ingest)" "valid_station (ss_server_id sample_state)"
  "valid_station (in_login sample_ingest)"
  using sample_valid by (simp_all add: sample_ingest_def sample_state_id)

theorem delivered_line_tagged_witness:
  "\<exists>q f. packet_parse tagged_line = Inr q \<and> find_q (p_path q) = Some f \<and> fq_code f = VerifiedClient"
proof -
  obtain dc st where p: "process sample_hash (bounded_send 1) sample_libm sample_ingest (with_window 30)
      sample_state 5 = (Delivered tagged_line VerifiedClient, dc, st)"
    using sample_delivered by blast
  have n: "find_q (p_path sample_packet) = None" by code_simp
  have "packet_parse (in_line sample_ingest) = Inr sample_packet"
    using sample_packet_parsed by (simp add: sample_ingest_def)
  with delivered_line_tagged [OF p sample_stations] n show ?thesis by auto
qed

theorem undelivered_no_effect_witness:
  "fst (process sample_hash (bounded_send 1) sample_libm (sample_ingest\<lparr>in_verified := False\<rparr>) (with_window 30)
     sample_state 5) = Unverified"
proof -
  obtain d dc st where p: "process sample_hash (bounded_send 1) sample_libm (sample_ingest\<lparr>in_verified := False\<rparr>)
      (with_window 30) sample_state 5 = (d, dc, st)" and nd: "\<not> was_delivered d"
    by (simp add: process_def sample_ingest_def was_delivered_def)
  show ?thesis
    unfolding p using undelivered_no_effect [OF p nd] by (simp add: sample_ingest_def)
qed

theorem every_packet_accounted_witness:
  "\<exists>ds dc st. process_all sample_hash (bounded_send 1) sample_libm [(sample_ingest, 5), (sample_ingest, 6)]
      (with_window 30) sample_state = (ds, dc, st) \<and> mt_packets_received (ss_metrics st) = 2"
proof -
  obtain ds dc st where p: "process_all sample_hash (bounded_send 1) sample_libm
      [(sample_ingest, 5), (sample_ingest, 6)] (with_window 30) sample_state = (ds, dc, st)"
    by (metis prod_cases3)
  from every_packet_accounted [OF p] have "mt_packets_received (ss_metrics st) = 2"
    by (simp add: ingest_counts_def server_state_new_def metrics_new_def)
  with p show ?thesis by blast
qed

theorem repeat_not_delivered_witness:
  "\<exists>dc st. fst (process sample_hash (bounded_send 1) sample_libm sample_ingest (with_window 30) sample_state 5) =
      Delivered tagged_line VerifiedClient \<and>
    \<not> was_delivered (fst (process sample_hash (bounded_send 1) sample_libm
        (sample_ingest\<lparr>in_line := tagged_line\<rparr>) dc (st :: str list server_state) 35))"
proof -
  obtain dc st where p: "process sample_hash (bounded_send 1) sample_libm sample_ingest (with_window 30)
      sample_state 5 = (Delivered tagged_line VerifiedClient, dc, st)"
    using sample_delivered by blast
  have "map_option p_source (result_ok (packet_parse tagged_line)) = Some ''N0CALL''"
    "map_option p_destination (result_ok (packet_parse tagged_line)) = Some ''APRS''"
    "map_option p_payload (result_ok (packet_parse tagged_line)) = Some ''>status''" by code_simp+
  then obtain q where q: "packet_parse tagged_line = Inr q" "p_source q = ''N0CALL''"
    "p_destination q = ''APRS''" "p_payload q = ''>status''" by (auto simp: res_simps)
  have n: "process_all sample_hash (bounded_send 1) sample_libm [] dc st = ([], dc, st)" by simp
  have w: "dc_now (with_window 30) \<le> 5" "dc_window (with_window 30) = 30"
    by (simp_all add: with_window_def Let_def)
  have "\<not> was_delivered (fst (process sample_hash (bounded_send 1) sample_libm
        (sample_ingest\<lparr>in_line := tagged_line\<rparr>) dc st 35))"
    by (rule repeat_not_delivered [where p = sample_packet and q = q, OF p with_window_inv w(1) n])
       (use q w(2) sample_packet_parsed in \<open>simp_all add: sample_ingest_def sample_packet_def\<close>)
  with p show ?thesis by auto
qed

theorem own_line_not_redelivered_witness:
  "\<not> was_delivered (fst (process sample_hash (bounded_send 1) sample_libm
        (sample_ingest\<lparr>in_line := tagged_line, in_login := ''OTHER''\<rparr>) (with_window 30) sample_state 100))"
proof -
  obtain dc st where p: "process sample_hash (bounded_send 1) sample_libm sample_ingest (with_window 30)
      sample_state 5 = (Delivered tagged_line VerifiedClient, dc, st)"
    using sample_delivered by blast
  have l: "packet_parse (in_line sample_ingest) = Inr sample_packet"
    using sample_packet_parsed by (simp add: sample_ingest_def)
  have n: "find_q (p_path sample_packet) = None" "i_construct (p_path sample_packet) = None"
    "p_source sample_packet = in_login sample_ingest" by code_simp+
  show ?thesis
    using own_line_not_redelivered [OF p sample_stations l] n by simp
qed

theorem reachable_server_consistent_witness:
  "reg_inv (ss_registry sample_state, 0)"
proof -
  have i: "server_init (sample_config [sample_listener ''igate''])
      (with_window (as_secs (lm_dupecheck_window (cf_limits (sample_config [sample_listener ''igate''])))),
       sample_state, 0)"
    by (rule server_init_new)
  show ?thesis
    using reachable_server_consistent [where hash = sample_hash and send = "bounded_send 1" and
        m = sample_libm, OF i rtranclp.rtrancl_refl]
    by blast
qed

text \<open>A line of 508 bytes that its q construct takes to 519.\<close>

definition long_payload :: str where
  "long_payload = CHR ''>'' # replicate 488 CHR ''x''"

definition long_packet :: packet where
  "long_packet =
     \<lparr>p_raw = ''N0CALL>APRS,TCPIP*:'' @ long_payload, p_source = ''N0CALL'', p_destination = ''APRS'',
      p_path = ''TCPIP*'', p_payload = long_payload, p_colon = 18\<rparr>"

lemma long_packet_parsed: "packet_parse (''N0CALL>APRS,TCPIP*:'' @ long_payload) = Inr long_packet"
proof -
  have raw: "''N0CALL>APRS,TCPIP*:'' @ long_payload =
      ''N0CALL'' @ CHR ''>'' # ''APRS'' @ '',TCPIP*'' @ CHR '':'' # long_payload" by simp
  have v: "validate_for_packet ''N0CALL'' = Inr ()" "validate_for_packet ''APRS'' = Inr ()"
    by code_simp+
  have c: "list_all (\<lambda>b. \<not> is_control b) (''N0CALL>APRS,TCPIP*:'' @ long_payload)"
    by (simp add: is_control_def long_payload_def list_all_iff)
  have len: "length (''N0CALL>APRS,TCPIP*:'' @ long_payload) \<le> MAX_PACKET_BODY_LEN"
    by (simp add: long_payload_def MAX_PACKET_BODY_LEN_def MAX_PACKET_LEN_def)
  have pp: "path_part '',TCPIP*'' ''TCPIP*''" by (simp add: path_part_def field_ok_def is_cont_def)
  have f: "field_ok long_payload" "long_payload \<noteq> []"
    by (simp_all add: long_payload_def field_ok_def is_cont_def)
  show ?thesis
    using packet_parse_render [OF raw pp _ f(2,1) v len c] by (simp add: long_packet_def)
qed

lemma apply_client_cong:
  "p_path p = p_path q \<Longrightarrow> p_source p = p_source q \<Longrightarrow> apply_client p ctx = apply_client q ctx"
  unfolding apply_client_def by (simp only:)

definition long_ingest :: ingest where
  "long_ingest = sample_ingest\<lparr>in_line := ''N0CALL>APRS,TCPIP*:'' @ long_payload\<rparr>"

theorem outgrown_line_dropped_witness:
  "\<exists>dc st. process sample_hash (bounded_send 1) sample_libm long_ingest (with_window 30) sample_state 5 =
      (Invalid PacketEmpty, dc, st) \<and>
    fst (process sample_hash (bounded_send 1) sample_libm long_ingest dc st 35) = Duplicate"
proof -
  let ?out = "\<lparr>qo_code = VerifiedClient, qo_path = ''TCPIP*,qAC,T2TEST'', qo_rewritten = True\<rparr>"
  have l: "in_verified long_ingest" "packet_parse (in_line long_ingest) = Inr long_packet"
    using long_packet_parsed by (simp_all add: long_ingest_def sample_ingest_def)
  have "list_all is_ascii (in_line long_ingest)"
    by (simp add: long_ingest_def long_payload_def list_all_iff is_ascii_def)
  then have u: "valid_utf8 (in_line long_ingest)" by (rule valid_utf8_ascii)
  have v: "valid_station (ss_server_id sample_state)" "valid_station (in_login long_ingest)"
    using sample_stations by (simp_all add: long_ingest_def)
  have n: "\<not> fst (check_packet sample_hash (with_window 30) long_packet 5)"
    using check_digest_ok(1) [OF with_window_inv, of 30] 
    by (simp add: check_packet_def first_seen_def with_window_def Let_def)
  have c: "context_of sample_state long_ingest = sample_ctx"
    by (simp add: context_of_def long_ingest_def sample_ingest_def sample_ctx_def server_state_new_def
        sample_config_def)
  have "apply_client sample_packet sample_ctx = Inr ?out" by code_simp
  then have a: "apply_client long_packet (context_of sample_state long_ingest) = Inr ?out"
    unfolding c
    using apply_client_cong [of long_packet sample_packet sample_ctx]
    by (simp add: sample_packet_def long_packet_def)
  have g: "510 < length (with_path long_packet (qo_path ?out))"
    by (simp add: with_path_def long_packet_def long_payload_def)
  have w: "dc_now (with_window 30) \<le> 5" "dc_window (with_window 30) = 30"
    by (simp_all add: with_window_def Let_def)
  from outgrown_line_dropped [OF l u v with_window_inv w(1) n a _ g, of "bounded_send 1" sample_libm]
  obtain dc st where r: "process sample_hash (bounded_send 1) sample_libm long_ingest (with_window 30)
      sample_state 5 = (Invalid PacketEmpty, dc, st)"
    and rep: "\<And>j q later. in_verified j \<Longrightarrow> packet_parse (in_line j) = Inr q \<Longrightarrow>
      p_source q = p_source long_packet \<Longrightarrow> p_destination q = p_destination long_packet \<Longrightarrow>
      p_payload q = p_payload long_packet \<Longrightarrow> 5 \<le> later \<Longrightarrow> later - 5 \<le> 30 \<Longrightarrow>
      fst (process sample_hash (bounded_send 1) sample_libm j dc st later) = Duplicate"
    by (auto simp: w(2))
  from rep [OF l, of 35] r show ?thesis by auto
qed

end
