(* ===== verification/Listener.thy ===== *)
theory Listener
  imports Config
begin

section \<open>Listening ports (\<open>aprsr-server/src/listener.rs\<close>, \<open>Server::bind\<close> of \<open>lib.rs\<close>)\<close>

text \<open>
  The context of a port and the binding of all ports at start-up. The operating system's side of
  \<open>bind\<close> and \<open>local_addr\<close> are parameters that thread its state \<open>'os\<close>: which addresses are taken.
\<close>

record listener_context =
  lx_name :: str
  lx_kind :: port_kind
  lx_protocol :: protocol
  lx_forced_filter :: "filter_entry list option"
  lx_max_clients :: "nat option"
  lx_hidden :: bool

datatype 'io server_error =
    Bind str socket_addr 'io
  | ServerListenerFilter str filter_error
  | NoTcpListeners

definition from_config :: "listener_config \<Rightarrow> ('io server_error, listener_context) result" where
  "from_config config =
     and_then
       (case lc_filter config of
          Some expression \<Rightarrow>
            and_then (map_err (ServerListenerFilter (lc_name config)) (chain_parse expression))
              (\<lambda>chain. Inr (Some chain))
        | None \<Rightarrow> Inr None)
       (\<lambda>forced_filter. Inr
          \<lparr>lx_name = lc_name config,
           lx_kind = lc_kind config,
           lx_protocol = lc_protocol config,
           lx_forced_filter = forced_filter,
           lx_max_clients = lc_max_clients config,
           lx_hidden = lc_hidden config\<rparr>)"

record 'sock bound_listener =
  bl_context :: listener_context
  bl_socket :: 'sock
  bl_local_addr :: socket_addr

fun bind_loop ::
  "('os \<Rightarrow> socket_addr \<Rightarrow> ('io, 'sock \<times> 'os) result) \<Rightarrow> ('sock \<Rightarrow> ('io, socket_addr) result) \<Rightarrow>
     listener_config list \<Rightarrow> 'os \<Rightarrow> 'sock bound_listener list \<Rightarrow>
     ('io server_error, 'sock bound_listener list) result" where
  "bind_loop bind local_addr [] os acc = Inr acc"
| "bind_loop bind local_addr (l # ls) os acc =
     and_then (from_config l) (\<lambda>context.
     if lc_protocol l = Udp then bind_loop bind local_addr ls os acc
     else
       and_then (map_err (Bind (lc_name l) (lc_bind l)) (bind os (lc_bind l))) (\<lambda>(socket, os).
       and_then (map_err (Bind (lc_name l) (lc_bind l)) (local_addr socket)) (\<lambda>addr.
       bind_loop bind local_addr ls os
         (acc @ [\<lparr>bl_context = context, bl_socket = socket, bl_local_addr = addr\<rparr>]))))"

definition bind_all ::
  "('os \<Rightarrow> socket_addr \<Rightarrow> ('io, 'sock \<times> 'os) result) \<Rightarrow> ('sock \<Rightarrow> ('io, socket_addr) result) \<Rightarrow>
     config \<Rightarrow> 'os \<Rightarrow> ('io server_error, 'sock bound_listener list) result" where
  "bind_all bind local_addr config os =
     and_then (bind_loop bind local_addr (cf_listeners config) os []) (\<lambda>bound.
     if bound = [] then Inl NoTcpListeners else Inr bound)"

definition local_addrs :: "'sock bound_listener list \<Rightarrow> (str \<times> socket_addr) list" where
  "local_addrs ls = map (\<lambda>l. (lx_name (bl_context l), bl_local_addr l)) ls"

definition addr_of :: "'sock bound_listener list \<Rightarrow> str \<Rightarrow> socket_addr option" where
  "addr_of ls name =
     map_option bl_local_addr (List.find (\<lambda>l. lx_name (bl_context l) = name) ls)"

subsection \<open>Binding the ports of a validated configuration\<close>

definition context_of_listener :: "listener_config \<Rightarrow> listener_context" where
  "context_of_listener l =
     \<lparr>lx_name = lc_name l, lx_kind = lc_kind l, lx_protocol = lc_protocol l,
      lx_forced_filter = map_option (\<lambda>e. unwrap_or [] (result_ok (chain_parse e))) (lc_filter l),
      lx_max_clients = lc_max_clients l, lx_hidden = lc_hidden l\<rparr>"

abbreviation tcp_listeners :: "config \<Rightarrow> listener_config list" where
  "tcp_listeners c \<equiv> filter (\<lambda>l. lc_protocol l \<noteq> Udp) (cf_listeners c)"

lemma from_config_ok: "listener_ok l \<Longrightarrow> from_config l = Inr (context_of_listener l)"
  by (auto simp: listener_ok_def from_config_def context_of_listener_def is_ok_iff split: option.splits)

lemma from_config_Inr: "from_config l = Inr x \<Longrightarrow> listener_ok l \<and> x = context_of_listener l"
  by (auto simp: listener_ok_def from_config_def context_of_listener_def res_simps is_ok_iff
      split: option.splits)

lemma bind_loop_Inr:
  "bind_loop bind local_addr ls os acc = Inr bound \<Longrightarrow>
     map bl_context bound =
       map bl_context acc @ map context_of_listener (filter (\<lambda>l. lc_protocol l \<noteq> Udp) ls)"
  by (induction bind local_addr ls os acc rule: bind_loop.induct)
     (auto simp: res_simps split: if_splits prod.splits dest: from_config_Inr)

lemma bind_loop_Inl:
  assumes "bind_loop bind local_addr ls os acc = Inl e" and "list_all listener_ok ls"
  shows "\<exists>l io. l \<in> set ls \<and> lc_protocol l \<noteq> Udp \<and> e = Bind (lc_name l) (lc_bind l) io"
  using assms
proof (induction ls arbitrary: os acc)
  case (Cons l ls)
  from Cons.prems(2) have f: "from_config l = Inr (context_of_listener l)" and ls: "list_all listener_ok ls"
    by (simp_all add: from_config_ok)
  have tail: "\<exists>k io. k \<in> set (l # ls) \<and> lc_protocol k \<noteq> Udp \<and> e = Bind (lc_name k) (lc_bind k) io"
    if "bind_loop bind local_addr ls os' acc' = Inl e" for os' acc'
    using Cons.IH [OF that ls] by auto
  from Cons.prems(1) consider
    "bind_loop bind local_addr ls os acc = Inl e"
    | io where "lc_protocol l \<noteq> Udp" "e = Bind (lc_name l) (lc_bind l) io"
    | os' acc' where "bind_loop bind local_addr ls os' acc' = Inl e"
    by (auto simp: f and_then_Inl map_err_Inl split: if_splits prod.splits)
  then show ?case
  proof cases
    case 1
    then show ?thesis by (rule tail)
  next
    case (2 io)
    then show ?thesis by auto
  next
    case 3
    then show ?thesis by (rule tail)
  qed
qed simp

text \<open>What \<open>bind_all\<close> can answer when the filters are valid.\<close>

lemma bind_all_cases:
  assumes ok: "list_all listener_ok (cf_listeners c)"
  shows "case bind_all bind local_addr c os of
      Inr bound \<Rightarrow> bound \<noteq> [] \<and> map bl_context bound = map context_of_listener (tcp_listeners c)
    | Inl (Bind name addr io) \<Rightarrow> (\<exists>l \<in> set (tcp_listeners c). name = lc_name l \<and> addr = lc_bind l)
    | Inl (ServerListenerFilter name e) \<Rightarrow> False
    | Inl NoTcpListeners \<Rightarrow> tcp_listeners c = []"
proof (cases "bind_loop bind local_addr (cf_listeners c) os []")
  case (Inl e)
  from bind_loop_Inl [OF this ok] Inl show ?thesis by (auto simp: bind_all_def)
next
  case (Inr bound)
  note m = bind_loop_Inr [OF this]
  show ?thesis
  proof (cases "bound = []")
    case True
    with m have "map context_of_listener (tcp_listeners c) = []" by simp
    with Inr True show ?thesis by (simp add: bind_all_def)
  next
    case False
    with Inr m show ?thesis by (simp add: bind_all_def)
  qed
qed

subsection \<open>Properties\<close>

text \<open>Starting a server on a loaded configuration either binds exactly its TCP ports, in order, each
  with its forced filter parsed, or fails because the system refused one of these ports, or because
  there is none; the filters, validated when the configuration was loaded, are never the reason.\<close>

theorem bind_validated_config:
  assumes "from_toml figment inp = Inr c"
  shows "case bind_all bind local_addr c os of
      Inr bound \<Rightarrow> bound \<noteq> [] \<and> map bl_context bound = map context_of_listener (tcp_listeners c)
    | Inl (Bind name addr io) \<Rightarrow> (\<exists>l \<in> set (tcp_listeners c). name = lc_name l \<and> addr = lc_bind l)
    | Inl (ServerListenerFilter name e) \<Rightarrow> False
    | Inl NoTcpListeners \<Rightarrow> tcp_listeners c = []"
  by (rule bind_all_cases) (use assms in \<open>simp add: from_toml_iff config_validate_iff\<close>)

text \<open>A system on which every bind succeeds unless the address is taken.\<close>

definition sample_bind ::
  "socket_addr list \<Rightarrow> socket_addr \<Rightarrow> (unit, socket_addr \<times> socket_addr list) result" where
  "sample_bind taken a = (if a \<in> set taken then Inl () else Inr (a, a # taken))"

theorem bind_validated_config_witness:
  "\<exists>bound. bind_all sample_bind Inr (sample_config [sample_listener ''Clients'']) [] = Inr bound \<and>
     map (lx_name \<circ> bl_context) bound = [''Clients'']"
proof -
  let ?c = "sample_config [sample_listener ''Clients'']"
  have "server_id_ok ''T2TEST''" by code_simp
  then have "config_validate ?c = (Inr () :: (unit config_error, unit) result)"
    by (simp add: config_validate_iff) (simp add: sample_config_def sample_listener_def listener_ok_def)
  then have l: "from_toml Inr ?c = (Inr ?c :: (unit config_error, config) result)"
    by (simp add: from_toml_def)
  have t: "tcp_listeners ?c = [sample_listener ''Clients'']"
    by (simp add: sample_config_def sample_listener_def)
  have "is_ok (bind_all sample_bind Inr ?c [])"
    by (simp add: bind_all_def sample_config_def sample_listener_def from_config_def sample_bind_def)
  then obtain bound where b: "bind_all sample_bind Inr ?c [] = Inr bound" by (auto simp: is_ok_iff)
  with bind_validated_config [OF l, of sample_bind Inr "[]"] t
  have "map bl_context bound = [context_of_listener (sample_listener ''Clients'')]" by simp
  then have "map (lx_name \<circ> bl_context) bound = [lx_name (context_of_listener (sample_listener ''Clients''))]"
    by (metis (no_types, lifting) list.map_comp list.simps(8,9))
  with b show ?thesis by (auto simp: context_of_listener_def sample_listener_def)
qed

end
