(* ===== verification/Connection.thy ===== *)
theory Connection
  imports Codec Login Listener Dispatch
begin

section \<open>One connected client (\<open>aprsr-server/src/client.rs\<close>)\<close>

text \<open>
  The life of a connection: the capacity check, the login within its timeout, the registration, the
  client's submissions and filter commands and the teardown (the feed is in \<open>Client_Feed\<close>). What the socket delivers is
  a list of arrivals, each with the seconds the read had to wait. The parameters are the bounded
  channels of tokio: \<open>channel\<close> makes a client's queue of a given capacity and \<open>submit\<close> is the
  \<open>try_send\<close> on the queue in front of the dispatcher. The database row of the session is a parameter
  too: its id, or \<open>None\<close> without a database.

  Each definition is one uninterrupted stretch of the connection's task between two awaits on the
  socket, so that the interleavings of several connections with the dispatcher are sequences of
  these steps (\<open>session_step\<close> of \<open>Sessions\<close>).
\<close>

definition SOFTWARE_NAME :: str where "SOFTWARE_NAME = ''aprsr''"
definition LOGIN_TIMEOUT :: nat where "LOGIN_TIMEOUT = 30"

datatype arrival =
    Arrives (waited: nat) line
  | Ends (waited: nat)
  | Fails (waited: nat)

datatype input = ReadInput arrival | ShutdownSignal

subsection \<open>The handshake\<close>

definition starts_with :: "char \<Rightarrow> str \<Rightarrow> bool" where
  "starts_with c s \<longleftrightarrow> strip_prefix_char c s \<noteq> None"

definition admits :: "'o server_state \<Rightarrow> listener_context \<Rightarrow> bool" where
  "admits st listener \<longleftrightarrow>
     \<not> (case lx_max_clients listener of
           Some limit \<Rightarrow> count_on_listener (ss_registry st) (lx_name listener) \<ge> limit
         | None \<Rightarrow> False)"

fun read_login :: "arrival list \<Rightarrow> login_request option \<times> arrival list" where
  "read_login [] = (None, [])"
| "read_login (a # as) =
     (if LOGIN_TIMEOUT < waited a then (None, a # as)
      else case a of
        Ends _ \<Rightarrow> (None, as)
      | Fails _ \<Rightarrow> (None, as)
      | Arrives _ Oversized \<Rightarrow> read_login as
      | Arrives _ NotUtf8 \<Rightarrow> read_login as
      | Arrives _ (Text line) \<Rightarrow>
          if trim line = [] \<or> starts_with CHR ''#'' line then read_login as
          else (case login_parse line of Inr login \<Rightarrow> (Some login, as) | Inl _ \<Rightarrow> (None, as)))"

definition initial_filter :: "listener_context \<Rightarrow> str option \<Rightarrow> filter_entry list \<times> bool" where
  "initial_filter listener requested =
     (case lx_forced_filter listener of
        Some port_filter \<Rightarrow> (port_filter, True)
      | None \<Rightarrow>
          if \<not> accepts_filters (lx_kind listener) then ([], True)
          else (unwrap_or [] (Option.bind requested (\<lambda>expression. result_ok (chain_parse expression))), False))"

definition software_of :: "login_request \<Rightarrow> str option" where
  "software_of login =
     (case (lr_software login, lr_software_version login) of
        (Some name, Some version) \<Rightarrow> Some (name @ '' '' @ version)
      | (Some name, None) \<Rightarrow> Some name
      | _ \<Rightarrow> None)"

definition register ::
  "(nat \<Rightarrow> 'o) \<Rightarrow> login_request \<Rightarrow> verification \<Rightarrow> str \<Rightarrow> socket_addr \<Rightarrow> listener_context \<Rightarrow> nat \<Rightarrow> int option \<Rightarrow>
     'o server_state \<Rightarrow> 'o client \<times> 'o server_state" where
  "register channel login v callsign peer listener now session_id st =
     (case initial_filter listener (lr_filter login) of
        (chain, filter_locked) \<Rightarrow>
          (case reg_insert (ss_registry st)
             \<lparr>re_callsign = callsign,
              re_remote = peer,
              re_listener = lx_name listener,
              re_port_kind = lx_kind listener,
              re_software = software_of login,
              re_verified = may_transmit v,
              re_connected_at = now,
              re_session_id = session_id,
              re_filter = chain,
              re_filter_locked = filter_locked,
              re_outbox = channel (max (lm_client_queue (cf_limits (ss_config st))) 1)\<rparr> of
             (c, r) \<Rightarrow> (c, st\<lparr>ss_registry := r\<rparr>)))"

definition count_login_rejected :: "metrics \<Rightarrow> metrics" where
  "count_login_rejected mt = mt\<lparr>mt_logins_rejected := ctr_incr (mt_logins_rejected mt)\<rparr>"

definition count_connected :: "metrics \<Rightarrow> metrics" where
  "count_connected mt =
     mt\<lparr>mt_clients_connected := ctr_incr (mt_clients_connected mt),
        mt_clients_total := ctr_incr (mt_clients_total mt)\<rparr>"

definition log_in ::
  "(nat \<Rightarrow> 'o) \<Rightarrow> login_request \<Rightarrow> socket_addr \<Rightarrow> listener_context \<Rightarrow> nat \<Rightarrow> int option \<Rightarrow>
     'o server_state \<Rightarrow> 'o client \<times> 'o server_state" where
  "log_in channel login peer listener now session_id st =
     (let v = login_verify login;
          callsign = callsign_as_str (lr_callsign login);
          st = (if v = verification.Invalid then with_metrics st count_login_rejected else st)
      in case register channel login v callsign peer listener now session_id st of
        (c, st) \<Rightarrow> (c, with_metrics st count_connected))"

subsection \<open>Submissions\<close>

definition apply_filter_command ::
  "listener_context \<Rightarrow> str \<Rightarrow> 'o client \<Rightarrow> 'o client" where
  "apply_filter_command listener expression c =
     (if \<not> accepts_filters (lx_kind listener) \<or> cl_filter_locked c then c
      else case chain_parse expression of
        Inr chain \<Rightarrow> snd (set_filter c chain)
      | Inl _ \<Rightarrow> c)"

definition on_client :: "'o server_state \<Rightarrow> client_id \<Rightarrow> ('o client \<Rightarrow> 'o client) \<Rightarrow> 'o server_state" where
  "on_client st i g = st\<lparr>ss_registry := with_client (ss_registry st) i g\<rparr>"

definition count_client :: "(client_counters \<Rightarrow> client_counters) \<Rightarrow> 'o client \<Rightarrow> 'o client" where
  "count_client g c = c\<lparr>cl_counters := g (cl_counters c)\<rparr>"

definition count_bad_line :: "client_counters \<Rightarrow> client_counters" where
  "count_bad_line k = k\<lparr>cc_packets_dropped := ctr_incr (cc_packets_dropped k)\<rparr>"

definition count_bytes :: "str \<Rightarrow> client_counters \<Rightarrow> client_counters" where
  "count_bytes line k =
     k\<lparr>cc_bytes_received := ctr_add (cc_bytes_received k) (of_nat (length line) + 2)\<rparr>"

definition count_packet :: "client_counters \<Rightarrow> client_counters" where
  "count_packet k = k\<lparr>cc_packets_received := ctr_incr (cc_packets_received k)\<rparr>"

definition count_queue_full :: "metrics \<Rightarrow> metrics" where
  "count_queue_full mt = mt\<lparr>mt_packets_dropped_slow := ctr_incr (mt_packets_dropped_slow mt)\<rparr>"

definition submission :: "listener_context \<Rightarrow> 'o client \<Rightarrow> str \<Rightarrow> ingest" where
  "submission listener c line =
     \<lparr>in_line = line, in_origin = Some (cl_id c), in_login = cl_callsign c, in_verified = cl_verified c,
      in_via_udp = False, in_send_only = is_send_only (lx_kind listener)\<rparr>"

definition on_line ::
  "('q \<Rightarrow> ingest \<Rightarrow> 'q option) \<Rightarrow> listener_context \<Rightarrow> 'o client \<Rightarrow> line \<Rightarrow>
     'q \<times> 'o server_state \<Rightarrow> 'q \<times> 'o server_state" where
  "on_line submit listener c item s =
     (case s of (q, st) \<Rightarrow>
      case item of
        Text line \<Rightarrow>
          (let st = on_client st (cl_id c) (count_client (count_bytes line));
               trimmed = trim line
           in if trimmed = [] then (q, st)
              else if starts_with CHR ''#'' trimmed then (q, st)
              else
                (case (case strip_prefix ''filter '' trimmed of
                         Some e \<Rightarrow> Some e
                       | None \<Rightarrow> strip_prefix ''#filter '' trimmed) of
                   Some expression \<Rightarrow>
                     (q, on_client st (cl_id c) (apply_filter_command listener expression))
                 | None \<Rightarrow>
                     (let st = on_client st (cl_id c) (count_client count_packet) in
                      case submit q (submission listener c line) of
                        Some q \<Rightarrow> (q, st)
                      | None \<Rightarrow> (q, with_metrics st count_queue_full))))
      | _ \<Rightarrow>
          (q, on_client (with_metrics st count_invalid) (cl_id c) (count_client count_bad_line)))"

fun read_submissions ::
  "('q \<Rightarrow> ingest \<Rightarrow> 'q option) \<Rightarrow> listener_context \<Rightarrow> 'o client \<Rightarrow> input list \<Rightarrow>
     'q \<times> 'o server_state \<Rightarrow> 'q \<times> 'o server_state" where
  "read_submissions submit listener c [] s = s"
| "read_submissions submit listener c (ShutdownSignal # is) s = s"
| "read_submissions submit listener c (ReadInput a # is) s =
     (if as_secs (lm_client_timeout (cf_limits (ss_config (snd s)))) < waited a then s
      else case a of
        Ends _ \<Rightarrow> s
      | Fails _ \<Rightarrow> s
      | Arrives _ item \<Rightarrow> read_submissions submit listener c is (on_line submit listener c item s))"

subsection \<open>Teardown\<close>

definition count_disconnected :: "metrics \<Rightarrow> metrics" where
  "count_disconnected mt = mt\<lparr>mt_clients_connected := ctr_decr (mt_clients_connected mt)\<rparr>"

definition disconnect ::
  "'o client \<Rightarrow> nat \<Rightarrow> 'o server_state \<Rightarrow> (int \<times> int \<times> session_totals) option \<times> 'o server_state" where
  "disconnect c now st =
     (case reg_remove (ss_registry st) (cl_id c) of
        (removed, r) \<Rightarrow>
          (Option.bind (cl_session_id c) (\<lambda>i.
             map_option (\<lambda>c. (i, i64_saturating now, client_totals (cl_counters c))) removed),
           with_metrics (st\<lparr>ss_registry := r\<rparr>) count_disconnected))"

text \<open>
  The whole task with nothing else running. \<open>wrote\<close> says whether the banner and the acknowledgement
  could be written; the lines are what the client has been sent before the feed.
\<close>

definition serve ::
  "(nat \<Rightarrow> 'o) \<Rightarrow> ('q \<Rightarrow> ingest \<Rightarrow> 'q option) \<Rightarrow> str \<Rightarrow> bool \<times> bool \<Rightarrow> listener_context \<Rightarrow> socket_addr \<Rightarrow>
     nat \<Rightarrow> int option \<Rightarrow> arrival list \<Rightarrow> input list \<Rightarrow> nat \<Rightarrow> 'q \<times> 'o server_state \<Rightarrow>
     str list \<times> 'q \<times> 'o server_state" where
  "serve channel submit version wrote listener peer now session_id as is ending s =
     (case s of (q, st) \<Rightarrow>
      if \<not> admits st listener then ([], q, st)
      else
        (let hello = banner SOFTWARE_NAME version (ss_server_id st) in
         if \<not> fst wrote then ([], q, st)
         else case read_login as of
           (None, _) \<Rightarrow> ([hello], q, with_metrics st count_login_rejected)
         | (Some login, _) \<Rightarrow>
             (let reply = login_response (callsign_as_str (lr_callsign login)) (login_verify login)
                            (ss_server_id st) in
              if \<not> snd wrote then ([hello], q, st)
              else case log_in channel login peer listener now session_id st of
                (c, st) \<Rightarrow>
                  (case read_submissions submit listener c is (q, st) of
                     (q, st) \<Rightarrow> ([hello, reply], q, snd (disconnect c ending st))))))"

subsection \<open>What a login needs\<close>

text \<open>The lines \<open>read_login\<close> passes over.\<close>

definition login_skipped :: "line \<Rightarrow> bool" where
  "login_skipped item \<longleftrightarrow>
     (case item of Text line \<Rightarrow> trim line = [] \<or> starts_with CHR ''#'' line | _ \<Rightarrow> True)"

fun passed_over :: "arrival \<Rightarrow> bool" where
  "passed_over (Arrives w item) \<longleftrightarrow> w \<le> LOGIN_TIMEOUT \<and> login_skipped item"
| "passed_over _ \<longleftrightarrow> False"

lemma read_login_Cons:
  "read_login (a # as) =
     (if passed_over a then read_login as
      else if LOGIN_TIMEOUT < waited a then (None, a # as)
      else case a of
        Arrives _ (Text line) \<Rightarrow> (result_ok (login_parse line), as)
      | _ \<Rightarrow> (None, as))"
  by (cases a) (auto simp: login_skipped_def split: line.split sum.split)

lemma read_login_skip: "list_all passed_over as \<Longrightarrow> read_login (as @ rest) = read_login rest"
  by (induction as) (simp_all add: read_login_Cons del: read_login.simps)

lemma read_login_accepts:
  "read_login as = (Some login, rest) \<Longrightarrow>
     \<exists>pre w line. as = pre @ Arrives w (Text line) # rest \<and> list_all passed_over pre \<and>
       w \<le> LOGIN_TIMEOUT \<and> \<not> login_skipped (Text line) \<and> login_parse line = Inr login"
proof (induction as)
  case (Cons a as)
  show ?case
  proof (cases "passed_over a")
    case True
    with Cons obtain pre w line where "as = pre @ Arrives w (Text line) # rest" "list_all passed_over pre"
      "w \<le> LOGIN_TIMEOUT" "\<not> login_skipped (Text line)" "login_parse line = Inr login"
      by (auto simp: read_login_Cons simp del: read_login.simps)
    with True show ?thesis by (intro exI [of _ "a # pre"]) auto
  next
    case False
    with Cons.prems obtain w line where "a = Arrives w (Text line)" "w \<le> LOGIN_TIMEOUT" "rest = as"
      "login_parse line = Inr login"
      by (auto simp: read_login_Cons res_simps simp del: read_login.simps
          split: if_splits arrival.splits line.splits)
    with False show ?thesis by (intro exI [of _ "[]"]) auto
  qed
qed simp

text \<open>The timeout is for one line, not for the login: comment lines keep the connection waiting for as
  long as their sender likes.\<close>

theorem login_wait_unbounded:
  "\<exists>as. n < sum_list (map waited as) \<and> (\<forall>rest. read_login (as @ rest) = read_login rest)"
proof -
  let ?as = "replicate (Suc n) (Arrives LOGIN_TIMEOUT (Text ''#''))"
  have "list_all passed_over ?as" by (simp add: list_all_iff login_skipped_def starts_with_def strip_prefix_char_def)
  moreover have "n < sum_list (map waited ?as)"
    by (simp add: sum_list_replicate LOGIN_TIMEOUT_def)
  ultimately show ?thesis using read_login_skip by blast
qed

text \<open>A connection gets past the handshake exactly when, after lines that are blank, comments,
  oversized or not UTF-8, a line arrives that parses as a login, with each single wait within the
  30 seconds; a line that is anything else ends it. What follows the login line is left for the
  submissions.\<close>

theorem login_accepted_iff:
  "read_login as = (Some login, rest) \<longleftrightarrow>
     (\<exists>pre w line. as = pre @ Arrives w (Text line) # rest \<and> list_all passed_over pre \<and>
        w \<le> 30 \<and> \<not> login_skipped (Text line) \<and> login_parse line = Inr login)"
proof -
  have "read_login (pre @ Arrives w (Text line) # rest) = (Some login, rest)"
    if "list_all passed_over pre" "w \<le> 30" "\<not> login_skipped (Text line)" "login_parse line = Inr login"
    for pre w line
    using that by (simp add: read_login_skip read_login_Cons LOGIN_TIMEOUT_def del: read_login.simps)
  then show ?thesis
    using read_login_accepts [of as login rest] by (auto simp: LOGIN_TIMEOUT_def)
qed

subsection \<open>What a client may submit\<close>

lemma log_in_client:
  assumes "log_in channel login peer listener now session_id st = (c, st')"
  shows "cl_callsign c = cs_raw (lr_callsign login) \<and> cl_verified c = may_transmit (login_verify login) \<and>
    cl_listener c = lx_name listener \<and> cl_port_kind c = lx_kind listener \<and>
    cl_filter c = fst (initial_filter listener (lr_filter login)) \<and>
    cl_filter_locked c = snd (initial_filter listener (lr_filter login)) \<and>
    cl_counters c = counters_new"
  using assms
  by (auto simp: log_in_def register_def reg_insert_def Let_def callsign_as_str_def split: prod.splits)

lemma delivered_verified:
  assumes "process hash send m i dc st now = (Delivered line code, dc', st')"
  shows "in_verified i \<and> (\<exists>p. packet_parse (in_line i) = Inr p)"
  using assms by (cases rule: process_cases) auto

text \<open>C14: a line is delivered only for a client whose login line carried the passcode of the callsign it
  logged in with, whatever happened between its login and the line; and it is delivered under that
  callsign.\<close>

theorem delivery_requires_passcode:
  assumes "login_parse text = Inr login"
    and "log_in channel login peer listener t session_id st = (c, st1)"
    and "process hash send m (submission listener c line) dc st2 now = (Delivered out code, dc', st3)"
  shows "\<exists>u p n opts. split_ascii_whitespace text = u # cl_callsign c # p # n # opts \<and>
    parse_i32 n = Some (uint (generate (cl_callsign c))) \<and> in_login (submission listener c line) = cl_callsign c"
proof -
  note c = log_in_client [OF assms(2)]
  have "login_verify login = Verified"
    using delivered_verified [OF assms(3)] c
    by (simp add: submission_def may_transmit_def)
  then have n: "lr_passcode login = uint (generate (cl_callsign c))"
    using c by (simp add: login_verify_def callsign_as_str_def verify_Verified_iff)
  from assms(1) obtain k c' p n opts where
    s: "split_ascii_whitespace text = k # c' # p # n # opts" "parse_i32 n = Some (lr_passcode login)"
    and c': "parse_login c' = Inr (lr_callsign login)"
    by (rule login_parse_InrD)
  have "c' = cl_callsign c"
    using c' c by (auto simp: parse_login_def callsign_parse_wf_iff split: if_splits)
  with s n show ?thesis by (simp add: submission_def)
qed

subsection \<open>Accounting for the submissions\<close>

text \<open>The lines a run of \<open>read_submissions\<close> takes from its input, and which of them are packets.\<close>

fun received :: "nat \<Rightarrow> input list \<Rightarrow> line list" where
  "received timeout [] = []"
| "received timeout (ShutdownSignal # is) = []"
| "received timeout (ReadInput a # is) =
     (if timeout < waited a then []
      else case a of Arrives _ item \<Rightarrow> item # received timeout is | _ \<Rightarrow> [])"

definition packet_line :: "line \<Rightarrow> str option" where
  "packet_line item =
     (case item of
        Text line \<Rightarrow>
          if trim line = [] \<or> starts_with CHR ''#'' (trim line) \<or>
             strip_prefix ''filter '' (trim line) \<noteq> None then None else Some line
      | _ \<Rightarrow> None)"

definition unreadable :: "line \<Rightarrow> bool" where
  "unreadable item \<longleftrightarrow> (case item of Text _ \<Rightarrow> False | _ \<Rightarrow> True)"

definition line_bytes :: "line \<Rightarrow> nat" where
  "line_bytes item = (case item of Text line \<Rightarrow> length line + 2 | _ \<Rightarrow> 0)"

text \<open>A queue after a list of submissions, and how many of them it refused.\<close>

fun offered :: "('q \<Rightarrow> ingest \<Rightarrow> 'q option) \<Rightarrow> ingest list \<Rightarrow> 'q \<Rightarrow> 'q \<times> nat" where
  "offered submit [] q = (q, 0)"
| "offered submit (i # is) q =
     (case submit q i of
        Some q \<Rightarrow> offered submit is q
      | None \<Rightarrow> (case offered submit is q of (q, n) \<Rightarrow> (q, Suc n)))"

definition counters_after :: "line list \<Rightarrow> client_counters \<Rightarrow> client_counters" where
  "counters_after items k =
     k\<lparr>cc_packets_received := cc_packets_received k + of_nat (length (List.map_filter packet_line items)),
       cc_packets_dropped := cc_packets_dropped k + of_nat (length (filter unreadable items)),
       cc_bytes_received := cc_bytes_received k + of_nat (sum_list (map line_bytes items))\<rparr>"

definition metrics_after :: "line list \<Rightarrow> nat \<Rightarrow> metrics \<Rightarrow> metrics" where
  "metrics_after items refused mt =
     mt\<lparr>mt_packets_invalid := mt_packets_invalid mt + of_nat (length (filter unreadable items)),
        mt_packets_dropped_slow := mt_packets_dropped_slow mt + of_nat refused\<rparr>"

lemma strip_hash_prefix: "\<not> starts_with CHR ''#'' t \<Longrightarrow> strip_prefix ''#filter '' t = None"
  by (cases t) (auto simp: starts_with_def strip_prefix_char_def)

lemma apply_filter_command_frame:
  "cl_counters (apply_filter_command listener e c) = cl_counters c"
  "cl_outbox (apply_filter_command listener e c) = cl_outbox c"
  by (simp_all add: apply_filter_command_def set_filter_def split: sum.split)

text \<open>What one line does to the server state, apart from the queue.\<close>

definition line_update :: "listener_context \<Rightarrow> line \<Rightarrow> 'o client \<Rightarrow> 'o client" where
  "line_update listener item =
     (case item of
        Text line \<Rightarrow>
          (if packet_line item \<noteq> None then count_client count_packet
           else case strip_prefix ''filter '' (trim line) of
             Some e \<Rightarrow> apply_filter_command listener e
           | None \<Rightarrow> id) \<circ> count_client (count_bytes line)
      | _ \<Rightarrow> count_client count_bad_line)"

lemma with_client_twice: "with_client (with_client r i g) i h = with_client r i (h \<circ> g)"
  by (simp add: with_client_def case_prod_beta comp_def if_distrib cong: if_cong)

lemma with_client_id: "with_client r i id = r"
proof -
  have "map (\<lambda>(k, c). (k, if k = i then id c else c)) (rg_clients r) = rg_clients r"
    by (rule map_idI) auto
  then show ?thesis by (simp add: with_client_def)
qed

lemma on_client_twice: "on_client (on_client st i g) i h = on_client st i (h \<circ> g)"
  by (simp add: on_client_def with_client_twice)

lemma on_line_eq:
  "on_line submit listener c item (q, st) =
     (case offered submit (map (submission listener c) (List.map_filter packet_line [item])) q of
        (q', n) \<Rightarrow> (q', (on_client st (cl_id c) (line_update listener item))
           \<lparr>ss_metrics := metrics_after [item] n (ss_metrics st)\<rparr>))"
proof (cases item)
  case (Text line)
  show ?thesis
  proof (cases "trim line = [] \<or> starts_with CHR ''#'' (trim line)")
    case True
    then have "strip_prefix ''filter '' (trim line) = None"
      by (cases "trim line") (auto simp: starts_with_def strip_prefix_char_def)
    with True show ?thesis
      by (auto simp: Text on_line_def Let_def packet_line_def line_update_def metrics_after_def
          List.map_filter_def unreadable_def on_client_def)
  next
    case False
    then show ?thesis
      by (auto simp: Text on_line_def Let_def packet_line_def line_update_def metrics_after_def
          List.map_filter_def unreadable_def with_client_twice strip_hash_prefix with_metrics_def
          count_queue_full_def ctr_incr_def on_client_def split: option.splits)
  qed
qed (simp_all add: on_line_def packet_line_def line_update_def metrics_after_def List.map_filter_def
    unreadable_def with_metrics_def on_client_def count_invalid_def ctr_incr_def)

lemma offered_append:
  "offered submit (is @ js) q =
     (case offered submit is q of (q, n) \<Rightarrow> case offered submit js q of (q, k) \<Rightarrow> (q, n + k))"
  by (induction submit "is" q rule: offered.induct) (auto split: option.splits prod.splits)

lemma map_filter_Cons1: "List.map_filter f (x # xs) = List.map_filter f [x] @ List.map_filter f xs"
  by (simp add: List.map_filter_def)

lemma metrics_after_Cons:
  "metrics_after items k (metrics_after [item] n mt) = metrics_after (item # items) (n + k) mt"
  by (simp add: metrics_after_def)

lemma no_lines:
  "(on_client st i id)\<lparr>ss_metrics := metrics_after [] 0 (ss_metrics st)\<rparr> = st"
  by (simp add: metrics_after_def on_client_def with_client_id)

lemma read_submissions_eq:
  "read_submissions submit listener c is (q, st) =
     (let items = received (as_secs (lm_client_timeout (cf_limits (ss_config st)))) is in
      case offered submit (map (submission listener c) (List.map_filter packet_line items)) q of
        (q', n) \<Rightarrow> (q', (on_client st (cl_id c) (fold (line_update listener) items))
           \<lparr>ss_metrics := metrics_after items n (ss_metrics st)\<rparr>))"
proof (induction "is" arbitrary: q st)
  case Nil
  show ?case by (simp add: no_lines List.map_filter_def)
next
  case (Cons x "is")
  show ?case
  proof (cases x)
    case (ReadInput a)
    let ?T = "as_secs (lm_client_timeout (cf_limits (ss_config st)))"
    show ?thesis
    proof (cases a)
      case (Arrives w item)
      obtain q1 n where o: "offered submit (map (submission listener c) (List.map_filter packet_line [item])) q =
          (q1, n)" by fastforce
      let ?st = "(on_client st (cl_id c) (line_update listener item))
          \<lparr>ss_metrics := metrics_after [item] n (ss_metrics st)\<rparr>"
      let ?R = "received ?T is"
      have o2: "offered submit (map (submission listener c) (List.map_filter packet_line (item # ?R))) q =
          (case offered submit (map (submission listener c) (List.map_filter packet_line ?R)) q1 of
             (q2, k) \<Rightarrow> (q2, n + k))"
        unfolding map_filter_Cons1 [of packet_line item ?R] map_append offered_append o by simp
      have "ss_config ?st = ss_config st" by (simp add: on_client_def)
      with Cons.IH [of q1 ?st] have ih: "read_submissions submit listener c is (q1, ?st) =
          (case offered submit (map (submission listener c) (List.map_filter packet_line ?R)) q1 of
             (q2, k) \<Rightarrow> (q2, (on_client st (cl_id c) (fold (line_update listener) (item # ?R)))
               \<lparr>ss_metrics := metrics_after (item # ?R) (n + k) (ss_metrics st)\<rparr>))"
        by (simp add: Let_def metrics_after_Cons split: prod.split)
           (simp add: on_client_def with_client_twice)
      show ?thesis
      proof (cases "?T < w")
        case False
        then show ?thesis
          by (simp add: ReadInput Arrives on_line_eq o o2 ih Let_def split: prod.split
              del: fold_simps List.map_filter_simps)
      qed (simp add: ReadInput Arrives no_lines List.map_filter_def)
    qed (simp_all add: ReadInput no_lines List.map_filter_def)
  qed (simp add: no_lines List.map_filter_def)
qed

lemma line_update_frame:
  "cl_counters (line_update listener item d) = counters_after [item] (cl_counters d)"
  "cl_outbox (line_update listener item d) = cl_outbox d"
  "cl_id (line_update listener item d) = cl_id d"
  by (auto simp: line_update_def count_client_def apply_filter_command_frame counters_after_def
      List.map_filter_def packet_line_def unreadable_def line_bytes_def count_packet_def count_bytes_def
      count_bad_line_def ctr_incr_def ctr_add_def apply_filter_command_def set_filter_def
      split: line.split option.split sum.split)

lemma counters_after_Cons:
  "counters_after items (counters_after [item] k) = counters_after (item # items) k"
  by (cases "packet_line item") (simp_all add: counters_after_def List.map_filter_def ac_simps)

lemma lines_update_frame:
  "cl_counters (fold (line_update listener) items d) = counters_after items (cl_counters d)"
  "cl_outbox (fold (line_update listener) items d) = cl_outbox d"
  "cl_id (fold (line_update listener) items d) = cl_id d"
proof (induction items arbitrary: d)
  case Nil
  { case 1 show ?case by (simp add: counters_after_def List.map_filter_def) }
  { case 2 show ?case by simp }
  { case 3 show ?case by simp }
next
  case (Cons item items)
  { case 1 show ?case by (simp add: Cons.IH line_update_frame counters_after_Cons) }
  { case 2 show ?case by (simp add: Cons.IH line_update_frame) }
  { case 3 show ?case by (simp add: Cons.IH line_update_frame) }
qed

text \<open>C20: over a whole session every line the client sends is accounted for: the packets among them are
  offered to the dispatcher once each and in order, the refused ones counted as slow drops, the
  oversized and undecodable ones as invalid, and the client's own counters add up the packets, the
  drops and the bytes with their CR and LF. No other client is touched, and the client's queue is not.\<close>

theorem submissions_accounted:
  assumes "read_submissions submit listener c is (q, st) = (q', st')"
    and "items = received (as_secs (lm_client_timeout (cf_limits (ss_config st)))) is"
    and "offered submit (map (submission listener c) (List.map_filter packet_line items)) q = (p, refused)"
  shows "q' = p \<and>
    ss_metrics st' = (ss_metrics st)
      \<lparr>mt_packets_invalid := mt_packets_invalid (ss_metrics st) + of_nat (length (filter unreadable items)),
       mt_packets_dropped_slow := mt_packets_dropped_slow (ss_metrics st) + of_nat refused\<rparr> \<and>
    (\<forall>j. map_option cl_counters (reg_get (ss_registry st') j) =
       map_option (if j = cl_id c then counters_after items else id)
         (map_option cl_counters (reg_get (ss_registry st) j)) \<and>
       map_option cl_outbox (reg_get (ss_registry st') j) = map_option cl_outbox (reg_get (ss_registry st) j))"
proof -
  from assms have r: "q' = p" "st' = (on_client st (cl_id c) (fold (line_update listener) items))
      \<lparr>ss_metrics := metrics_after items refused (ss_metrics st)\<rparr>"
    by (simp_all add: read_submissions_eq Let_def)
  show ?thesis
    by (auto simp: r on_client_def with_client_get option.map_comp comp_def lines_update_frame
        metrics_after_def)
qed

text \<open>C39: the filter of a client changes only on a line \<open>filter\<close> with an expression that parses, on a port
  that takes filters and when the port does not force one. The other spelling the code names, with a
  hash sign in front, has no effect: such a line is taken for a comment before the command is looked for.\<close>

theorem in_band_filter:
  assumes "on_line submit listener c (Text line) (q, st) = (q', st')"
    and "reg_get (ss_registry st) (cl_id c) = Some d"
  shows "\<exists>d'. reg_get (ss_registry st') (cl_id c) = Some d' \<and>
    cl_filter d' =
      (case strip_prefix ''filter '' (trim line) of
         Some e \<Rightarrow>
           if accepts_filters (lx_kind listener) \<and> \<not> cl_filter_locked d
           then (case chain_parse e of Inr chain \<Rightarrow> chain | Inl _ \<Rightarrow> cl_filter d) else cl_filter d
       | None \<Rightarrow> cl_filter d) \<and>
    (strip_prefix ''filter '' (trim line) \<noteq> None \<or> strip_prefix ''#filter '' (trim line) \<noteq> None \<longrightarrow>
      packet_line (Text line) = None \<and> q' = q)"
proof -
  let ?d = "line_update listener (Text line) d"
  from assms(1) obtain n where r: "offered submit (map (submission listener c)
      (List.map_filter packet_line [Text line])) q = (q', n)"
    "st' = (on_client st (cl_id c) (line_update listener (Text line)))
       \<lparr>ss_metrics := metrics_after [Text line] n (ss_metrics st)\<rparr>"
    by (auto simp: on_line_eq split: prod.splits)
  have g: "reg_get (ss_registry st') (cl_id c) = Some ?d"
    by (simp add: r(2) on_client_def with_client_get assms(2))
  have p: "packet_line (Text line) = None"
    if "strip_prefix ''filter '' (trim line) \<noteq> None \<or> strip_prefix ''#filter '' (trim line) \<noteq> None"
    using that strip_hash_prefix by (auto simp: packet_line_def)
  have f: "cl_filter ?d =
      (case strip_prefix ''filter '' (trim line) of
         Some e \<Rightarrow>
           if accepts_filters (lx_kind listener) \<and> \<not> cl_filter_locked d
           then (case chain_parse e of Inr chain \<Rightarrow> chain | Inl _ \<Rightarrow> cl_filter d) else cl_filter d
       | None \<Rightarrow> cl_filter d)"
    using p by (auto simp: line_update_def count_client_def apply_filter_command_def set_filter_def
        split: option.split sum.split)
  from g f p r(1) show ?thesis by (auto simp: List.map_filter_def)
qed

subsection \<open>Witnesses\<close>

definition sample_context :: listener_context where
  "sample_context = context_of_listener (sample_listener ''Clients'')"

definition list_submit :: "nat \<Rightarrow> ingest list \<Rightarrow> ingest \<Rightarrow> ingest list option" where
  "list_submit cap q i = (if length q < cap then Some (q @ [i]) else None)"

theorem login_accepted_iff_witness:
  "\<exists>login. read_login [Arrives 20 (Text ''# hello''), Arrives 20 Oversized, Arrives 30 (Text ''user N0CALL pass 13023'')]
     = (Some login, []) \<and> lr_passcode login = 13023"
proof -
  let ?l = "''user N0CALL pass 13023''"
  have "map_option lr_passcode (result_ok (login_parse ?l)) = Some 13023" by code_simp
  then obtain login where l: "login_parse ?l = Inr login" "lr_passcode login = 13023"
    by (auto simp: res_simps)
  have "trim ?l = ?l" by (rule trim_id) (simp_all add: is_ascii_def is_whitespace_def)
  then have n: "\<not> login_skipped (Text ?l)"
    by (simp add: login_skipped_def starts_with_def strip_prefix_char_def)
  have p: "list_all passed_over [Arrives 20 (Text ''# hello''), Arrives 20 Oversized]"
    by (simp add: login_skipped_def starts_with_def strip_prefix_char_def LOGIN_TIMEOUT_def)
  have "read_login ([Arrives 20 (Text ''# hello''), Arrives 20 Oversized] @ Arrives 30 (Text ?l) # []) =
      (Some login, [])"
    unfolding login_accepted_iff
    by (rule exI [of _ "[Arrives 20 (Text ''# hello''), Arrives 20 Oversized]"], rule exI [of _ 30],
        rule exI [of _ ?l]) (use l(1) n p in simp)
  with l(2) show ?thesis by auto
qed

definition sample_n0call :: login_request where
  "sample_n0call =
     \<lparr>lr_callsign = \<lparr>cs_raw = ''N0CALL'', cs_separator = None\<rparr>, lr_passcode = 13023, lr_software = None,
      lr_software_version = None, lr_udp_port = None, lr_filter = None\<rparr>"

lemma sample_n0call_parsed: "login_parse ''user N0CALL pass 13023'' = Inr sample_n0call"
  by code_simp

definition sample_session :: "str list client \<times> str list server_state" where
  "sample_session = log_in (\<lambda>_. []) sample_n0call sample_addr sample_context 0 None sample_state"

lemma sample_session_client:
  "fst sample_session = fst (reg_insert registry_new
     \<lparr>re_callsign = ''N0CALL'', re_remote = sample_addr, re_listener = ''Clients'', re_port_kind = Igate,
      re_software = None, re_verified = True, re_connected_at = 0, re_session_id = None, re_filter = [],
      re_filter_locked = False, re_outbox = []\<rparr>)"
  "ss_registry (snd sample_session) =
     registry_new\<lparr>rg_next_id := 1, rg_clients := [(0, fst sample_session)]\<rparr>"
proof -
  have "login_verify sample_n0call = Verified" by code_simp
  then show "fst sample_session = fst (reg_insert registry_new
     \<lparr>re_callsign = ''N0CALL'', re_remote = sample_addr, re_listener = ''Clients'', re_port_kind = Igate,
      re_software = None, re_verified = True, re_connected_at = 0, re_session_id = None, re_filter = [],
      re_filter_locked = False, re_outbox = []\<rparr>)"
    by (simp add: sample_session_def log_in_def register_def Let_def reg_insert_def sample_context_def context_of_listener_def
        sample_listener_def initial_filter_def accepts_filters_def sample_n0call_def software_of_def
        callsign_as_str_def server_state_new_def may_transmit_def)
  show "ss_registry (snd sample_session) =
     registry_new\<lparr>rg_next_id := 1, rg_clients := [(0, fst sample_session)]\<rparr>"
    by (simp add: sample_session_def log_in_def register_def Let_def reg_insert_def sample_context_def context_of_listener_def
        sample_listener_def initial_filter_def accepts_filters_def sample_n0call_def software_of_def
        callsign_as_str_def server_state_new_def with_metrics_def registry_new_def)
qed

lemma sample_session_facts:
  "cl_id (fst sample_session) = 0" "cl_callsign (fst sample_session) = ''N0CALL''"
  "cl_verified (fst sample_session)" "cl_counters (fst sample_session) = counters_new"
  "cl_filter (fst sample_session) = []" "\<not> cl_filter_locked (fst sample_session)"
  unfolding sample_session_client(1) by (simp_all add: reg_insert_def Let_def registry_new_def)

lemma sample_session_state:
  "ss_config (snd sample_session) = ss_config (sample_state :: str list server_state)"
  "mt_packets_invalid (ss_metrics (snd sample_session)) = 0"
  by (simp_all add: sample_session_def log_in_def register_def Let_def with_metrics_def count_connected_def
      count_login_rejected_def server_state_new_def metrics_new_def split: prod.split)

lemma sample_session_eq:
  "log_in (\<lambda>_. []) sample_n0call sample_addr sample_context 0 None sample_state =
     (fst sample_session, snd sample_session)"
  by (simp add: sample_session_def)

lemma sample_session_get: "reg_get (ss_registry (snd sample_session)) 0 = Some (fst sample_session)"
  by (simp add: sample_session_client(2) reg_get_def)

theorem delivery_requires_passcode_witness:
  "\<exists>dc st. process sample_hash (bounded_send 1) sample_libm
      (submission sample_context (fst sample_session) (in_line sample_ingest)) (with_window 30) sample_state 5 =
      (Delivered tagged_line VerifiedClient, dc, st) \<and>
    parse_i32 ''13023'' = Some (uint (generate (cl_callsign (fst sample_session))))"
proof -
  have s: "submission sample_context (fst sample_session) (in_line sample_ingest) =
      sample_ingest\<lparr>in_origin := Some 0\<rparr>"
    unfolding submission_def sample_session_facts
    by (simp add: sample_session_facts sample_ingest_def sample_context_def context_of_listener_def
        sample_listener_def is_send_only_def)
  obtain dc st where p: "process sample_hash (bounded_send 1) sample_libm
      (submission sample_context (fst sample_session) (in_line sample_ingest)) (with_window 30) sample_state 5 =
      (Delivered tagged_line VerifiedClient, dc, st)"
    unfolding s using sample_delivered_from [of "Some 0"] by blast
  from delivery_requires_passcode [OF sample_n0call_parsed sample_session_eq p]
  obtain u q n opts where "split_ascii_whitespace ''user N0CALL pass 13023'' =
      u # cl_callsign (fst sample_session) # q # n # opts"
    "parse_i32 n = Some (uint (generate (cl_callsign (fst sample_session))))" by blast
  moreover have "split_ascii_whitespace ''user N0CALL pass 13023'' = [''user'', ''N0CALL'', ''pass'', ''13023'']"
    by code_simp
  ultimately show ?thesis using p by auto
qed

theorem submissions_accounted_witness:
  "\<exists>q st. read_submissions (list_submit 1) sample_context (fst sample_session)
      [ReadInput (Arrives 1 Oversized), ReadInput (Ends 1)] ([], snd sample_session) = (q, st) \<and> q = [] \<and>
    mt_packets_invalid (ss_metrics st) = 1 \<and>
    map_option (cc_packets_dropped \<circ> cl_counters) (reg_get (ss_registry st) 0) = Some 1"
proof -
  let ?is = "[ReadInput (Arrives 1 Oversized), ReadInput (Ends 1)]"
  let ?T = "as_secs (lm_client_timeout (cf_limits (ss_config (snd sample_session))))"
  have i: "[Oversized] = received ?T ?is"
    unfolding sample_session_state
    by (simp add: server_state_new_def sample_config_def default_limits_def default_client_timeout_def
        from_secs_def as_secs_def)
  have o: "offered (list_submit 1) (map (submission sample_context (fst sample_session))
      (List.map_filter packet_line [Oversized])) [] = ([], 0)"
    by (simp add: packet_line_def List.map_filter_def)
  obtain q st where r: "read_submissions (list_submit 1) sample_context (fst sample_session) ?is
      ([], snd sample_session) = (q, st)" by fastforce
  from submissions_accounted [OF r i o] have
    "ss_metrics st = (ss_metrics (snd sample_session))\<lparr>mt_packets_invalid := 1\<rparr>" "q = []"
    "map_option cl_counters (reg_get (ss_registry st) 0) =
       map_option (counters_after [Oversized]) (map_option cl_counters (reg_get (ss_registry (snd sample_session)) 0))"
    by (auto simp: sample_session_facts sample_session_state unreadable_def)
  moreover from this(3) have "map_option (cc_packets_dropped \<circ> cl_counters) (reg_get (ss_registry st) 0) = Some 1"
    unfolding sample_session_get
    by (auto simp: sample_session_facts counters_after_def unreadable_def counters_new_def)
  ultimately show ?thesis unfolding r by simp
qed

theorem in_band_filter_witness:
  "\<exists>d. reg_get (ss_registry (snd (on_line (list_submit 1) sample_context (fst sample_session)
        (Text ''filter t/p'') ([], snd sample_session)))) 0 = Some d \<and> Inr (cl_filter d) = chain_parse ''t/p''"
proof -
  have t: "trim ''filter t/p'' = ''filter t/p''"
    by (rule trim_id) (simp_all add: is_ascii_def is_whitespace_def)
  have "is_ok (chain_parse ''t/p'')" by code_simp
  then obtain chain where c: "chain_parse ''t/p'' = Inr chain" by (auto simp: is_ok_iff)
  have g: "reg_get (ss_registry (snd sample_session)) (cl_id (fst sample_session)) = Some (fst sample_session)"
    unfolding sample_session_facts sample_session_get ..
  have k: "accepts_filters (lx_kind sample_context)"
    by (simp add: accepts_filters_def sample_context_def context_of_listener_def sample_listener_def)
  from in_band_filter [OF surjective_pairing g, of "list_submit 1" sample_context "''filter t/p''" "[]"]
  show ?thesis by (auto simp: t c k sample_session_facts)
qed

end
