(* ===== verification/Sessions.thy ===== *)
theory Sessions
  imports Connection
begin

section \<open>All connections together\<close>

text \<open>
  The server with its connections and its dispatcher interleaved. Each connection of
  \<open>aprsr-server/src/client.rs\<close> runs in a task of its own and the dispatcher of \<open>dispatch.rs\<close> in
  another; \<open>session_step\<close> has one rule for each stretch of a task between two points where it waits:
  the capacity check of an accepted connection, its login or its end before that, a line of a
  logged-in client, its teardown, the dispatcher taking a line from its queue, and a writer taking
  lines from its client's queue. A run of the server is any sequence of such steps.

  The environment holds the parameters of the model: the hash, the channels (\<open>ev_channel\<close> makes a
  client's queue, \<open>ev_send\<close> fills it; \<open>ev_submit\<close> and \<open>ev_take\<close> are the two ends of the dispatcher's
  queue), the mathematical functions and the bound ports. \<open>ev_race\<close> bounds how many connections of
  one port are between the capacity check and the registration at a time, which the code leaves open.
\<close>

record ('o, 'q) environment =
  ev_hash :: "str list \<Rightarrow> nat"
  ev_send :: "'o \<Rightarrow> str \<Rightarrow> 'o option"
  ev_libm :: libm
  ev_channel :: "nat \<Rightarrow> 'o"
  ev_submit :: "'q \<Rightarrow> ingest \<Rightarrow> 'q option"
  ev_take :: "'q \<Rightarrow> (ingest \<times> 'q) option"
  ev_ports :: "listener_context list"
  ev_race :: nat

record ('o, 'q) sessions =
  se_pending :: "listener_context list"
  se_queue :: 'q
  se_dupes :: dupecheck
  se_state :: "'o server_state"
  se_logins :: nat

definition pending_on :: "listener_context list \<Rightarrow> str \<Rightarrow> nat" where
  "pending_on ps name = length (filter (\<lambda>l. lx_name l = name) ps)"

inductive session_step ::
  "('o, 'q) environment \<Rightarrow> ('o, 'q) sessions \<Rightarrow> ('o, 'q) sessions \<Rightarrow> bool" for e
where
  admitted: "l \<in> set (ev_ports e) \<Longrightarrow> admits (se_state s) l \<Longrightarrow>
    pending_on (se_pending s) (lx_name l) < ev_race e \<Longrightarrow>
    session_step e s (s\<lparr>se_pending := l # se_pending s\<rparr>)"
| vanished: "l \<in> set (se_pending s) \<Longrightarrow>
    session_step e s (s\<lparr>se_pending := remove1 l (se_pending s)\<rparr>)"
| refused: "l \<in> set (se_pending s) \<Longrightarrow>
    session_step e s (s\<lparr>se_pending := remove1 l (se_pending s),
      se_state := with_metrics (se_state s) count_login_rejected\<rparr>)"
| logged_in: "l \<in> set (se_pending s) \<Longrightarrow> se_logins s < 2 ^ 64 \<Longrightarrow>
    log_in (ev_channel e) login peer l now row (se_state s) = (c, st) \<Longrightarrow>
    session_step e s (s\<lparr>se_pending := remove1 l (se_pending s), se_state := st,
      se_logins := Suc (se_logins s)\<rparr>)"
| line_read: "l \<in> set (ev_ports e) \<Longrightarrow> reg_get (ss_registry (se_state s)) i = Some c \<Longrightarrow>
    cl_listener c = lx_name l \<Longrightarrow>
    on_line (ev_submit e) l c item (se_queue s, se_state s) = (q, st) \<Longrightarrow>
    session_step e s (s\<lparr>se_queue := q, se_state := st\<rparr>)"
| left: "reg_get (ss_registry (se_state s)) i = Some c \<Longrightarrow>
    session_step e s (s\<lparr>se_state := snd (disconnect c now (se_state s))\<rparr>)"
| dispatched: "ev_take e (se_queue s) = Some (i, q) \<Longrightarrow>
    process (ev_hash e) (ev_send e) (ev_libm e) i (se_dupes s) (se_state s) now = (d, dc, st) \<Longrightarrow>
    session_step e s (s\<lparr>se_queue := q, se_dupes := dc, se_state := st\<rparr>)"
| written: "session_step e s
    (s\<lparr>se_state := on_client (se_state s) i (\<lambda>c. c\<lparr>cl_outbox := b (cl_outbox c)\<rparr>)\<rparr>)"

definition dispatcher_of :: "('o, 'q) sessions \<Rightarrow> 'o dispatcher" where
  "dispatcher_of s = (se_dupes s, se_state s, se_logins s)"

definition session_init :: "('o, 'q) environment \<Rightarrow> config \<Rightarrow> ('o, 'q) sessions \<Rightarrow> bool" where
  "session_init e config s \<longleftrightarrow>
     distinct (map lx_name (ev_ports e)) \<and> se_pending s = [] \<and> server_init config (dispatcher_of s)"

subsection \<open>Changes that keep a client's identity and its locked filter\<close>

definition keeps :: "('o client \<Rightarrow> 'o client) \<Rightarrow> bool" where
  "keeps g \<longleftrightarrow>
     (\<forall>c. cl_id (g c) = cl_id c \<and> cl_listener (g c) = cl_listener c \<and> cl_port_kind (g c) = cl_port_kind c \<and>
        cl_filter_locked (g c) = cl_filter_locked c \<and> (cl_filter_locked c \<longrightarrow> cl_filter (g c) = cl_filter c))"

definition reg_keeps :: "'o registry \<Rightarrow> 'o registry \<Rightarrow> bool" where
  "reg_keeps r r' \<longleftrightarrow>
     (\<exists>h. (\<forall>k. keeps (h k)) \<and> r' = r\<lparr>rg_clients := map (\<lambda>(k, c). (k, h k c)) (rg_clients r)\<rparr>)"

lemma keeps_id: "keeps id"
  by (simp add: keeps_def)

lemma reg_keeps_refl: "reg_keeps r r"
  unfolding reg_keeps_def
  by (rule exI [of _ "\<lambda>_. id"]) (simp add: keeps_id)

lemma reg_keeps_with: "keeps g \<Longrightarrow> reg_keeps r (with_client r i g)"
  unfolding reg_keeps_def with_client_def
  by (rule exI [of _ "\<lambda>k. if k = i then g else id"])
     (auto simp: keeps_id intro!: arg_cong [where f = "\<lambda>es. r\<lparr>rg_clients := es\<rparr>"])

lemma keeps_after_offer: "keeps (after_offer send m f)"
  by (simp add: keeps_def after_offer_cases split: option.split)

lemma reg_keeps_broadcast: "reg_keeps r (fst (broadcast send m r f mt))"
  unfolding reg_keeps_def broadcast_eq
  by (rule exI [of _ "\<lambda>_. after_offer send m f"]) (simp add: keeps_after_offer)

lemma keeps_line_update: "keeps (line_update listener item)"
  by (auto simp: keeps_def line_update_def count_client_def apply_filter_command_def set_filter_def
      split: line.split option.split sum.split)

lemma keeps_outbox: "keeps (\<lambda>c. c\<lparr>cl_outbox := b (cl_outbox c)\<rparr>)"
  by (simp add: keeps_def)

text \<open>The rules of the system, by what they do to the registry and the counters.\<close>

definition gauges :: "metrics \<Rightarrow> u64 \<times> u64" where
  "gauges mt = (mt_clients_connected mt, mt_clients_total mt)"

lemma on_line_effect:
  assumes "on_line submit l c item (q, st) = (q', st')"
  shows "reg_keeps (ss_registry st) (ss_registry st') \<and> gauges (ss_metrics st') = gauges (ss_metrics st)"
  using assms
  by (auto simp: on_line_eq on_client_def metrics_after_def gauges_def
      intro!: reg_keeps_with keeps_line_update split: prod.splits)

lemma process_effect:
  assumes "process hash send m i dc st now = (d, dc', st')"
  shows "reg_keeps (ss_registry st) (ss_registry st') \<and> gauges (ss_metrics st') = gauges (ss_metrics st)"
proof
  show "gauges (ss_metrics st') = gauges (ss_metrics st)"
    using process_counts [OF assms] by (simp add: ingest_counts_def gauges_def)
  show "reg_keeps (ss_registry st) (ss_registry st')"
    using assms
  proof (cases rule: process_cases)
    case (delivered packet out final)
    then show ?thesis
      using deliver_registry [of send m i "rendered_line i packet out" final now
          "with_metrics st (count_received (in_line i))"] reg_keeps_broadcast
      by (auto simp: with_metrics_def)
  qed (simp_all add: with_metrics_def reg_keeps_refl)
qed


lemma log_in_effect:
  assumes "log_in channel login peer l now row st = (c, st')"
  shows "\<exists>g. c = fst (reg_insert (ss_registry st) g) \<and> ss_registry st' = snd (reg_insert (ss_registry st) g) \<and>
      re_listener g = lx_name l \<and> re_port_kind g = lx_kind l \<and>
      (re_filter g, re_filter_locked g) = initial_filter l (lr_filter login)"
    and "mt_clients_connected (ss_metrics st') = mt_clients_connected (ss_metrics st) + 1"
    and "mt_clients_total (ss_metrics st') = mt_clients_total (ss_metrics st) + 1"
proof -
  define v where "v = login_verify login"
  define st1 where "st1 = (if v = verification.Invalid then with_metrics st count_login_rejected else st)"
  have r: "ss_registry st1 = ss_registry st" "gauges (ss_metrics st1) = gauges (ss_metrics st)"
    by (simp_all add: st1_def with_metrics_def gauges_def count_login_rejected_def)
  define g where "g = \<lparr>re_callsign = callsign_as_str (lr_callsign login), re_remote = peer,
      re_listener = lx_name l, re_port_kind = lx_kind l, re_software = software_of login,
      re_verified = may_transmit v, re_connected_at = now, re_session_id = row,
      re_filter = fst (initial_filter l (lr_filter login)),
      re_filter_locked = snd (initial_filter l (lr_filter login)),
      re_outbox = channel (max (lm_client_queue (cf_limits (ss_config st1))) 1)\<rparr>"
  have e: "c = fst (reg_insert (ss_registry st1) g)"
    "st' = with_metrics (st1\<lparr>ss_registry := snd (reg_insert (ss_registry st1) g)\<rparr>) count_connected"
    using assms
    by (auto simp: log_in_def register_def Let_def v_def [symmetric] st1_def [symmetric] g_def
        split: prod.splits)
  show "mt_clients_connected (ss_metrics st') = mt_clients_connected (ss_metrics st) + 1"
    "mt_clients_total (ss_metrics st') = mt_clients_total (ss_metrics st) + 1"
    using r by (simp_all add: e with_metrics_def count_connected_def ctr_incr_def gauges_def)
  show "\<exists>g. c = fst (reg_insert (ss_registry st) g) \<and> ss_registry st' = snd (reg_insert (ss_registry st) g) \<and>
      re_listener g = lx_name l \<and> re_port_kind g = lx_kind l \<and>
      (re_filter g, re_filter_locked g) = initial_filter l (lr_filter login)"
    by (rule exI [of _ g]) (use r in \<open>simp add: e with_metrics_def g_def\<close>)
qed

subsection \<open>The invariant\<close>

definition client_ok :: "listener_context list \<Rightarrow> 'o client \<Rightarrow> bool" where
  "client_ok ports c \<longleftrightarrow>
     (\<exists>l \<in> set ports. cl_listener c = lx_name l \<and> cl_port_kind c = lx_kind l \<and>
        (snd (initial_filter l None) \<longrightarrow> cl_filter_locked c \<and> cl_filter c = fst (initial_filter l None)))"

definition room :: "nat \<Rightarrow> 'o registry \<Rightarrow> listener_context list \<Rightarrow> listener_context \<Rightarrow> bool" where
  "room race r ps l \<longleftrightarrow>
     (case lx_max_clients l of
        Some limit \<Rightarrow> count_on_listener r (lx_name l) + pending_on ps (lx_name l) \<le> limit + (race - 1)
      | None \<Rightarrow> True)"

definition session_inv :: "('o, 'q) environment \<Rightarrow> ('o, 'q) sessions \<Rightarrow> bool" where
  "session_inv e s \<longleftrightarrow>
     (let r = ss_registry (se_state s); mt = ss_metrics (se_state s) in
      distinct (map lx_name (ev_ports e)) \<and> set (se_pending s) \<subseteq> set (ev_ports e) \<and>
      reg_inv (r, se_logins s) \<and>
      mt_clients_connected mt = of_nat (reg_len r) \<and> mt_clients_total mt = of_nat (se_logins s) \<and>
      list_all (\<lambda>(k, c). client_ok (ev_ports e) c) (rg_clients r) \<and>
      list_all (room (ev_race e) r (se_pending s)) (ev_ports e))"

lemma session_inv_keeps:
  assumes "session_inv e s" and "reg_keeps (ss_registry (se_state s)) (ss_registry st)"
    and "gauges (ss_metrics st) = gauges (ss_metrics (se_state s))"
  shows "session_inv e (s\<lparr>se_state := st\<rparr>)"
proof -
  let ?r = "ss_registry (se_state s)" and ?r' = "ss_registry st"
  obtain h where h: "\<forall>k. keeps (h k)" and r': "?r' = ?r\<lparr>rg_clients := map (\<lambda>(k, c). (k, h k c)) (rg_clients ?r)\<rparr>"
    using assms(2) by (auto simp: reg_keeps_def)
  have "reg_inv (?r', se_logins s)"
    unfolding r' by (rule reg_inv_map) (use assms(1) h in \<open>simp_all add: session_inv_def Let_def keeps_def\<close>)
  moreover have "reg_len ?r' = reg_len ?r" by (simp add: r' reg_len_def)
  moreover have "count_on_listener ?r' name = count_on_listener ?r name" for name
    using h by (simp add: r' count_on_listener_def filter_map comp_def case_prod_beta keeps_def)
  then have "room (ev_race e) ?r' (se_pending s) = room (ev_race e) ?r (se_pending s)"
    by (simp add: fun_eq_iff room_def split: option.split)
  moreover have "list_all (\<lambda>(k, c). client_ok (ev_ports e) c) (rg_clients ?r')"
    using assms(1) h by (fastforce simp: session_inv_def Let_def r' list_all_iff client_ok_def keeps_def)
  ultimately show ?thesis
    using assms(1,3) by (simp add: session_inv_def Let_def gauges_def)
qed

lemma pending_remove1:
  "l \<in> set ps \<Longrightarrow> pending_on (remove1 l ps) name + of_bool (lx_name l = name) = pending_on ps name"
  by (induction ps) (auto simp: pending_on_def)

lemma room_pending_mono:
  "room race r ps l \<Longrightarrow> pending_on qs (lx_name l) \<le> pending_on ps (lx_name l) \<Longrightarrow> room race r qs l"
  by (auto simp: room_def split: option.splits)

lemma session_inv_unpend:
  assumes "session_inv e s" and "l \<in> set (se_pending s)"
  shows "session_inv e (s\<lparr>se_pending := remove1 l (se_pending s)\<rparr>)"
proof -
  have "pending_on (remove1 l (se_pending s)) name \<le> pending_on (se_pending s) name" for name
    using pending_remove1 [OF assms(2), of name] by simp
  with assms show ?thesis
    using set_remove1_subset [of l "se_pending s"]
    by (auto simp: session_inv_def Let_def list_all_iff intro: room_pending_mono)
qed

lemma length_delete:
  "distinct (map fst es) \<Longrightarrow> map_of es k = Some c \<Longrightarrow> Suc (length (AList.delete k es)) = length es"
proof (induction es)
  case (Cons x es)
  then show ?case
    by (cases x) (auto split: if_splits)
qed simp

lemma length_filter_filter: "length (filter P (filter Q xs)) \<le> length (filter P xs)"
  by (induction xs) auto

lemma session_inv_left:
  assumes "session_inv e s" and "reg_get (ss_registry (se_state s)) i = Some c"
  shows "session_inv e (s\<lparr>se_state := snd (disconnect c now (se_state s))\<rparr>)"
proof -
  let ?st = "se_state s" and ?st' = "snd (disconnect c now (se_state s))"
  let ?es = "rg_clients (ss_registry ?st)"
  have d: "distinct (map fst ?es)" "(i, c) \<in> set ?es"
    using assms by (auto simp: session_inv_def Let_def reg_inv_def reg_get_def dest: map_of_SomeD)
  then have id: "cl_id c = i" using assms(1) by (auto simp: session_inv_def Let_def reg_inv_def)
  have r': "ss_registry ?st' = snd (reg_remove (ss_registry ?st) i)"
    and mt: "mt_clients_connected (ss_metrics ?st') = mt_clients_connected (ss_metrics ?st) - 1"
      "mt_clients_total (ss_metrics ?st') = mt_clients_total (ss_metrics ?st)"
    by (simp_all add: disconnect_def id with_metrics_def count_disconnected_def ctr_decr_def split: prod.split)
  have es': "rg_clients (ss_registry ?st') = AList.delete i ?es" by (simp add: r' reg_remove_def)
  have "map_of ?es i = Some c" using assms(2) by (simp add: reg_get_def)
  then have "Suc (reg_len (ss_registry ?st')) = reg_len (ss_registry ?st)"
    unfolding reg_len_def es' by (rule length_delete [OF d(1)])
  then have n: "of_nat (reg_len (ss_registry ?st)) = (of_nat (reg_len (ss_registry ?st')) :: u64) + 1"
    by (metis of_nat_Suc add.commute)
  have connected: "mt_clients_connected (ss_metrics ?st') = of_nat (reg_len (ss_registry ?st'))"
    using assms(1) mt(1) n by (simp add: session_inv_def Let_def)
  have le: "count_on_listener (ss_registry ?st') name \<le> count_on_listener (ss_registry ?st) name" for name
    unfolding count_on_listener_def es' AList.delete_eq by (rule length_filter_filter)
  have "room (ev_race e) (ss_registry ?st') (se_pending s) l"
    if "room (ev_race e) (ss_registry ?st) (se_pending s) l" for l
    using that le [of "lx_name l"] by (simp add: room_def split: option.splits)
  then have rooms: "list_all (room (ev_race e) (ss_registry ?st') (se_pending s)) (ev_ports e)"
    using assms(1) by (simp add: session_inv_def Let_def list_all_iff)
  have inv: "reg_inv (ss_registry ?st', se_logins s)"
    unfolding r' by (rule reg_inv_remove) (use assms(1) in \<open>simp add: session_inv_def Let_def\<close>)
  have ok: "list_all (\<lambda>(k, c). client_ok (ev_ports e) c) (rg_clients (ss_registry ?st'))"
    unfolding es' AList.delete_eq using assms(1) by (simp add: session_inv_def Let_def list_all_iff)
  show ?thesis
    using assms(1) mt(2) connected rooms inv ok by (simp add: session_inv_def Let_def)
qed

lemma session_inv_logged_in:
  assumes "session_inv e s" and "l \<in> set (se_pending s)" and "se_logins s < 2 ^ 64"
    and "log_in channel login peer l now row (se_state s) = (c, st)"
  shows "session_inv e (s\<lparr>se_pending := remove1 l (se_pending s), se_state := st,
    se_logins := Suc (se_logins s)\<rparr>)"
proof -
  let ?r = "ss_registry (se_state s)" and ?ps = "remove1 l (se_pending s)"
  obtain g where c: "c = fst (reg_insert ?r g)" and r': "ss_registry st = snd (reg_insert ?r g)"
    and g: "re_listener g = lx_name l" "re_port_kind g = lx_kind l"
      "(re_filter g, re_filter_locked g) = initial_filter l (lr_filter login)"
    using log_in_effect(1) [OF assms(4)] by blast
  note mt = log_in_effect(2,3) [OF assms(4)]
  have ri: "reg_inv (?r, se_logins s)" and lp: "l \<in> set (ev_ports e)"
    and dp: "distinct (map lx_name (ev_ports e))"
    using assms(1,2) by (auto simp: session_inv_def Let_def)
  have es: "rg_clients (ss_registry st) = rg_clients ?r @ [(rg_next_id ?r, c)]"
    unfolding r' reg_insert_fresh [OF reg_inv_fresh [OF ri assms(3)]] by (simp add: c)
  have cf: "cl_listener c = lx_name l" "cl_port_kind c = lx_kind l"
    "cl_filter c = fst (initial_filter l (lr_filter login))"
    "cl_filter_locked c = snd (initial_filter l (lr_filter login))"
    using g by (simp_all add: c reg_insert_def Let_def prod_eq_iff)
  have "client_ok (ev_ports e) c"
    unfolding client_ok_def
    by (rule bexI [OF _ lp]) (simp add: cf initial_filter_def split: option.split)
  moreover have "room (ev_race e) (ss_registry st) ?ps k" if "room (ev_race e) ?r (se_pending s) k" for k
    using that pending_remove1 [OF assms(2), of "lx_name k"]
    by (auto simp: room_def count_on_listener_def es cf split: option.splits)
  moreover have "reg_inv (ss_registry st, Suc (se_logins s))"
    unfolding r' by (rule reg_inv_insert [OF ri assms(3)])
  moreover have "set ?ps \<subseteq> set (ev_ports e)"
    using assms(1) set_remove1_subset [of l "se_pending s"] by (auto simp: session_inv_def Let_def)
  ultimately show ?thesis
    using assms(1) mt by (auto simp: session_inv_def Let_def list_all_iff es reg_len_def)
qed

lemma session_inv_admitted:
  assumes "session_inv e s" and "l \<in> set (ev_ports e)" and "admits (se_state s) l"
    and "pending_on (se_pending s) (lx_name l) < ev_race e"
  shows "session_inv e (s\<lparr>se_pending := l # se_pending s\<rparr>)"
proof -
  have "room (ev_race e) (ss_registry (se_state s)) (l # se_pending s) k"
    if k: "k \<in> set (ev_ports e)" "room (ev_race e) (ss_registry (se_state s)) (se_pending s) k" for k
  proof (cases "lx_name k = lx_name l")
    case True
    with assms(1,2) k(1) have "k = l" by (auto simp: session_inv_def Let_def distinct_map inj_on_def)
    with assms(3,4) show ?thesis
      by (auto simp: admits_def room_def pending_on_def split: option.splits)
  next
    case False
    with k(2) show ?thesis by (auto simp: room_def pending_on_def split: option.split)
  qed
  with assms(1,2) show ?thesis by (auto simp: session_inv_def Let_def list_all_iff)
qed


interpretation sessions: inductive_invariant "session_init e config" "session_step e" "session_inv e"
  for e :: "('o, 'q) environment" and config
proof unfold_locales
  show "session_inv e s" if "session_init e config s" for s
    using that
    by (auto simp: session_init_def server_init_def dispatcher_of_def session_inv_def Let_def
        server_state_new_def registry_new_def metrics_new_def reg_inv_def reg_len_def room_def
        count_on_listener_def pending_on_def list_all_iff split: option.split)
  show "session_inv e t" if i: "session_inv e s" and "session_step e s t" for s t
    using that(2)
  proof cases
    case (admitted l)
    then show ?thesis using session_inv_admitted [OF i] by blast
  next
    case (vanished l)
    then show ?thesis using session_inv_unpend [OF i] by blast
  next
    case (refused l)
    have "session_inv e (s\<lparr>se_pending := remove1 l (se_pending s)\<rparr>)"
      using session_inv_unpend [OF i refused(2)] .
    from session_inv_keeps [OF this, of "with_metrics (se_state s) count_login_rejected"] refused(1)
    show ?thesis by (simp add: with_metrics_def gauges_def count_login_rejected_def reg_keeps_refl)
  next
    case (logged_in l login peer now row c st)
    then show ?thesis using session_inv_logged_in [OF i] by blast
  next
    case (line_read l i' c item q st)
    from session_inv_keeps [OF i] on_line_effect [OF line_read(5)]
    have "session_inv e (s\<lparr>se_state := st\<rparr>)" by blast
    with line_read(1) show ?thesis by (simp add: session_inv_def Let_def)
  next
    case (left i' c now)
    then show ?thesis using session_inv_left [OF i] by blast
  next
    case (dispatched i' q now d dc st)
    from session_inv_keeps [OF i] process_effect [OF dispatched(3)]
    have "session_inv e (s\<lparr>se_state := st\<rparr>)" by blast
    with dispatched(1) show ?thesis by (simp add: session_inv_def Let_def)
  next
    case (written i' b)
    have "session_inv e (s\<lparr>se_state := on_client (se_state s) i' (\<lambda>c. c\<lparr>cl_outbox := b (cl_outbox c)\<rparr>)\<rparr>)"
      by (rule session_inv_keeps [OF i])
         (simp_all add: on_client_def gauges_def reg_keeps_with keeps_outbox)
    with written show ?thesis by simp
  qed
qed


subsection \<open>Every session step is a run of the dispatcher's system\<close>

lemma reg_step_touch_only:
  assumes "\<And>c. g c = c\<lparr>cl_counters := k c, cl_outbox := b c\<rparr>"
  shows "reg_step send m (r, n) (with_client r i g, n)"
proof -
  have "g = (\<lambda>c. c\<lparr>cl_counters := k c, cl_outbox := b c\<rparr>)" using assms by (rule ext)
  then show ?thesis by (simp only: reg_step.touch)
qed

lemma reg_steps_line:
  fixes r :: "'o registry"
  shows "(reg_step send m)\<^sup>*\<^sup>* (r, n) (with_client r i (line_update l item), n)"
proof -
  have count: "reg_step send m (r, n) (with_client r i (count_client g), n)" for r :: "'o registry" and g
    by (rule reg_step_touch_only [where k = "\<lambda>c. g (cl_counters c)" and b = cl_outbox])
       (simp add: count_client_def)
  have command: "(reg_step send m)\<^sup>*\<^sup>* (r, n) (with_client r i (apply_filter_command l e), n)"
    for r :: "'o registry" and e
  proof (cases "accepts_filters (lx_kind l) \<and> is_ok (chain_parse e)")
    case True
    then obtain chain where "chain_parse e = Inr chain" by (auto simp: is_ok_iff)
    with True have "apply_filter_command l e = (\<lambda>c :: 'o client. snd (set_filter c chain))"
      by (auto simp: fun_eq_iff apply_filter_command_def set_filter_def)
    then show ?thesis by (simp add: r_into_rtranclp reg_step.refilter)
  next
    case False
    then have "apply_filter_command l e = (id :: 'o client \<Rightarrow> _)"
      by (auto simp: fun_eq_iff apply_filter_command_def is_ok_iff split: sum.split)
    then show ?thesis by (simp add: with_client_id)
  qed
  show ?thesis
  proof (cases item)
    case (Text line)
    let ?r = "with_client r i (count_client (count_bytes line))"
    have rest: "(reg_step send m)\<^sup>*\<^sup>* (?r, n) (with_client ?r i
        (if packet_line item \<noteq> None then count_client count_packet
         else case strip_prefix ''filter '' (trim line) of
           Some e \<Rightarrow> apply_filter_command l e | None \<Rightarrow> id), n)"
      using count [of ?r] command [of ?r] by (auto simp: with_client_id split: option.split)
    have "(reg_step send m)\<^sup>*\<^sup>* (r, n) (?r, n)" by (rule r_into_rtranclp) (rule count)
    from rtranclp_trans [OF this rest] show ?thesis
      by (simp add: Text line_update_def with_client_twice)
  qed (auto simp: line_update_def count)
qed

lemma server_steps_connection:
  assumes "(reg_step send m)\<^sup>*\<^sup>* (ss_registry st, n) (r, k)"
  shows "(server_step hash send m)\<^sup>*\<^sup>* (dc, st, n) (dc, st\<lparr>ss_registry := r, ss_metrics := mt\<rparr>, k)"
  using assms
proof (induction "(r, k)" arbitrary: r k mt rule: rtranclp_induct)
  case base
  have "reg_step send m (ss_registry st, n) (with_client (ss_registry st) 0 id, n)"
    by (rule reg_step_touch_only [where k = cl_counters and b = cl_outbox]) simp
  then have "reg_step send m (ss_registry st, n) (ss_registry st, n)" by (simp add: with_client_id)
  from server_step.connection [OF this] show ?case by blast
next
  case (step y)
  obtain r1 k1 where y: "y = (r1, k1)" by (cases y)
  let ?st = "st\<lparr>ss_registry := r1, ss_metrics := ss_metrics st\<rparr>"
  have "(server_step hash send m)\<^sup>*\<^sup>* (dc, st, n) (dc, ?st, k1)" using step(3) [OF y] .
  moreover have "server_step hash send m (dc, ?st, k1) (dc, ?st\<lparr>ss_registry := r, ss_metrics := mt\<rparr>, k)"
    by (rule server_step.connection) (use step(2) y in simp)
  ultimately show ?case by simp
qed

lemma server_steps_state:
  assumes "(reg_step send m)\<^sup>*\<^sup>* (ss_registry st, n) (ss_registry st', k)"
    and "st' = st\<lparr>ss_registry := ss_registry st', ss_metrics := ss_metrics st'\<rparr>"
  shows "(server_step hash send m)\<^sup>*\<^sup>* (dc, st, n) (dc, st', k)"
  using server_steps_connection [OF assms(1), of hash dc "ss_metrics st'"] assms(2) by simp

lemma session_step_refines:
  assumes "session_step e s t"
  shows "(server_step (ev_hash e) (ev_send e) (ev_libm e))\<^sup>*\<^sup>* (dispatcher_of s) (dispatcher_of t)"
  using assms
proof cases
  case (refused l)
  then show ?thesis
    by (auto simp: dispatcher_of_def with_metrics_def intro!: server_steps_state)
next
  case (logged_in l login peer now row c st)
  obtain g where r: "ss_registry st = snd (reg_insert (ss_registry (se_state s)) g)"
    using log_in_effect(1) [OF logged_in(4)] by blast
  have "st = (se_state s)\<lparr>ss_registry := ss_registry st, ss_metrics := ss_metrics st\<rparr>"
    using logged_in(4) by (auto simp: log_in_def register_def Let_def with_metrics_def split: prod.splits if_splits)
  moreover have "(reg_step (ev_send e) (ev_libm e))\<^sup>*\<^sup>* (ss_registry (se_state s), se_logins s)
      (ss_registry st, Suc (se_logins s))"
    unfolding r by (rule r_into_rtranclp) (rule reg_step.insert [OF logged_in(3)])
  ultimately show ?thesis
    by (simp add: dispatcher_of_def logged_in(1) server_steps_state)
next
  case (line_read l i c item q st)
  from line_read(5) have "ss_registry st = with_client (ss_registry (se_state s)) (cl_id c) (line_update l item)"
    "st = (se_state s)\<lparr>ss_registry := ss_registry st, ss_metrics := ss_metrics st\<rparr>"
    by (auto simp: on_line_eq on_client_def split: prod.splits)
  moreover from this(1) have "(reg_step (ev_send e) (ev_libm e))\<^sup>*\<^sup>* (ss_registry (se_state s), se_logins s)
      (ss_registry st, se_logins s)"
    by (simp only: reg_steps_line)
  ultimately show ?thesis
    by (simp add: dispatcher_of_def line_read(1) server_steps_state)
next
  case (left i c now)
  let ?st = "snd (disconnect c now (se_state s))"
  have "ss_registry ?st = snd (reg_remove (ss_registry (se_state s)) (cl_id c))"
    "?st = (se_state s)\<lparr>ss_registry := ss_registry ?st, ss_metrics := ss_metrics ?st\<rparr>"
    by (simp_all add: disconnect_def with_metrics_def split: prod.split)
  moreover from this(1) have "(reg_step (ev_send e) (ev_libm e))\<^sup>*\<^sup>* (ss_registry (se_state s), se_logins s)
      (ss_registry ?st, se_logins s)"
    by (simp add: r_into_rtranclp reg_step.remove)
  ultimately show ?thesis
    by (simp add: dispatcher_of_def left(1) server_steps_state)
next
  case (dispatched i q now d dc st)
  then show ?thesis by (auto simp: dispatcher_of_def intro: server_step.ingest)
next
  case (written i b)
  have "reg_step (ev_send e) (ev_libm e) (ss_registry (se_state s), se_logins s)
      (with_client (ss_registry (se_state s)) i (\<lambda>c. c\<lparr>cl_outbox := b (cl_outbox c)\<rparr>), se_logins s)"
    by (rule reg_step_touch_only [where k = cl_counters and b = "\<lambda>c. b (cl_outbox c)"]) simp
  then show ?thesis
    by (auto simp: dispatcher_of_def written on_client_def intro!: server_steps_state)
qed (simp_all add: dispatcher_of_def)


lemma session_steps_refine:
  "(session_step e)\<^sup>*\<^sup>* s t \<Longrightarrow>
     (server_step (ev_hash e) (ev_send e) (ev_libm e))\<^sup>*\<^sup>* (dispatcher_of s) (dispatcher_of t)"
  by (induction rule: rtranclp_induct) (auto dest: session_step_refines)

lemma reg_inv_len:
  assumes "reg_inv (r, n)"
  shows "reg_len r \<le> n"
proof -
  let ?ids = "map (unat \<circ> fst) (rg_clients r)"
  have "distinct ?ids"
    using assms by (auto simp: reg_inv_def distinct_map inj_on_def dest: unsigned_word_eqI)
  moreover have "set ?ids \<subseteq> {..<n}" using assms by (auto simp: reg_inv_def)
  ultimately have "length ?ids \<le> n"
    by (metis card_lessThan card_mono distinct_card finite_lessThan)
  then show ?thesis by (simp add: reg_len_def)
qed

subsection \<open>Properties\<close>


text \<open>The gauge of connected clients on the dashboard always is the number of registered clients, and
  the total is the number of logins there have been.\<close>

theorem gauge_counts_clients:
  assumes "session_init e config s" and "(session_step e)\<^sup>*\<^sup>* s t" and "se_logins t < 2 ^ 64"
  shows "unat (mt_clients_connected (ss_metrics (se_state t))) = reg_len (ss_registry (se_state t)) \<and>
    unat (mt_clients_total (ss_metrics (se_state t))) = se_logins t"
proof -
  have i: "session_inv e t" using sessions.reachable_inv [OF assms(1,2)] .
  then have "reg_len (ss_registry (se_state t)) \<le> se_logins t"
    by (auto simp: session_inv_def Let_def intro: reg_inv_len)
  with i assms(3) show ?thesis
    by (auto simp: session_inv_def Let_def unat_of_nat)
qed

text \<open>C22: a port never holds more clients than its limit as long as at most one of its connections at a time
  is between the capacity check and the registration; with up to \<open>k\<close> of them it holds at most \<open>k - 1\<close> more.\<close>

theorem port_capacity:
  assumes "session_init e config s" and "(session_step e)\<^sup>*\<^sup>* s t"
    and "l \<in> set (ev_ports e)" and "lx_max_clients l = Some limit"
  shows "count_on_listener (ss_registry (se_state t)) (lx_name l) \<le> limit + (ev_race e - 1)"
proof -
  have "session_inv e t" using sessions.reachable_inv [OF assms(1,2)] .
  then have "room (ev_race e) (ss_registry (se_state t)) (se_pending t) l"
    using assms(3) by (simp add: session_inv_def Let_def list_all_iff)
  then show ?thesis by (simp add: room_def assms(4))
qed

text \<open>C15: in every state the server reaches, each client is on one of the bound ports, and on a port that
  forces a filter, or takes none, it has exactly that filter, or the empty one, whatever it asked for.\<close>

theorem port_filter_enforced:
  assumes "session_init e config s" and "(session_step e)\<^sup>*\<^sup>* s t"
    and "reg_get (ss_registry (se_state t)) i = Some c"
  shows "\<exists>l \<in> set (ev_ports e). cl_listener c = lx_name l \<and> cl_port_kind c = lx_kind l \<and>
    (case lx_forced_filter l of
       Some chain \<Rightarrow> cl_filter c = chain
     | None \<Rightarrow> lx_kind l = Igate \<or> cl_filter c = [])"
proof -
  have "session_inv e t" using sessions.reachable_inv [OF assms(1,2)] .
  moreover have "(i, c) \<in> set (rg_clients (ss_registry (se_state t)))"
    using assms(3) by (simp add: reg_get_def map_of_SomeD)
  ultimately have "client_ok (ev_ports e) c" by (auto simp: session_inv_def Let_def list_all_iff)
  then obtain l where l: "l \<in> set (ev_ports e)" "cl_listener c = lx_name l" "cl_port_kind c = lx_kind l"
    "snd (initial_filter l None) \<longrightarrow> cl_filter c = fst (initial_filter l None)"
    by (auto simp: client_ok_def)
  show ?thesis
    by (rule bexI [OF _ l(1)])
       (use l(2-4) in \<open>auto simp: initial_filter_def accepts_filters_def split: option.splits if_splits\<close>)
qed

subsection \<open>Witnesses\<close>

definition one_client_port :: listener_context where
  "one_client_port = sample_context\<lparr>lx_max_clients := Some 1\<rparr>"

definition sample_environment :: "nat \<Rightarrow> (str list, ingest list) environment" where
  "sample_environment race =
     \<lparr>ev_hash = sample_hash, ev_send = bounded_send 1, ev_libm = sample_libm, ev_channel = (\<lambda>_. []),
      ev_submit = list_submit 1, ev_take = (\<lambda>q. case q of [] \<Rightarrow> None | i # is \<Rightarrow> Some (i, is)),
      ev_ports = [one_client_port], ev_race = race\<rparr>"

definition sample_start :: "(str list, ingest list) sessions" where
  "sample_start =
     \<lparr>se_pending = [], se_queue = [],
      se_dupes = with_window (as_secs (lm_dupecheck_window (cf_limits (sample_config [sample_listener ''igate''])))),
      se_state = sample_state, se_logins = 0\<rparr>"

lemma sample_start_init: "session_init (sample_environment k) (sample_config [sample_listener ''igate'']) sample_start"
  by (simp add: session_init_def sample_environment_def sample_start_def dispatcher_of_def server_init_new)

definition sample_login_step :: "(str list, ingest list) sessions \<Rightarrow> (str list, ingest list) sessions" where
  "sample_login_step s =
     s\<lparr>se_pending := remove1 one_client_port (se_pending s),
       se_state := snd (log_in (\<lambda>_. []) sample_n0call sample_addr one_client_port 0 None (se_state s)),
       se_logins := Suc (se_logins s)\<rparr>"

definition sample_admit_step :: "(str list, ingest list) sessions \<Rightarrow> (str list, ingest list) sessions" where
  "sample_admit_step s = s\<lparr>se_pending := one_client_port # se_pending s\<rparr>"

lemma sample_login_stepI:
  assumes "one_client_port \<in> set (se_pending s)" and "se_logins s < 2 ^ 64"
  shows "session_step (sample_environment k) s (sample_login_step s)"
proof -
  have "log_in (ev_channel (sample_environment k)) sample_n0call sample_addr one_client_port 0 None (se_state s) =
      (fst (log_in (\<lambda>_. []) sample_n0call sample_addr one_client_port 0 None (se_state s)),
       snd (log_in (\<lambda>_. []) sample_n0call sample_addr one_client_port 0 None (se_state s)))"
    by (simp add: sample_environment_def)
  then show ?thesis
    unfolding sample_login_step_def by (rule session_step.logged_in [OF assms])
qed

lemma sample_admit_stepI:
  assumes "count_on_listener (ss_registry (se_state s)) ''Clients'' = 0" and "length (se_pending s) < k"
  shows "session_step (sample_environment k) s (sample_admit_step s)"
proof -
  have "pending_on (se_pending s) (lx_name one_client_port) < k"
    using assms(2) by (simp add: pending_on_def le_less_trans [OF length_filter_le])
  then show ?thesis
    unfolding sample_admit_step_def
    by (intro session_step.admitted)
       (use assms(1) in \<open>simp_all add: sample_environment_def admits_def one_client_port_def sample_context_def
          context_of_listener_def sample_listener_def\<close>)
qed


text \<open>One client on a port for one: admitted and logged in.\<close>

definition sample_one :: "(str list, ingest list) sessions" where
  "sample_one = sample_login_step (sample_admit_step sample_start)"

lemma sample_start_empty:
  "count_on_listener (ss_registry (se_state sample_start)) ''Clients'' = 0"
  "se_pending sample_start = []" "se_logins sample_start = 0"
  "ss_registry (se_state sample_start) = registry_new" "count_on_listener registry_new name = 0"
  by (simp_all add: sample_start_def server_state_new_def count_on_listener_def registry_new_def)

lemma sample_one_reached: "(session_step (sample_environment (Suc k)))\<^sup>*\<^sup>* sample_start sample_one"
proof -
  have "session_step (sample_environment (Suc k)) sample_start (sample_admit_step sample_start)"
    by (rule sample_admit_stepI) (simp_all add: sample_start_empty)
  moreover have "session_step (sample_environment (Suc k)) (sample_admit_step sample_start) sample_one"
    unfolding sample_one_def
    by (rule sample_login_stepI) (simp_all add: sample_admit_step_def sample_start_empty)
  ultimately show ?thesis by (rule converse_rtranclp_into_rtranclp [OF _ r_into_rtranclp])
qed

lemma sample_login_registry:
  "\<exists>g. ss_registry (se_state (sample_login_step s)) = snd (reg_insert (ss_registry (se_state s)) g) \<and>
     re_listener g = ''Clients''"
proof -
  have n: "lx_name one_client_port = ''Clients''"
    by (simp add: one_client_port_def sample_context_def context_of_listener_def sample_listener_def)
  show ?thesis
    using log_in_effect(1) [OF surjective_pairing, where channel = "\<lambda>_. []" and login = sample_n0call and
        peer = sample_addr and l = one_client_port and now = 0 and row = None and st = "se_state s"]
    by (auto simp: sample_login_step_def n)
qed

lemma sample_one_client: "\<exists>c. reg_get (ss_registry (se_state sample_one)) 0 = Some c \<and> se_logins sample_one = 1"
proof -
  obtain g where "ss_registry (se_state sample_one) = snd (reg_insert registry_new g)"
    using sample_login_registry [of "sample_admit_step sample_start"]
    by (auto simp: sample_one_def sample_admit_step_def sample_start_empty)
  moreover have "se_logins sample_one = 1"
    by (simp add: sample_one_def sample_login_step_def sample_admit_step_def sample_start_empty)
  ultimately show ?thesis
    by (simp add: reg_insert_def Let_def registry_new_def reg_get_def)
qed


theorem gauge_counts_clients_witness:
  "unat (mt_clients_total (ss_metrics (se_state sample_one))) = 1"
  using gauge_counts_clients [OF sample_start_init sample_one_reached [of 0]] sample_one_client by auto

theorem port_capacity_witness:
  "count_on_listener (ss_registry (se_state sample_one)) ''Clients'' \<le> 1"
proof -
  have p: "one_client_port \<in> set (ev_ports (sample_environment (Suc 0)))" "lx_max_clients one_client_port = Some 1"
    "lx_name one_client_port = ''Clients''" "ev_race (sample_environment (Suc 0)) = 1"
    by (simp_all add: sample_environment_def one_client_port_def sample_context_def context_of_listener_def
        sample_listener_def)
  show ?thesis
    using port_capacity [OF sample_start_init sample_one_reached [of 0] p(1,2)] p(3,4) by simp
qed

theorem port_filter_enforced_witness:
  "\<exists>c. reg_get (ss_registry (se_state sample_one)) 0 = Some c \<and> cl_listener c = ''Clients''"
proof -
  obtain c where c: "reg_get (ss_registry (se_state sample_one)) 0 = Some c" using sample_one_client by blast
  from port_filter_enforced [OF sample_start_init sample_one_reached [of 0] c] c show ?thesis
    by (auto simp: sample_environment_def one_client_port_def sample_context_def context_of_listener_def
        sample_listener_def)
qed

text \<open>Two connections checked before either is registered: a port for one client holds two.\<close>

theorem port_limit_overrun:
  "\<exists>t. (session_step (sample_environment 2))\<^sup>*\<^sup>* sample_start t \<and>
     lx_max_clients one_client_port = Some 1 \<and>
     count_on_listener (ss_registry (se_state t)) (lx_name one_client_port) = 2"
proof -
  let ?a = "sample_admit_step sample_start"
  let ?b = "sample_admit_step ?a"
  let ?c = "sample_login_step ?b"
  let ?d = "sample_login_step ?c"
  let ?S = "session_step (sample_environment 2)"
  have "?S sample_start ?a" by (rule sample_admit_stepI) (simp_all add: sample_start_empty)
  moreover have "?S ?a ?b"
    by (rule sample_admit_stepI) (simp_all add: sample_admit_step_def sample_start_empty)
  moreover have "?S ?b ?c"
    by (rule sample_login_stepI) (simp_all add: sample_admit_step_def sample_start_empty)
  moreover have "?S ?c ?d"
    by (rule sample_login_stepI) (simp_all add: sample_admit_step_def sample_login_step_def sample_start_empty)
  ultimately have reached: "?S\<^sup>*\<^sup>* sample_start ?d" by (meson converse_rtranclp_into_rtranclp rtranclp.rtrancl_refl)
  have "count_on_listener (ss_registry (se_state ?d)) ''Clients'' = 2"
  proof -
    obtain g where g: "ss_registry (se_state ?c) = snd (reg_insert registry_new g)" "re_listener g = ''Clients''"
      using sample_login_registry [of ?b] by (auto simp: sample_admit_step_def sample_start_empty)
    obtain h where h: "ss_registry (se_state ?d) = snd (reg_insert (ss_registry (se_state ?c)) h)"
      "re_listener h = ''Clients''"
      using sample_login_registry [of ?c] by blast
    show ?thesis
      unfolding h(1) g(1) by (simp add: g(2) h(2) reg_insert_def Let_def registry_new_def count_on_listener_def)
  qed
  with reached show ?thesis
    by (intro exI [of _ ?d]) (simp add: one_client_port_def sample_context_def context_of_listener_def
        sample_listener_def)
qed

end
