(* ===== verification/Socket_Addr.thy ===== *)
theory Socket_Addr
  imports Config
begin

section \<open>Parsing socket addresses (\<open>std::net\<close>)\<close>

text \<open>
  \<open>FromStr\<close> of \<open>SocketAddr\<close>, which the importer of \<open>aprsc.conf\<close> calls on an address it puts
  together. A reader takes the rest of the input and gives a value with what is left, or \<open>None\<close>
  without consuming anything. An IPv4 address is four decimal numbers of at most three digits without
  leading zeros. An IPv6 address is up to eight groups of at most four hexadecimal digits, one run of
  zero groups written \<open>::\<close>, the last two groups possibly an embedded IPv4 address; with a port it is
  in brackets, where a scope id may follow it.
\<close>

type_synonym 'a reader = "str \<Rightarrow> ('a \<times> str) option"

definition digit_in :: "nat \<Rightarrow> char \<Rightarrow> nat option" where
  "digit_in radix c =
     (let v = (if is_ascii_digit c then Some (digit_val c)
               else if 97 \<le> ord (lower c) \<and> ord (lower c) \<le> 102 then Some (ord (lower c) - 87)
               else None)
      in case v of Some d \<Rightarrow> if d < radix then Some d else None | None \<Rightarrow> None)"

definition read_number :: "nat \<Rightarrow> nat option \<Rightarrow> nat \<Rightarrow> bool \<Rightarrow> nat reader" where
  "read_number radix max_digits bits allow_zero_prefix s =
     (let ds = takeWhile (\<lambda>c. digit_in radix c \<noteq> None) s;
          v = foldl (\<lambda>n c. n * radix + unwrap_or 0 (digit_in radix c)) 0 ds
      in if ds = [] \<or> (case max_digits of Some k \<Rightarrow> k < length ds | None \<Rightarrow> False) \<or>
            \<not> allow_zero_prefix \<and> hd ds = CHR ''0'' \<and> 1 < length ds \<or> 2 ^ bits \<le> v
         then None else Some (v, drop (length ds) s))"

definition read_separated :: "char \<Rightarrow> nat \<Rightarrow> 'a reader \<Rightarrow> 'a reader" where
  "read_separated sep index inner s =
     (if 0 < index then Option.bind (strip_prefix_char sep s) inner else inner s)"

fun read_octets :: "nat \<Rightarrow> nat \<Rightarrow> nat list reader" where
  "read_octets index 0 s = Some ([], s)"
| "read_octets index (Suc n) s =
     Option.bind (read_separated CHR ''.'' index (read_number 10 (Some 3) 8 False) s) (\<lambda>(octet, s).
     Option.bind (read_octets (Suc index) n s) (\<lambda>(octets, s). Some (octet # octets, s)))"

definition read_ipv4_addr :: "nat list reader" where
  "read_ipv4_addr s = read_octets 0 4 s"

text \<open>\<open>fuel\<close> counts the free slots after \<open>index\<close>, of \<open>index + fuel\<close> in all.\<close>

fun read_groups :: "nat \<Rightarrow> nat \<Rightarrow> str \<Rightarrow> nat list \<times> bool \<times> str" where
  "read_groups index 0 s = ([], False, s)"
| "read_groups index (Suc n) s =
     (case (if 0 < n then read_separated CHR '':'' index read_ipv4_addr s else None) of
        Some (octets, s) \<Rightarrow>
          ([octets ! 0 * 256 + octets ! 1, octets ! 2 * 256 + octets ! 3], True, s)
      | None \<Rightarrow>
          (case read_separated CHR '':'' index (read_number 16 (Some 4) 16 True) s of
             Some (g, s) \<Rightarrow>
               (case read_groups (Suc index) n s of (gs, ipv4, s) \<Rightarrow> (g # gs, ipv4, s))
           | None \<Rightarrow> ([], False, s)))"

definition read_ipv6_addr :: "nat list reader" where
  "read_ipv6_addr s =
     (case read_groups 0 8 s of (head, head_ipv4, s) \<Rightarrow>
        if length head = 8 then Some (head, s)
        else if head_ipv4 then None
        else Option.bind (strip_prefix ''::'' s) (\<lambda>s.
          (case read_groups 0 (8 - (length head + 1)) s of (tail, _, s) \<Rightarrow>
             Some (head @ replicate (8 - length head - length tail) 0 @ tail, s))))"

definition read_port :: "nat reader" where
  "read_port s = Option.bind (strip_prefix_char CHR '':'' s) (read_number 10 None 16 True)"

definition read_scope_id :: "nat reader" where
  "read_scope_id s = Option.bind (strip_prefix_char CHR ''%'' s) (read_number 10 None 32 True)"

definition read_socket_addr_v4 :: "socket_addr reader" where
  "read_socket_addr_v4 s =
     Option.bind (read_ipv4_addr s) (\<lambda>(octets, s).
     Option.bind (read_port s) (\<lambda>(port, s). Some (\<lparr>sa_ip = V4 octets, sa_port = port\<rparr>, s)))"

definition read_socket_addr_v6 :: "socket_addr reader" where
  "read_socket_addr_v6 s =
     Option.bind (strip_prefix_char CHR ''['' s) (\<lambda>s.
     Option.bind (read_ipv6_addr s) (\<lambda>(gs, s).
     (case (case read_scope_id s of Some (scope, s) \<Rightarrow> (scope, s) | None \<Rightarrow> (0, s)) of (scope, s) \<Rightarrow>
     Option.bind (strip_prefix_char CHR '']'' s) (\<lambda>s.
     Option.bind (read_port s) (\<lambda>(port, s). Some (\<lparr>sa_ip = V6 gs scope, sa_port = port\<rparr>, s))))))"

definition parse_socket_addr :: "str \<Rightarrow> socket_addr option" where
  "parse_socket_addr s =
     (case (case read_socket_addr_v4 s of Some r \<Rightarrow> Some r | None \<Rightarrow> read_socket_addr_v6 s) of
        Some (addr, []) \<Rightarrow> Some addr
      | _ \<Rightarrow> None)"

subsection \<open>IPv4 addresses are read as written\<close>

definition dotted :: "nat list \<Rightarrow> str" where
  "dotted octets = join ''.'' (map show_nat octets)"

lemma digit_in_10: "digit_in 10 c = (if is_ascii_digit c then Some (digit_val c) else None)"
proof (cases "is_ascii_digit c")
  case True
  then show ?thesis by (simp add: digit_in_def digit_val_less)
next
  case False
  then show ?thesis by (auto simp: digit_in_def Let_def)
qed

text \<open>Reading a decimal number written by \<open>show_nat\<close>, up to the first byte that is no digit.\<close>

lemma show_nat_hd_0: "hd (show_nat n) = CHR ''0'' \<Longrightarrow> show_nat n = ''0''"
proof (induction n rule: show_nat.induct)
  case (1 n)
  show ?case
  proof (cases "n < 10")
    case True
    then have "show_nat n = [digit_char n]" by (subst show_nat.simps) simp
    with "1.prems" show ?thesis by simp
  next
    case False
    then have s: "show_nat n = show_nat (n div 10) @ [digit_char (n mod 10)]" by (subst show_nat.simps) simp
    with 1 have "show_nat (n div 10) = ''0''" using False by simp
    then have "digits_val (show_nat (n div 10)) = 0" by (simp add: digits_val_def digit_val_def)
    with False show ?thesis by (simp add: digits_val_show_nat)
  qed
qed

lemma read_number_show_nat:
  assumes "n < 2 ^ bits" and "case mx of Some k \<Rightarrow> length (show_nat n) \<le> k | None \<Rightarrow> True"
    and "s = [] \<or> \<not> is_ascii_digit (hd s)"
  shows "read_number 10 mx bits z (show_nat n @ s) = Some (n, s)"
proof -
  have "takeWhile (\<lambda>c. digit_in 10 c \<noteq> None) s = []" using assms(3) by (cases s) (auto simp: digit_in_10)
  moreover have "list_all (\<lambda>c. digit_in 10 c \<noteq> None) (show_nat n)"
    using show_nat_digits [of n] by (simp add: list_all_iff digit_in_10)
  ultimately have tw: "takeWhile (\<lambda>c. digit_in 10 c \<noteq> None) (show_nat n @ s) = show_nat n"
    by (auto simp: list_all_iff takeWhile_append)
  have "foldl (\<lambda>n c. n * 10 + unwrap_or 0 (digit_in 10 c)) a cs = foldl (\<lambda>n c. 10 * n + digit_val c) a cs"
    if "list_all is_ascii_digit cs" for a cs
    using that by (induction cs arbitrary: a) (simp_all add: digit_in_10 mult.commute)
  then have v: "foldl (\<lambda>n c. n * 10 + unwrap_or 0 (digit_in 10 c)) 0 (show_nat n) = n"
    using show_nat_digits [of n] digits_val_show_nat [of n] by (simp add: digits_val_def)
  have "\<not> (hd (show_nat n) = CHR ''0'' \<and> 1 < length (show_nat n))"
    using show_nat_hd_0 [of n] by auto
  with assms(1,2) tw v show ?thesis
    unfolding read_number_def tw Let_def v by (auto split: option.splits)
qed

lemma show_nat_length_3: "n < 1000 \<Longrightarrow> length (show_nat n) \<le> 3"
  by (simp add: show_nat.simps [of n] show_nat.simps [of "n div 10"] show_nat.simps [of "n div 10 div 10"])


lemma not_digit_dot_colon: "\<not> is_ascii_digit CHR ''.''" "\<not> is_ascii_digit CHR '':''"
  by (simp_all add: is_ascii_digit_def)

lemma read_octet:
  assumes "n < 256" and "s = [] \<or> \<not> is_ascii_digit (hd s)"
  shows "read_number 10 (Some 3) 8 False (show_nat n @ s) = Some (n, s)"
  by (rule read_number_show_nat) (use assms show_nat_length_3 [of n] in simp_all)

definition more_octets :: "nat list \<Rightarrow> str" where
  "more_octets octets = concat (map (\<lambda>n. CHR ''.'' # show_nat n) octets)"

lemma dotted_Cons: "dotted (n # octets) = show_nat n @ more_octets octets"
  by (induction octets arbitrary: n) (simp_all add: dotted_def more_octets_def)

lemma more_octets_hd:
  "s = [] \<or> \<not> is_ascii_digit (hd s) \<Longrightarrow>
     more_octets octets @ s = [] \<or> \<not> is_ascii_digit (hd (more_octets octets @ s))"
  by (cases octets) (auto simp: more_octets_def not_digit_dot_colon)

lemma read_octets_more:
  "list_all (\<lambda>n. n < 256) octets \<Longrightarrow> s = [] \<or> \<not> is_ascii_digit (hd s) \<Longrightarrow>
     read_octets (Suc i) (length octets) (more_octets octets @ s) = Some (octets, s)"
proof (induction octets arbitrary: i)
  case (Cons n octets)
  have "read_number 10 (Some 3) 8 False (show_nat n @ more_octets octets @ s) = Some (n, more_octets octets @ s)"
    by (rule read_octet) (use Cons.prems more_octets_hd in auto)
  moreover have "more_octets (n # octets) @ s = CHR ''.'' # show_nat n @ more_octets octets @ s"
    by (simp add: more_octets_def)
  ultimately show ?case
    using Cons by (simp add: read_separated_def strip_prefix_char_def)
qed (simp add: more_octets_def)

lemma read_ipv4_addr_dotted:
  assumes "list_all (\<lambda>n. n < 256) octets" and "length octets = 4" and "s = [] \<or> \<not> is_ascii_digit (hd s)"
  shows "read_ipv4_addr (dotted octets @ s) = Some (octets, s)"
proof -
  from assms(2) obtain n os where o: "octets = n # os" by (cases octets) auto
  have k: "(4::nat) = Suc (length os)" using assms(2) o by simp
  have "read_number 10 (Some 3) 8 False (show_nat n @ more_octets os @ s) = Some (n, more_octets os @ s)"
    by (rule read_octet) (use assms(1,3) o more_octets_hd in auto)
  moreover have "read_octets (Suc 0) (length os) (more_octets os @ s) = Some (os, s)"
    by (rule read_octets_more) (use assms(1,3) o in simp_all)
  ultimately show ?thesis
    by (simp only: read_ipv4_addr_def o dotted_Cons k append_assoc) (simp add: read_separated_def)
qed

lemma parse_socket_addr_v4:
  assumes "list_all (\<lambda>n. n < 256) octets" and "length octets = 4" and "port < 2 ^ 16"
  shows "parse_socket_addr (dotted octets @ CHR '':'' # show_nat port) =
    Some \<lparr>sa_ip = V4 octets, sa_port = port\<rparr>"
proof -
  have "read_number 10 None 16 True (show_nat port @ []) = Some (port, [])"
    by (rule read_number_show_nat) (use assms(3) in simp_all)
  then show ?thesis
    using read_ipv4_addr_dotted [OF assms(1,2), of "CHR '':'' # show_nat port"]
    by (simp add: parse_socket_addr_def read_socket_addr_v4_def read_port_def strip_prefix_char_def
        not_digit_dot_colon)
qed

lemma dotted_no_colon: "CHR '':'' \<notin> set (dotted octets)"
proof -
  have "CHR '':'' \<notin> set (show_nat n)" for n
    using show_nat_digits [of n] by (auto simp: list_all_iff not_digit_dot_colon)
  then show ?thesis
    by (cases octets) (auto simp: dotted_Cons more_octets_def, simp add: dotted_def)
qed

end
