(* ===== verification/Aprsc_Import.thy ===== *)
theory Aprsc_Import
  imports Socket_Addr
begin

section \<open>Importing \<open>aprsc.conf\<close> (\<open>aprsr-config/src/aprsc.rs\<close>)\<close>

text \<open>
  The converter from the configuration format of aprsc: the tokenizer, the directives and the options
  of a port. Strings are UTF-8 bytes and the tokenizer runs over their characters (\<open>segs\<close>). Errors and
  warnings carry the number of the line they are about; the texts of the warnings are in \<open>Commands\<close>, those of the errors are left out.
\<close>

datatype convert_error =
    UnterminatedQuote nat
  | WrongArgumentCount nat str str nat
  | InvalidValue nat str str
  | InvalidAddress nat str

datatype warning =
    Unknown nat str
  | NotSupported nat str str
  | OptionDropped nat str str
  | NameGenerated nat str

record conversion =
  cn_config :: config
  cn_warnings :: "warning list"

subsection \<open>Lines and tokens\<close>

text \<open>\<open>str::lines\<close>: a line ends before a newline, a carriage return in front of that is dropped, and what
  follows the last newline is a line when it is not empty.\<close>

definition text_lines :: "str \<Rightarrow> str list" where
  "text_lines s =
     (let segments = split_on CHR 0x0A s in
      map (\<lambda>l. unwrap_or l (strip_suffix_char CHR 0x0D l)) (butlast segments) @
      (if last segments = [] then [] else [last segments]))"

fun tokenize_loop :: "str list \<Rightarrow> str list \<Rightarrow> str \<Rightarrow> bool \<Rightarrow> bool \<Rightarrow> str list \<times> str \<times> bool \<times> bool" where
  "tokenize_loop [] tokens current has_token in_quotes = (tokens, current, has_token, in_quotes)"
| "tokenize_loop (ch # chs) tokens current has_token in_quotes =
     (if ch = [CHR 0x22] then tokenize_loop chs tokens current True (\<not> in_quotes)
      else if ch = ''#'' \<and> \<not> in_quotes then (tokens, current, has_token, in_quotes)
      else if ws_seg ch \<and> \<not> in_quotes then
        (if has_token then tokenize_loop chs (tokens @ [current]) [] False in_quotes
         else tokenize_loop chs tokens current has_token in_quotes)
      else tokenize_loop chs tokens (current @ ch) True in_quotes)"

definition tokenize :: "str \<Rightarrow> nat \<Rightarrow> (convert_error, str list) result" where
  "tokenize raw line =
     (case tokenize_loop (segs raw) [] [] False False of (tokens, current, has_token, in_quotes) \<Rightarrow>
        if in_quotes then Inl (UnterminatedQuote line)
        else Inr (if has_token then tokens @ [current] else tokens))"

subsection \<open>Values\<close>

definition single_arg :: "nat \<Rightarrow> str \<Rightarrow> str list \<Rightarrow> (convert_error, str) result" where
  "single_arg line directive args =
     (case args of
        [only] \<Rightarrow> Inr only
      | _ \<Rightarrow> Inl (WrongArgumentCount line directive ''1'' (length args)))"

definition conf_number :: "(str \<Rightarrow> 'a option) \<Rightarrow> nat \<Rightarrow> str \<Rightarrow> str \<Rightarrow> (convert_error, 'a) result" where
  "conf_number from_str line what value = ok_or (InvalidValue line what value) (from_str value)"

definition conf_interval :: "nat \<Rightarrow> str \<Rightarrow> (convert_error, interval) result" where
  "conf_interval line value =
     map_err (\<lambda>_. InvalidValue line ''interval'' value) (interval_parse value)"

definition conf_address :: "nat \<Rightarrow> str option \<Rightarrow> str option \<Rightarrow> (convert_error, socket_addr) result" where
  "conf_address line host port =
     (let host = unwrap_or [] host; port = unwrap_or [] port;
          combined = (if CHR '':'' \<in> set host then ''['' @ host @ '']:'' @ port else host @ '':'' @ port)
      in ok_or (InvalidAddress line combined) (parse_socket_addr combined))"

abbreviation arg :: "str list \<Rightarrow> nat \<Rightarrow> str" where
  "arg args i \<equiv> unwrap_or [] (get args i)"

definition port_kind_of :: "str \<Rightarrow> port_kind option" where
  "port_kind_of s =
     (if s = ''fullfeed'' then Some FullFeed else if s = ''igate'' then Some Igate
      else if s = ''dupefeed'' then Some DupeFeed else if s = ''udpsubmit'' then Some UdpSubmit else None)"

definition protocol_of :: "str \<Rightarrow> protocol option" where
  "protocol_of s = (if s = ''tcp'' then Some protocol.Tcp else if s = ''udp'' then Some protocol.Udp else None)"

definition uplink_kind_of :: "str \<Rightarrow> uplink_kind option" where
  "uplink_kind_of s = (if s = ''full'' then Some Full else if s = ''ro'' then Some ReadOnly else None)"

subsection \<open>The options of a port\<close>

function listen_options ::
  "nat \<Rightarrow> str list \<Rightarrow> nat \<Rightarrow> listener_config \<times> warning list \<Rightarrow>
     (convert_error, listener_config \<times> warning list) result" where
  "listen_options line args i (l, ws) =
     (case get args i of
        None \<Rightarrow> Inr (l, ws)
      | Some option \<Rightarrow>
          (let word = to_ascii_lowercase option in
           if word = ''hidden'' then listen_options line args (i + 1) (l\<lparr>lc_hidden := True\<rparr>, ws)
           else if word = ''filter'' then
             listen_options line args (i + 2) (l\<lparr>lc_filter := get args (i + 1)\<rparr>, ws)
           else if word = ''maxclients'' then
             (case conf_number parse_u64 line ''client limit'' (arg args (i + 1)) of
                Inl e \<Rightarrow> Inl e
              | Inr n \<Rightarrow> listen_options line args (i + 2) (l\<lparr>lc_max_clients := Some n\<rparr>, ws))
           else if word = ''acl'' then
             listen_options line args (i + 2)
               (l, ws @ [OptionDropped line option ''address-based access control is on the roadmap''])
           else
             listen_options line args (i + 1)
               (l, ws @ [OptionDropped line option ''unrecognised listener option''])))"
  by pat_completeness auto
termination
  by (relation "measure (\<lambda>(line, args, i, _). length args - i)") (auto simp: get_Some)

declare listen_options.simps [simp del]

definition parse_listen ::
  "nat \<Rightarrow> str list \<Rightarrow> warning list \<Rightarrow> (convert_error, listener_config \<times> warning list) result" where
  "parse_listen line args warnings =
     (if length args < 5
      then Inl (WrongArgumentCount line ''Listen'' ''at least 5'' (length args))
      else
        and_then (ok_or (InvalidValue line ''port type'' (arg args 1)) (port_kind_of (arg args 1))) (\<lambda>kind.
        and_then (ok_or (InvalidValue line ''protocol'' (arg args 2)) (protocol_of (arg args 2))) (\<lambda>protocol.
        and_then (conf_address line (get args 3) (get args 4)) (\<lambda>bind.
        (let name = arg args 0;
             generated = arg args 1 @ '' '' @ arg args 2 @ '' '' @ show_nat (sa_port bind);
             (name, warnings) =
               (if name = [] then (generated, warnings @ [NameGenerated line generated]) else (name, warnings))
         in listen_options line args 5
              (\<lparr>lc_name = name, lc_kind = kind, lc_protocol = protocol, lc_bind = bind, lc_filter = None,
                lc_max_clients = None, lc_hidden = False\<rparr>, warnings))))))"

definition parse_uplink :: "nat \<Rightarrow> str list \<Rightarrow> (convert_error, uplink) result" where
  "parse_uplink line args =
     (if length args < 5 then Inl (WrongArgumentCount line ''Uplink'' ''5'' (length args))
      else
        and_then (ok_or (InvalidValue line ''uplink type'' (arg args 1)) (uplink_kind_of (arg args 1))) (\<lambda>kind.
        and_then (ok_or (InvalidValue line ''port'' (arg args 4)) (parse_u16 (arg args 4))) (\<lambda>port.
        Inr \<lparr>ul_name = arg args 0, ul_kind = kind, ul_address = arg args 3 @ '':'' @ show_nat port\<rparr>)))"

subsection \<open>The directives\<close>

definition conversion_new :: conversion where
  "conversion_new =
     \<lparr>cn_config =
        \<lparr>cf_server = \<lparr>sv_id = PLACEHOLDER_SERVER_ID, sv_passcode = 0, sv_admin = [], sv_email = [],
           sv_run_dir = ''data''\<rparr>,
         cf_limits = default_limits, cf_database_url = default_database_url, cf_status_bind = None,
         cf_listeners = [], cf_uplinks = []\<rparr>,
      cn_warnings = []\<rparr>"

abbreviation on_config :: "conversion \<Rightarrow> (config \<Rightarrow> config) \<Rightarrow> conversion" where
  "on_config c g \<equiv> c\<lparr>cn_config := g (cn_config c)\<rparr>"

abbreviation on_server :: "conversion \<Rightarrow> (server_config \<Rightarrow> server_config) \<Rightarrow> conversion" where
  "on_server c g \<equiv> on_config c (\<lambda>f. f\<lparr>cf_server := g (cf_server f)\<rparr>)"

abbreviation on_limits :: "conversion \<Rightarrow> (limits \<Rightarrow> limits) \<Rightarrow> conversion" where
  "on_limits c g \<equiv> on_config c (\<lambda>f. f\<lparr>cf_limits := g (cf_limits f)\<rparr>)"

abbreviation warn :: "conversion \<Rightarrow> warning \<Rightarrow> conversion" where
  "warn c w \<equiv> c\<lparr>cn_warnings := cn_warnings c @ [w]\<rparr>"

definition convert_directive ::
  "nat \<Rightarrow> str \<Rightarrow> str list \<Rightarrow> conversion \<Rightarrow> (convert_error, conversion) result" where
  "convert_directive line directive args c =
     (let word = to_ascii_lowercase directive; only = single_arg line directive args in
      if word = ''serverid'' then and_then only (\<lambda>v. Inr (on_server c (\<lambda>s. s\<lparr>sv_id := v\<rparr>)))
      else if word = ''passcode'' then
        and_then only (\<lambda>v. and_then (conf_number parse_i32 line ''passcode'' v) (\<lambda>n.
          Inr (on_server c (\<lambda>s. s\<lparr>sv_passcode := n\<rparr>))))
      else if word = ''myadmin'' then and_then only (\<lambda>v. Inr (on_server c (\<lambda>s. s\<lparr>sv_admin := v\<rparr>)))
      else if word = ''myemail'' then and_then only (\<lambda>v. Inr (on_server c (\<lambda>s. s\<lparr>sv_email := v\<rparr>)))
      else if word = ''rundir'' then and_then only (\<lambda>v. Inr (on_server c (\<lambda>s. s\<lparr>sv_run_dir := v\<rparr>)))
      else if word = ''filelimit'' then
        and_then only (\<lambda>v. and_then (conf_number parse_u64 line ''file limit'' v) (\<lambda>n.
          Inr (on_limits c (\<lambda>m. m\<lparr>lm_file_limit := n\<rparr>))))
      else if word = ''clienttimeout'' then
        and_then only (\<lambda>v. and_then (conf_interval line v) (\<lambda>t.
          Inr (on_limits c (\<lambda>m. m\<lparr>lm_client_timeout := t\<rparr>))))
      else if word = ''upstreamtimeout'' then
        and_then only (\<lambda>v. and_then (conf_interval line v) (\<lambda>t.
          Inr (on_limits c (\<lambda>m. m\<lparr>lm_upstream_timeout := t\<rparr>))))
      else if word = ''listen'' then
        and_then (parse_listen line args (cn_warnings c)) (\<lambda>(l, ws).
          Inr ((on_config c (\<lambda>f. f\<lparr>cf_listeners := cf_listeners f @ [l]\<rparr>))\<lparr>cn_warnings := ws\<rparr>))
      else if word = ''uplink'' then
        and_then (parse_uplink line args) (\<lambda>u.
          Inr (on_config c (\<lambda>f. f\<lparr>cf_uplinks := cf_uplinks f @ [u]\<rparr>)))
      else if word = ''httpstatus'' then
        and_then (conf_address line (get args 0) (get args 1)) (\<lambda>a.
          Inr (on_config c (\<lambda>f. f\<lparr>cf_status_bind := Some a\<rparr>)))
      else if word = ''httpupload'' then
        Inr (warn c (NotSupported line directive
          ''HTTP position upload is on the roadmap, not in this release''))
      else if word = ''uplinkbind'' then
        Inr (warn c (NotSupported line directive ''uplinks are on the roadmap, not in this release''))
      else if word = ''logrotate'' then
        Inr (warn c (NotSupported line directive
          (''aprsr logs to stdout; use your service manager'' @ CHR 0x27 # ''s log rotation'')))
      else if word = ''magicbadness'' then
        Inr (warn c (NotSupported line directive
          (''this is aprsc'' @ CHR 0x27 #
           ''s deliberate start-up tripwire and has no aprsr equivalent'')))
      else Inr (warn c (Unknown line directive)))"

definition convert_line :: "nat \<Rightarrow> str \<Rightarrow> conversion \<Rightarrow> (convert_error, conversion) result" where
  "convert_line line raw_line c =
     and_then (tokenize raw_line line) (\<lambda>tokens.
       case get tokens 0 of
         None \<Rightarrow> Inr c
       | Some directive \<Rightarrow> convert_directive line directive (drop 1 tokens) c)"

fun convert_lines :: "nat \<Rightarrow> str list \<Rightarrow> conversion \<Rightarrow> (convert_error, conversion) result" where
  "convert_lines index [] c = Inr c"
| "convert_lines index (raw_line # rest) c =
     and_then (convert_line (index + 1) raw_line c) (\<lambda>c. convert_lines (index + 1) rest c)"

definition convert :: "str \<Rightarrow> (convert_error, conversion) result" where
  "convert text = convert_lines 0 (text_lines text) conversion_new"

subsection \<open>The tokenizer\<close>

text \<open>A token as an operator may write it: quoted, or plain when it is one word.\<close>

definition plain_word :: "str \<Rightarrow> bool" where
  "plain_word t \<longleftrightarrow>
     t \<noteq> [] \<and> list_all (\<lambda>c. is_ascii c \<and> c \<noteq> CHR 0x22 \<and> c \<noteq> CHR ''#'' \<and> \<not> is_whitespace (ord c)) t"

fun token_ok :: "bool \<times> str \<Rightarrow> bool" where
  "token_ok (True, t) \<longleftrightarrow> valid_utf8 t \<and> CHR 0x22 \<notin> set t"
| "token_ok (False, t) \<longleftrightarrow> plain_word t"

fun token_text :: "bool \<times> str \<Rightarrow> str" where
  "token_text (True, t) = CHR 0x22 # t @ [CHR 0x22]"
| "token_text (False, t) = t"

lemma tokenize_quoted:
  "list_all (\<lambda>w. CHR 0x22 \<notin> set w) ws \<Longrightarrow>
     tokenize_loop (ws @ chs) ts cur h True = tokenize_loop chs ts (cur @ concat ws) (h \<or> ws \<noteq> []) True"
  by (induction ws arbitrary: cur h) auto

lemma tokenize_plain:
  "list_all (\<lambda>c. is_ascii c \<and> c \<noteq> CHR 0x22 \<and> c \<noteq> CHR ''#'' \<and> \<not> is_whitespace (ord c)) t \<Longrightarrow>
     tokenize_loop (map (\<lambda>c. [c]) t @ chs) ts cur h False =
     tokenize_loop chs ts (cur @ t) (h \<or> t \<noteq> []) False"
  by (induction t arbitrary: cur h) (auto simp: ws_seg_def)

lemma tokenize_token:
  assumes "token_ok tok"
  shows "tokenize_loop (segs (token_text tok @ s)) ts [] False False =
    tokenize_loop (segs s) ts (snd tok) True False"
proof (cases tok)
  case (Pair q t)
  show ?thesis
  proof (cases q)
    case True
    with assms Pair have t: "valid_utf8 t" "CHR 0x22 \<notin> set t" by simp_all
    have a: "is_ascii CHR 0x22" by (simp add: is_ascii_def)
    have "segs (CHR 0x22 # t @ CHR 0x22 # s) = [CHR 0x22] # segs t @ [CHR 0x22] # segs s"
      by (simp only: segs_ascii_Cons [OF a] segs_append [OF t(1)])
    moreover have "list_all (\<lambda>w. CHR 0x22 \<notin> set w) (segs t)"
    proof -
      have "\<Union> (set ` set (segs t)) = set t" by (metis concat_segs set_concat)
      with t(2) show ?thesis by (auto simp: list_all_iff)
    qed
    ultimately show ?thesis by (simp add: Pair True tokenize_quoted del: segs.simps)
  next
    case False
    with assms Pair have p: "plain_word t" by simp
    then have "list_all is_ascii t" by (simp add: plain_word_def list_all_iff)
    then have "segs (t @ s) = map (\<lambda>c. [c]) t @ segs s"
      by (simp add: segs_append valid_utf8_ascii segs_ascii)
    with p show ?thesis by (simp add: Pair False plain_word_def tokenize_plain)
  qed
qed

text \<open>The end of a line: nothing, or white space and a comment.\<close>

definition line_end :: "str \<Rightarrow> bool" where
  "line_end s \<longleftrightarrow> s = [] \<or> (\<exists>comment. s = '' #'' @ comment)"

lemma segs_space: "segs (CHR '' '' # s) = '' '' # segs s"
  by (rule segs_ascii_Cons) (simp add: is_ascii_def)

lemma space_ws: "ws_seg '' ''"
  by (simp add: ws_seg_def is_whitespace_def code_point_ascii is_ascii_def)

lemma tokenize_line_end:
  "line_end s \<Longrightarrow>
     tokenize_loop (segs s) ts t True False \<in> {(ts, t, True, False), (ts @ [t], [], False, False)}"
proof -
  assume "line_end s"
  then consider "s = []" | comment where "s = CHR '' '' # CHR ''#'' # comment" by (auto simp: line_end_def)
  then show ?thesis
  proof cases
    case (2 comment)
    have "segs (CHR ''#'' # comment) = ''#'' # segs comment"
      by (rule segs_ascii_Cons) (simp add: is_ascii_def)
    then have "tokenize_loop (segs s) ts t True False = (ts @ [t], [], False, False)"
      by (simp add: 2 segs_space space_ws del: segs.simps)
    then show ?thesis by simp
  qed auto
qed

lemma tokenize_tokens:
  "list_all token_ok toks \<Longrightarrow> line_end s \<Longrightarrow> toks \<noteq> [] \<Longrightarrow>
     tokenize_loop (segs (join '' '' (map token_text toks) @ s)) ts [] False False \<in>
       {(ts @ map snd (butlast toks), snd (last toks), True, False), (ts @ map snd toks, [], False, False)}"
proof (induction toks arbitrary: ts)
  case (Cons tok toks)
  show ?case
  proof (cases toks)
    case Nil
    with Cons.prems tokenize_token [of tok s ts] tokenize_line_end [OF Cons.prems(2), of ts "snd tok"]
    show ?thesis by (auto split: if_splits)
  next
    case (Cons tok' toks')
    have "tokenize_loop (segs (join '' '' (map token_text (tok # toks)) @ s)) ts [] False False =
        tokenize_loop (segs (CHR '' '' # join '' '' (map token_text toks) @ s)) ts (snd tok) True False"
      using tokenize_token [of tok "CHR '' '' # join '' '' (map token_text toks) @ s" ts] Cons.prems Cons
      by simp
    also have "\<dots> = tokenize_loop (segs (join '' '' (map token_text toks) @ s)) (ts @ [snd tok]) [] False False"
      by (simp add: segs_space space_ws del: segs.simps)
    finally show ?thesis using Cons.IH [of "ts @ [snd tok]"] Cons.prems Cons by auto
  qed
qed simp

lemma tokenize_tokens_ok:
  assumes "list_all token_ok toks" and "line_end s" and "toks \<noteq> []"
  shows "tokenize (join '' '' (map token_text toks) @ s) line = Inr (map snd toks)"
proof -
  have "map snd (butlast toks) @ [snd (last toks)] = map snd toks"
    using assms(3) by (metis append_butlast_last_id map_append list.map(1,2))
  with tokenize_tokens [OF assms, of "[]"] show ?thesis by (auto simp: tokenize_def)
qed

subsection \<open>Lines and their errors\<close>

fun error_line :: "convert_error \<Rightarrow> nat" where
  "error_line (UnterminatedQuote line) = line"
| "error_line (WrongArgumentCount line _ _ _) = line"
| "error_line (InvalidValue line _ _) = line"
| "error_line (InvalidAddress line _) = line"

lemma value_error_line:
  "single_arg line d args = Inl e \<Longrightarrow> error_line e = line"
  "conf_number f line w v = Inl e \<Longrightarrow> error_line e = line"
  "conf_interval line v = Inl e \<Longrightarrow> error_line e = line"
  "conf_address line h p = Inl e \<Longrightarrow> error_line e = line"
  by (auto simp: single_arg_def conf_number_def conf_interval_def conf_address_def res_simps Let_def
      split: list.splits)

lemma listen_options_error_line:
  "listen_options line args i lw = Inl e \<Longrightarrow> error_line e = line"
  by (induction line args i lw rule: listen_options.induct)
     (subst (asm) listen_options.simps, auto simp: Let_def dest: value_error_line split: option.splits if_splits sum.splits)

lemma convert_line_error_line:
  assumes "convert_line line raw c = Inl e"
  shows "error_line e = line"
proof -
  have listen: "parse_listen line args ws = Inl e \<Longrightarrow> error_line e = line" for args ws
    by (auto simp: parse_listen_def res_simps and_then_Inl Let_def dest: value_error_line listen_options_error_line
        split: if_splits)
  have uplink: "parse_uplink line args = Inl e \<Longrightarrow> error_line e = line" for args
    by (auto simp: parse_uplink_def res_simps and_then_Inl split: if_splits)
  have "convert_directive line d args c = Inl e \<Longrightarrow> error_line e = line" for d args
    by (auto simp: convert_directive_def Let_def and_then_Inl dest: value_error_line listen uplink split: if_splits)
  moreover have "tokenize raw line = Inl e \<Longrightarrow> error_line e = line"
    by (auto simp: tokenize_def split: prod.splits if_splits)
  ultimately show ?thesis
    using assms by (auto simp: convert_line_def and_then_Inl split: option.splits)
qed

lemma convert_lines_append:
  "convert_lines n (xs @ ys) c = and_then (convert_lines n xs c) (\<lambda>c. convert_lines (n + length xs) ys c)"
proof (induction xs arbitrary: n c)
  case (Cons x xs)
  then show ?case by (cases "convert_line (n + 1) x c") simp_all
qed simp

lemma convert_lines_Inl:
  "convert_lines n ls c = Inl e \<Longrightarrow>
     \<exists>pre raw post d. ls = pre @ raw # post \<and> convert_lines n pre c = Inr d \<and>
       convert_line (n + length pre + 1) raw d = Inl e"
proof (induction ls arbitrary: n c)
  case (Cons x xs)
  show ?case
  proof (cases "convert_line (n + 1) x c")
    case (Inl e')
    with Cons.prems have "x # xs = [] @ x # xs \<and> convert_lines n [] c = Inr c \<and>
        convert_line (n + length [] + 1) x c = Inl e" by simp
    then show ?thesis by blast
  next
    case (Inr d)
    with Cons.prems Cons.IH [of "n + 1" d] obtain pre raw post d' where
      "xs = pre @ raw # post" "convert_lines (n + 1) pre d = Inr d'"
      "convert_line (n + 1 + length pre + 1) raw d' = Inl e" by auto
    with Inr show ?thesis by (intro exI [of _ "x # pre"]) auto
  qed
qed simp

subsection \<open>What a conversion keeps and what it warns about\<close>

definition line_directive :: "str \<Rightarrow> str option" where
  "line_directive raw = Option.bind (result_ok (tokenize raw 0)) (\<lambda>tokens. get tokens 0)"

definition applied_directives :: "str list" where
  "applied_directives =
     [''serverid'', ''passcode'', ''myadmin'', ''myemail'', ''rundir'', ''filelimit'', ''clienttimeout'',
      ''upstreamtimeout'', ''listen'', ''uplink'', ''httpstatus'']"

text \<open>The directives of a list of lines that are not applied, with their line numbers, and those named
  by a list of warnings.\<close>

fun unapplied :: "nat \<Rightarrow> str list \<Rightarrow> (nat \<times> str) list" where
  "unapplied index [] = []"
| "unapplied index (raw # rest) =
     (case line_directive raw of
        Some d \<Rightarrow> if to_ascii_lowercase d \<in> set applied_directives then [] else [(index + 1, d)]
      | None \<Rightarrow> []) @ unapplied (index + 1) rest"

fun warned_directive :: "warning \<Rightarrow> (nat \<times> str) option" where
  "warned_directive (Unknown line d) = Some (line, d)"
| "warned_directive (NotSupported line d _) = Some (line, d)"
| "warned_directive _ = None"

definition warned_directives :: "conversion \<Rightarrow> (nat \<times> str) list" where
  "warned_directives c = List.map_filter warned_directive (cn_warnings c)"

definition count_directive :: "str \<Rightarrow> str list \<Rightarrow> nat" where
  "count_directive word ls = length (filter (\<lambda>raw. map_option to_ascii_lowercase (line_directive raw) = Some word) ls)"

lemma map_filter_append: "List.map_filter f (xs @ ys) = List.map_filter f xs @ List.map_filter f ys"
  by (simp add: List.map_filter_def)

lemma listen_options_warnings:
  "listen_options line args i (l, ws) = Inr (l', ws') \<Longrightarrow>
     List.map_filter warned_directive ws' = List.map_filter warned_directive ws"
proof (induction "length args - i" arbitrary: i l ws rule: less_induct)
  case less
  show ?case
  proof (cases "get args i")
    case None
    with less.prems show ?thesis by (simp add: listen_options.simps)
  next
    case (Some opt)
    then have "i < length args" by (simp add: get_Some)
    then have IH: "listen_options line args j (k, vs) = Inr (l', ws') \<Longrightarrow> i < j \<Longrightarrow>
        List.map_filter warned_directive ws' = List.map_filter warned_directive vs" for j k vs
      using less.hyps [of j k vs] by simp
    from less.prems show ?thesis
      unfolding listen_options.simps [of line args i] Some option.simps Let_def
      by (auto simp: map_filter_append List.map_filter_simps dest: IH split: if_splits sum.splits)
  qed
qed

lemma parse_listen_warnings:
  "parse_listen line args ws = Inr (l', ws') \<Longrightarrow>
     List.map_filter warned_directive ws' = List.map_filter warned_directive ws"
  by (auto simp: parse_listen_def and_then_Inr Let_def map_filter_append dest!: listen_options_warnings
      split: if_splits)

lemma tokenize_line_number: "result_ok (tokenize raw line) = result_ok (tokenize raw line')"
  by (simp add: tokenize_def split: prod.split)

lemma convert_line_InrE:
  assumes "convert_line line raw c = Inr c'"
  obtains "line_directive raw = None" "c' = c"
  | d args where "line_directive raw = Some d" "convert_directive line d args c = Inr c'"
proof -
  from assms obtain tokens where "tokenize raw line = Inr tokens"
    and c: "(case get tokens 0 of None \<Rightarrow> Inr c | Some d \<Rightarrow> convert_directive line d (drop 1 tokens) c) = Inr c'"
    by (auto simp: convert_line_def and_then_Inr)
  then have "result_ok (tokenize raw 0) = Some tokens" using tokenize_line_number [of raw 0 line] by simp
  with c that show thesis by (cases "get tokens 0") (auto simp: line_directive_def)
qed

lemma convert_directive_effect:
  assumes "convert_directive line d args c = Inr c'"
  shows "warned_directives c' = warned_directives c @
      (if to_ascii_lowercase d \<in> set applied_directives then [] else [(line, d)]) \<and>
    length (cf_listeners (cn_config c')) =
      length (cf_listeners (cn_config c)) + of_bool (to_ascii_lowercase d = ''listen'') \<and>
    length (cf_uplinks (cn_config c')) =
      length (cf_uplinks (cn_config c)) + of_bool (to_ascii_lowercase d = ''uplink'')"
  using assms
  by (auto simp: convert_directive_def Let_def and_then_Inr applied_directives_def warned_directives_def
      map_filter_append parse_listen_warnings List.map_filter_simps split: if_splits)

lemma convert_lines_effect:
  "convert_lines n ls c = Inr c' \<Longrightarrow>
     warned_directives c' = warned_directives c @ unapplied n ls \<and>
     length (cf_listeners (cn_config c')) = length (cf_listeners (cn_config c)) + count_directive ''listen'' ls \<and>
     length (cf_uplinks (cn_config c')) = length (cf_uplinks (cn_config c)) + count_directive ''uplink'' ls"
proof (induction ls arbitrary: n c)
  case Nil
  then show ?case by (simp add: count_directive_def)
next
  case (Cons raw ls)
  then obtain d where d: "convert_line (n + 1) raw c = Inr d" "convert_lines (n + 1) ls d = Inr c'"
    by (auto simp: and_then_Inr)
  from d(1) show ?case
  proof (cases rule: convert_line_InrE)
    case 1
    with Cons.IH [OF d(2)] show ?thesis by (simp add: count_directive_def)
  next
    case (2 w args)
    from convert_directive_effect [OF 2(2)] Cons.IH [OF d(2)] 2(1) show ?thesis
      by (auto simp: count_directive_def)
  qed
qed

text \<open>An uplink is imported without a word about its protocol or anything after its port.\<close>

lemma uplink_protocol_ignored:
  "parse_uplink line (name # kind # protocol # host # port # rest) =
     parse_uplink line [name, kind, protocol', host, port]"
  by (simp add: parse_uplink_def numeral_eq_Suc)

subsection \<open>Properties\<close>

text \<open>When a conversion fails, it is the first line that cannot be converted that is reported, under its
  number in the file; the lines after it play no part, and every line before it converts.\<close>

theorem conversion_error_located:
  assumes "convert text = Inl e"
  shows "\<exists>pre raw post c. text_lines text = pre @ raw # post \<and> convert_lines 0 pre conversion_new = Inr c \<and>
    convert_line (error_line e) raw c = Inl e \<and> error_line e = length pre + 1"
proof -
  from convert_lines_Inl [OF assms [unfolded convert_def]] obtain pre raw post c where
    c: "text_lines text = pre @ raw # post" "convert_lines 0 pre conversion_new = Inr c"
      "convert_line (length pre + 1) raw c = Inl e" by auto
  then have "error_line e = length pre + 1" using convert_line_error_line by blast
  with c show ?thesis by auto
qed


subsection \<open>A port as an operator writes it\<close>

fun kind_text :: "port_kind \<Rightarrow> str" where
  "kind_text FullFeed = ''fullfeed''"
| "kind_text Igate = ''igate''"
| "kind_text DupeFeed = ''dupefeed''"
| "kind_text UdpSubmit = ''udpsubmit''"

fun protocol_text :: "protocol \<Rightarrow> str" where
  "protocol_text protocol.Tcp = ''tcp''"
| "protocol_text protocol.Udp = ''udp''"

definition port_name :: "str \<Rightarrow> port_kind \<Rightarrow> protocol \<Rightarrow> nat \<Rightarrow> str" where
  "port_name name k p port =
     (if name = [] then kind_text k @ '' '' @ protocol_text p @ '' '' @ show_nat port else name)"

definition plain_listener :: "str \<Rightarrow> port_kind \<Rightarrow> protocol \<Rightarrow> nat list \<Rightarrow> nat \<Rightarrow> listener_config" where
  "plain_listener name k p octets port =
     \<lparr>lc_name = port_name name k p port, lc_kind = k, lc_protocol = p,
      lc_bind = \<lparr>sa_ip = V4 octets, sa_port = port\<rparr>, lc_filter = None, lc_max_clients = None,
      lc_hidden = False\<rparr>"

definition name_warning :: "nat \<Rightarrow> str \<Rightarrow> port_kind \<Rightarrow> protocol \<Rightarrow> nat \<Rightarrow> warning list" where
  "name_warning line name k p port = (if name = [] then [NameGenerated line (port_name name k p port)] else [])"

lemma port_kind_of_text [simp]: "port_kind_of (kind_text k) = Some k"
  by (cases k) (simp_all add: port_kind_of_def)

lemma protocol_of_text [simp]: "protocol_of (protocol_text p) = Some p"
  by (cases p) (simp_all add: protocol_of_def)

lemma conf_address_dotted:
  assumes "list_all (\<lambda>n. n < 256) octets" and "length octets = 4" and "port < 2 ^ 16"
  shows "conf_address line (Some (dotted octets)) (Some (show_nat port)) =
    Inr \<lparr>sa_ip = V4 octets, sa_port = port\<rparr>"
  using parse_socket_addr_v4 [OF assms] dotted_no_colon [of octets] by (simp add: conf_address_def)

lemma parse_listen_plain:
  assumes "list_all (\<lambda>n. n < 256) octets" and "length octets = 4" and "port < 2 ^ 16"
  shows "parse_listen line [name, kind_text k, protocol_text p, dotted octets, show_nat port] ws =
    Inr (plain_listener name k p octets port, ws @ name_warning line name k p port)"
proof -
  have g: "get [a, b, c, d, e] 0 = Some a" "get [a, b, c, d, e] (Suc 0) = Some b" "get [a, b, c, d, e] 2 = Some c"
    "get [a, b, c, d, e] 3 = Some d" "get [a, b, c, d, e] 4 = Some e" "get [a, b, c, d, e] 5 = None"
    for a b c d e :: str
    by (simp_all add: get_def)
  have o: "listen_options line [a, b, c, d, e] 5 lw = Inr lw" for a b c d e :: str and lw
    by (cases lw) (simp add: listen_options.simps g)
  show ?thesis
    using conf_address_dotted [OF assms]
    by (simp add: parse_listen_def Let_def g o plain_listener_def port_name_def name_warning_def del: get_simps)
qed

lemma digit_plain: "is_ascii_digit c \<Longrightarrow>
    is_ascii c \<and> c \<noteq> CHR 0x22 \<and> c \<noteq> CHR ''#'' \<and> \<not> is_whitespace (ord c)"
  by (auto simp: is_ascii_digit_def is_ascii_def is_whitespace_def)

lemma plain_show_nat: "plain_word (show_nat n)"
  using show_nat_digits [of n] digit_plain by (auto simp: plain_word_def list_all_iff)

definition word_char :: "char \<Rightarrow> bool" where
  "word_char c \<longleftrightarrow> is_ascii c \<and> c \<noteq> CHR 0x22 \<and> c \<noteq> CHR ''#'' \<and> \<not> is_whitespace (ord c)"

lemma plain_word_chars: "plain_word t \<longleftrightarrow> t \<noteq> [] \<and> list_all word_char t"
  by (simp add: plain_word_def word_char_def [abs_def])

lemma plain_dotted:
  assumes "octets \<noteq> []"
  shows "plain_word (dotted octets)"
proof -
  have "word_char CHR ''.''" by (simp add: word_char_def is_ascii_def is_whitespace_def)
  moreover have "list_all word_char (show_nat n)" for n
    using plain_show_nat [of n] by (simp add: plain_word_chars)
  ultimately have "list_all word_char (more_octets os)" for os
    by (induction os) (simp_all add: more_octets_def)
  with assms plain_show_nat show ?thesis
    by (cases octets) (simp_all add: dotted_Cons plain_word_chars)
qed

lemma plain_texts: "plain_word (kind_text k)" "plain_word (protocol_text p)" "plain_word ''Listen''"
proof -
  show "plain_word (kind_text k)" by (cases k) (simp_all add: plain_word_def is_ascii_def is_whitespace_def)
  show "plain_word (protocol_text p)" by (cases p) (simp_all add: plain_word_def is_ascii_def is_whitespace_def)
  show "plain_word ''Listen''" by (simp add: plain_word_def is_ascii_def is_whitespace_def)
qed

text \<open>A \<open>Listen\<close> line with a quoted name, any kind and protocol, an IPv4 address and a port, followed by
  nothing or a comment, adds exactly that port to the configuration; an empty name is replaced by one
  made of kind, protocol and port number, with a warning.\<close>

theorem listen_line_converts:
  assumes "valid_utf8 name" and "CHR 0x22 \<notin> set name"
    and "list_all (\<lambda>n. n < 256) octets" and "length octets = 4" and "port < 2 ^ 16" and "line_end s"
  shows "convert_line line
      (join '' '' [''Listen'', CHR 0x22 # name @ [CHR 0x22], kind_text k, protocol_text p, dotted octets,
         show_nat port] @ s) c =
    Inr \<lparr>cn_config = (cn_config c)
        \<lparr>cf_listeners := cf_listeners (cn_config c) @
           [\<lparr>lc_name = (if name = [] then kind_text k @ '' '' @ protocol_text p @ '' '' @ show_nat port else name),
             lc_kind = k, lc_protocol = p, lc_bind = \<lparr>sa_ip = V4 octets, sa_port = port\<rparr>, lc_filter = None,
             lc_max_clients = None, lc_hidden = False\<rparr>]\<rparr>,
      cn_warnings = cn_warnings c @ name_warning line name k p port\<rparr>"
proof -
  let ?toks = "[(False, ''Listen''), (True, name), (False, kind_text k), (False, protocol_text p),
      (False, dotted octets), (False, show_nat port)]"
  have "octets \<noteq> []" using assms(4) by auto
  then have "list_all token_ok ?toks"
    using assms(1,2) by (simp add: plain_texts plain_dotted plain_show_nat)
  from tokenize_tokens_ok [OF this assms(6), of line]
  have t: "tokenize (join '' '' [''Listen'', CHR 0x22 # name @ [CHR 0x22], kind_text k, protocol_text p,
      dotted octets, show_nat port] @ s) line =
    Inr [''Listen'', name, kind_text k, protocol_text p, dotted octets, show_nat port]" by simp
  have w: "to_ascii_lowercase ''Listen'' = ''listen''" by code_simp
  show ?thesis
    unfolding convert_line_def t
    using parse_listen_plain [OF assms(3-5), of line name k p "cn_warnings c"]
    by (simp add: convert_directive_def w plain_listener_def port_name_def)
qed

lemma listen_options_name: "listen_options line args i (l, ws) = Inr (l', ws') \<Longrightarrow> lc_name l' = lc_name l \<and> lc_bind l' = lc_bind l"
proof (induction "length args - i" arbitrary: i l ws rule: less_induct)
  case less
  show ?case
  proof (cases "get args i")
    case None
    with less.prems show ?thesis by (simp add: listen_options.simps)
  next
    case (Some opt)
    then have "i < length args" by (simp add: get_Some)
    then have IH: "listen_options line args j (k, vs) = Inr (l', ws') \<Longrightarrow> i < j \<Longrightarrow>
        lc_name l' = lc_name k \<and> lc_bind l' = lc_bind k" for j k vs
      using less.hyps [of j k vs] by simp
    from less.prems show ?thesis
      unfolding listen_options.simps [of line args i] Some option.simps Let_def
      by (auto dest: IH split: if_splits sum.splits)
  qed
qed

lemma parse_listen_generated:
  assumes "parse_listen line args ws = Inr (l, ws')" and "arg args 0 = []"
  shows "lc_name l = arg args 1 @ '' '' @ arg args 2 @ '' '' @ show_nat (sa_port (lc_bind l))"
  using assms
  by (auto simp: parse_listen_def and_then_Inr Let_def dest!: listen_options_name split: if_splits)

text \<open>The names the conversion generates need not be unique, although the configuration demands it: two
  unnamed ports of the same kind, protocol and port number on different addresses get the same name, and
  a configuration with both of them is refused when it is loaded.\<close>

theorem generated_names_collide:
  assumes "parse_listen line1 ([] # k # p # host1 # rest1) ws1 = Inr (l1, ws1')"
    and "parse_listen line2 ([] # k # p # host2 # rest2) ws2 = Inr (l2, ws2')"
    and "sa_port (lc_bind l1) = sa_port (lc_bind l2)"
    and "cf_listeners c = before @ l1 # between @ l2 # after"
  shows "config_validate c \<noteq> Inr () \<and> lc_name l1 = lc_name l2"
proof -
  have n: "lc_name l1 = lc_name l2"
    using parse_listen_generated [OF assms(1)] parse_listen_generated [OF assms(2)] assms(3)
    by (simp add: numeral_2_eq_2)
  then have "\<not> distinct (map folded_name (cf_listeners c))" by (simp add: assms(4))
  with n show ?thesis by (simp add: config_validate_iff)
qed

subsection \<open>Witnesses\<close>

lemma text_lines_one: "CHR 0x0A \<notin> set l \<Longrightarrow> l \<noteq> [] \<Longrightarrow> text_lines l = [l]"
proof -
  assume l: "CHR 0x0A \<notin> set l" "l \<noteq> []"
  have "split_on CHR 0x0A l = [l]" by (rule split_by_none) (use l in \<open>auto simp: list_all_iff\<close>)
  with l(2) show ?thesis by (simp add: text_lines_def)
qed

lemma tokenize_one_word: "plain_word w \<Longrightarrow> tokenize w line = Inr [w]"
  using tokenize_tokens_ok [of "[(False, w)]" "[]" line] by (simp add: line_end_def)

theorem conversion_error_located_witness:
  "\<exists>e. convert ''ServerId'' = Inl e \<and> error_line e = 1"
proof -
  have "plain_word ''ServerId''" by (simp add: plain_word_def is_ascii_def is_whitespace_def)
  from tokenize_one_word [OF this] have t: "tokenize ''ServerId'' 1 = Inr [''ServerId'']" .
  have w: "to_ascii_lowercase ''ServerId'' = ''serverid''" by code_simp
  have l: "text_lines ''ServerId'' = [''ServerId'']" by (rule text_lines_one) simp_all
  have "convert ''ServerId'' = Inl (WrongArgumentCount 1 ''ServerId'' ''1'' 0)"
    using t by (simp add: convert_def l convert_line_def convert_directive_def w single_arg_def)
  with conversion_error_located [OF this] show ?thesis by auto
qed


theorem listen_line_converts_witness:
  "\<exists>c. convert_line 7 (''Listen '' @ [CHR 0x22, CHR 0x22] @ '' igate tcp 10.0.0.8 14580 #x'') conversion_new = Inr c \<and>
     map lc_name (cf_listeners (cn_config c)) = [''igate tcp 14580'']"
proof -
  have e: "line_end '' #x''" by (simp add: line_end_def)
  have d: "char_of (48::nat) = CHR ''0''" "char_of (49::nat) = CHR ''1''" "char_of (52::nat) = CHR ''4''"
    "char_of (53::nat) = CHR ''5''" "char_of (56::nat) = CHR ''8''" by code_simp+
  have n: "show_nat 14580 = ''14580''" "dotted [10, 0, 0, 8] = ''10.0.0.8''"
    by (simp_all add: dotted_def show_nat.simps digit_char_def d)
  have t: "''Listen '' @ [CHR 0x22, CHR 0x22] @ '' igate tcp 10.0.0.8 14580 #x'' =
      join '' '' [''Listen'', CHR 0x22 # [] @ [CHR 0x22], kind_text Igate, protocol_text protocol.Tcp,
        dotted [10, 0, 0, 8], show_nat 14580] @ '' #x''"
    by (simp add: n)
  show ?thesis
    unfolding t
    using listen_line_converts [where name = "[]" and octets = "[10, 0, 0, 8]" and port = 14580 and k = Igate and
        p = protocol.Tcp and line = 7 and c = conversion_new, OF _ _ _ _ _ e]
    by (simp add: n conversion_new_def)
qed

theorem generated_names_collide_witness:
  "config_validate
     ((cn_config conversion_new)\<lparr>cf_listeners :=
        [plain_listener [] FullFeed protocol.Udp [10, 0, 0, 1] 10152,
         plain_listener [] FullFeed protocol.Udp [10, 0, 0, 2] 10152]\<rparr>) \<noteq> (Inr () :: (unit config_error, unit) result)"
proof -
  have p: "parse_listen line [[], ''fullfeed'', ''udp'', dotted [10, 0, 0, n], show_nat 10152] [] =
      Inr (plain_listener [] FullFeed protocol.Udp [10, 0, 0, n] 10152,
        [] @ name_warning line [] FullFeed protocol.Udp 10152)" if "n < 256" for line n
    using parse_listen_plain [of "[10, 0, 0, n]" 10152 line "[]" FullFeed protocol.Udp "[]"] that by simp
  show ?thesis
    using generated_names_collide [OF p [of 1 1] p [of 2 2], where before = "[]" and between = "[]" and after = "[]"
        and c = "(cn_config conversion_new)\<lparr>cf_listeners :=
          [plain_listener [] FullFeed protocol.Udp [10, 0, 0, 1] 10152,
           plain_listener [] FullFeed protocol.Udp [10, 0, 0, 2] 10152]\<rparr>"]
    by (simp add: plain_listener_def)
qed

end
