(* ===== verification/Store.thy ===== *)
theory Store
  imports Position_Cache Metrics
begin

section \<open>The database behind the cache (\<open>aprsr-store/src/lib.rs\<close>, \<open>entity/\<close>)\<close>

text \<open>
  The operations of \<open>Store\<close> on the tables of station positions, client sessions and counter samples.
  The database itself is not part of the program: a table is the record \<open>table\<close> of the statements the code
  issues on it, and \<open>table_laws\<close> states what is relied on, that each statement does what SQL says it
  does to the set of rows, or fails and leaves them alone. A failing statement in the middle of a save
  ends it with the rows written so far, as in the code, which opens no transaction.

  \<open>positions_survive_restart\<close> shows that saving the cache and loading it again gives the same cache,
  on top of what was in the table; \<open>session_log\<close> that the connection log has one row per session with the
  final counters.
\<close>

record ('db, 'row, 'e) table =
  tb_select :: "'db \<Rightarrow> ('row \<Rightarrow> bool) \<Rightarrow> ('row \<Rightarrow> int) \<Rightarrow> nat option \<Rightarrow> ('e, 'row list) result"
  tb_insert :: "'db \<Rightarrow> 'row \<Rightarrow> ('e, 'row) result \<times> 'db"
  tb_update :: "'db \<Rightarrow> 'row \<Rightarrow> ('e, unit) result \<times> 'db"
  tb_delete :: "'db \<Rightarrow> ('row \<Rightarrow> bool) \<Rightarrow> ('e, nat) result \<times> 'db"

datatype 'e store_error = Database 'e

subsection \<open>The rows\<close>

record station_row =
  sr_id :: int
  sr_callsign :: str
  sr_latitude :: f64
  sr_longitude :: f64
  sr_symbol_table :: "str option"
  sr_symbol_code :: "str option"
  sr_heard_at :: int

record session_row =
  sn_id :: int
  sn_callsign :: str
  sn_remote_addr :: str
  sn_listener :: str
  sn_software :: "str option"
  sn_verified :: bool
  sn_filter :: "str option"
  sn_connected_at :: int
  sn_disconnected_at :: "int option"
  sn_packets_received :: int
  sn_packets_sent :: int
  sn_packets_dropped :: int
  sn_bytes_received :: int
  sn_bytes_sent :: int

record counter_row =
  co_id :: int
  co_name :: str
  co_sampled_at :: int
  co_value :: int

record new_session =
  ns_callsign :: str
  ns_remote_addr :: str
  ns_listener :: str
  ns_software :: "str option"
  ns_verified :: bool
  ns_filter :: "str option"
  ns_connected_at :: int

text \<open>\<open>char::to_string\<close>: the UTF-8 encoding of one code point.\<close>

definition char_to_string :: "uchar \<Rightarrow> str" where
  "char_to_string c =
     (if c < 128 then [char_of c]
      else if c < 2048 then [char_of (192 + c div 64), char_of (128 + c mod 64)]
      else if c < 65536 then
        [char_of (224 + c div 4096), char_of (128 + c div 64 mod 64), char_of (128 + c mod 64)]
      else
        [char_of (240 + c div 262144), char_of (128 + c div 4096 mod 64),
         char_of (128 + c div 64 mod 64), char_of (128 + c mod 64)])"

definition first_char :: "str \<Rightarrow> uchar option" where
  "first_char s = (case chars s of [] \<Rightarrow> None | c # _ \<Rightarrow> Some c)"

definition symbol_from :: "station_row \<Rightarrow> symbol option" where
  "symbol_from row =
     Option.bind (Option.bind (sr_symbol_table row) first_char) (\<lambda>table.
     Option.bind (Option.bind (sr_symbol_code row) first_char) (\<lambda>code.
     Some \<lparr>sy_table = table, sy_code = code\<rparr>))"

subsection \<open>Station positions\<close>

definition load_row :: "station_row \<Rightarrow> position_cache \<Rightarrow> position_cache" where
  "load_row row cache =
     (case position_new (sr_latitude row) (sr_longitude row) of
        Some pos \<Rightarrow> cache_record cache (sr_callsign row) pos (symbol_from row) (sr_heard_at row)
      | None \<Rightarrow> cache)"

definition load_positions ::
  "('db, station_row, 'e) table \<Rightarrow> 'db \<Rightarrow> ('e store_error, position_cache) result" where
  "load_positions stations db =
     and_then (map_err Database (tb_select stations db (\<lambda>_. True) (\<lambda>_. 0) None)) (\<lambda>rows.
     Inr (fold load_row rows cache_new))"

definition save_entry ::
  "('db, station_row, 'e) table \<Rightarrow> 'db \<Rightarrow> position_entry \<Rightarrow> ('e store_error, unit) result \<times> 'db" where
  "save_entry stations db entry =
     (case tb_select stations db (\<lambda>r. sr_callsign r = pe_callsign entry) (\<lambda>_. 0) (Some 1) of
        Inl e \<Rightarrow> (Inl (Database e), db)
      | Inr existing \<Rightarrow>
          (let (table, code) =
             (case pe_symbol entry of
                Some symbol \<Rightarrow>
                  (Some (char_to_string (sy_table symbol)), Some (char_to_string (sy_code symbol)))
              | None \<Rightarrow> (None, None))
           in case existing of
                model # _ \<Rightarrow>
                  map_prod (map_err Database) id
                    (tb_update stations db
                       (model\<lparr>sr_latitude := ps_latitude (pe_position entry),
                              sr_longitude := ps_longitude (pe_position entry),
                              sr_symbol_table := table, sr_symbol_code := code,
                              sr_heard_at := pe_heard_at entry\<rparr>))
              | [] \<Rightarrow>
                  (case tb_insert stations db
                       \<lparr>sr_id = 0, sr_callsign = pe_callsign entry,
                        sr_latitude = ps_latitude (pe_position entry),
                        sr_longitude = ps_longitude (pe_position entry),
                        sr_symbol_table = table, sr_symbol_code = code,
                        sr_heard_at = pe_heard_at entry\<rparr> of
                     (Inl e, db) \<Rightarrow> (Inl (Database e), db)
                   | (Inr _, db) \<Rightarrow> (Inr (), db))))"

fun save_loop ::
  "('db, station_row, 'e) table \<Rightarrow> position_entry list \<Rightarrow> nat \<Rightarrow> 'db \<Rightarrow> ('e store_error, nat) result \<times> 'db" where
  "save_loop stations [] written db = (Inr written, db)"
| "save_loop stations (entry # entries) written db =
     (case save_entry stations db entry of
        (Inl e, db) \<Rightarrow> (Inl e, db)
      | (Inr _, db) \<Rightarrow> save_loop stations entries (written + 1) db)"

definition save_positions ::
  "('db, station_row, 'e) table \<Rightarrow> position_cache \<Rightarrow> 'db \<Rightarrow> ('e store_error, nat) result \<times> 'db" where
  "save_positions stations cache db = save_loop stations (cache_snapshot cache) 0 db"

subsection \<open>The connection log\<close>

definition open_session ::
  "('db, session_row, 'e) table \<Rightarrow> new_session \<Rightarrow> 'db \<Rightarrow> ('e store_error, int) result \<times> 'db" where
  "open_session slog session db =
     (case tb_insert slog db
         \<lparr>sn_id = 0, sn_callsign = ns_callsign session, sn_remote_addr = ns_remote_addr session,
          sn_listener = ns_listener session, sn_software = ns_software session,
          sn_verified = ns_verified session, sn_filter = ns_filter session,
          sn_connected_at = ns_connected_at session, sn_disconnected_at = None,
          sn_packets_received = 0, sn_packets_sent = 0, sn_packets_dropped = 0,
          sn_bytes_received = 0, sn_bytes_sent = 0\<rparr> of
        (Inl e, db) \<Rightarrow> (Inl (Database e), db)
      | (Inr model, db) \<Rightarrow> (Inr (sn_id model), db))"

definition close_session ::
  "('db, session_row, 'e) table \<Rightarrow> int \<Rightarrow> int \<Rightarrow> session_totals \<Rightarrow> 'db \<Rightarrow> ('e store_error, unit) result \<times> 'db" where
  "close_session slog i disconnected_at totals db =
     (case tb_select slog db (\<lambda>r. sn_id r = i) (\<lambda>_. 0) (Some 1) of
        Inl e \<Rightarrow> (Inl (Database e), db)
      | Inr [] \<Rightarrow> (Inr (), db)
      | Inr (model # _) \<Rightarrow>
          map_prod (map_err Database) id
            (tb_update slog db
               (model\<lparr>sn_disconnected_at := Some disconnected_at,
                      sn_packets_received := st_packets_received totals,
                      sn_packets_sent := st_packets_sent totals,
                      sn_packets_dropped := st_packets_dropped totals,
                      sn_bytes_received := st_bytes_received totals,
                      sn_bytes_sent := st_bytes_sent totals\<rparr>)))"

definition recent_sessions ::
  "('db, session_row, 'e) table \<Rightarrow> nat \<Rightarrow> 'db \<Rightarrow> ('e store_error, session_row list) result" where
  "recent_sessions slog limit db =
     map_err Database (tb_select slog db (\<lambda>_. True) (\<lambda>r. - sn_connected_at r) (Some limit))"

subsection \<open>Counter samples\<close>

definition record_counter ::
  "('db, counter_row, 'e) table \<Rightarrow> str \<Rightarrow> int \<Rightarrow> int \<Rightarrow> 'db \<Rightarrow> ('e store_error, unit) result \<times> 'db" where
  "record_counter counters name sampled_at v db =
     (case tb_insert counters db \<lparr>co_id = 0, co_name = name, co_sampled_at = sampled_at, co_value = v\<rparr> of
        (Inl e, db) \<Rightarrow> (Inl (Database e), db)
      | (Inr _, db) \<Rightarrow> (Inr (), db))"

definition counter_history ::
  "('db, counter_row, 'e) table \<Rightarrow> str \<Rightarrow> int \<Rightarrow> 'db \<Rightarrow> ('e store_error, counter_row list) result" where
  "counter_history counters name since db =
     map_err Database (tb_select counters db (\<lambda>r. co_name r = name \<and> co_sampled_at r \<ge> since) co_sampled_at None)"

definition prune_counters ::
  "('db, counter_row, 'e) table \<Rightarrow> int \<Rightarrow> 'db \<Rightarrow> ('e store_error, nat) result \<times> 'db" where
  "prune_counters counters before db =
     map_prod (map_err Database) id (tb_delete counters db (\<lambda>r. co_sampled_at r < before))"

subsection \<open>What is relied on\<close>

text \<open>
  The laws of a table with primary key \<open>rid\<close>: \<open>contents db\<close> are its rows and \<open>db_ok\<close> what the database keeps true of
  itself.
\<close>

definition select_law :: "('db, 'row, 'e) table \<Rightarrow> ('db \<Rightarrow> 'row set) \<Rightarrow> 'db \<Rightarrow> bool" where
  "select_law tb contents db \<longleftrightarrow>
     (\<forall>P key mx rs. tb_select tb db P key mx = Inr rs \<longrightarrow>
        (\<exists>s. set s = {r \<in> contents db. P r} \<and> distinct s \<and> sorted (map key s) \<and>
           rs = (case mx of Some n \<Rightarrow> take n s | None \<Rightarrow> s)))"

definition insert_law ::
  "('db, 'row, 'e) table \<Rightarrow> ('db \<Rightarrow> bool) \<Rightarrow> ('db \<Rightarrow> 'row set) \<Rightarrow> ('row \<Rightarrow> int) \<Rightarrow> (int \<Rightarrow> 'row \<Rightarrow> 'row) \<Rightarrow> 'db \<Rightarrow> bool" where
  "insert_law tb db_ok contents rid set_rid db \<longleftrightarrow>
     (\<forall>r. case tb_insert tb db r of
        (Inl _, db') \<Rightarrow> db_ok db' \<and> contents db' = contents db
      | (Inr r', db') \<Rightarrow> db_ok db' \<and> rid r' \<notin> rid ` contents db \<and> r' = set_rid (rid r') r \<and>
          contents db' = insert r' (contents db))"

definition update_law ::
  "('db, 'row, 'e) table \<Rightarrow> ('db \<Rightarrow> bool) \<Rightarrow> ('db \<Rightarrow> 'row set) \<Rightarrow> ('row \<Rightarrow> int) \<Rightarrow> 'db \<Rightarrow> bool" where
  "update_law tb db_ok contents rid db \<longleftrightarrow>
     (\<forall>r. case tb_update tb db r of
        (Inl _, db') \<Rightarrow> db_ok db' \<and> contents db' = contents db
      | (Inr _, db') \<Rightarrow> db_ok db' \<and> contents db' = (\<lambda>x. if rid x = rid r then r else x) ` contents db)"

definition delete_law ::
  "('db, 'row, 'e) table \<Rightarrow> ('db \<Rightarrow> bool) \<Rightarrow> ('db \<Rightarrow> 'row set) \<Rightarrow> 'db \<Rightarrow> bool" where
  "delete_law tb db_ok contents db \<longleftrightarrow>
     (\<forall>P. case tb_delete tb db P of
        (Inl _, db') \<Rightarrow> db_ok db' \<and> contents db' = contents db
      | (Inr _, db') \<Rightarrow> db_ok db' \<and> contents db' = {x \<in> contents db. \<not> P x})"

definition table_laws ::
  "('db, 'row, 'e) table \<Rightarrow> ('db \<Rightarrow> bool) \<Rightarrow> ('db \<Rightarrow> 'row set) \<Rightarrow> ('row \<Rightarrow> int) \<Rightarrow> (int \<Rightarrow> 'row \<Rightarrow> 'row) \<Rightarrow> bool" where
  "table_laws tb db_ok contents rid set_rid \<longleftrightarrow>
     (\<forall>db. db_ok db \<longrightarrow>
       inj_on rid (contents db) \<and> select_law tb contents db \<and> insert_law tb db_ok contents rid set_rid db \<and>
       update_law tb db_ok contents rid db \<and> delete_law tb db_ok contents db)"

lemma laws_select:
  assumes "table_laws tb db_ok contents rid set_rid" and "db_ok db" and "tb_select tb db P key mx = Inr rs"
  obtains s where "set s = {r \<in> contents db. P r}" and "distinct s" and "sorted (map key s)"
    and "rs = (case mx of Some n \<Rightarrow> take n s | None \<Rightarrow> s)"
proof -
  have "select_law tb contents db" using assms(1,2) by (simp add: table_laws_def)
  then show thesis using assms(3) that unfolding select_law_def by blast
qed

lemma laws_insert:
  assumes "table_laws tb db_ok contents rid set_rid" and "db_ok db" and "tb_insert tb db r = (x, db')"
  shows "db_ok db'" and "x = Inl e \<Longrightarrow> contents db' = contents db"
    and "x = Inr r' \<Longrightarrow> rid r' \<notin> rid ` contents db \<and> r' = set_rid (rid r') r \<and>
      contents db' = insert r' (contents db)"
proof -
  have "insert_law tb db_ok contents rid set_rid db" using assms(1,2) by (simp add: table_laws_def)
  from this [unfolded insert_law_def, rule_format, of r] assms(3)
  show "db_ok db'" "x = Inl e \<Longrightarrow> contents db' = contents db"
    "x = Inr r' \<Longrightarrow> rid r' \<notin> rid ` contents db \<and> r' = set_rid (rid r') r \<and>
      contents db' = insert r' (contents db)"
    by (auto split: sum.splits)
qed

lemma laws_update:
  assumes "table_laws tb db_ok contents rid set_rid" and "db_ok db" and "tb_update tb db r = (x, db')"
  shows "db_ok db'" and "x = Inl e \<Longrightarrow> contents db' = contents db"
    and "x = Inr u \<Longrightarrow> contents db' = (\<lambda>x. if rid x = rid r then r else x) ` contents db"
proof -
  have "update_law tb db_ok contents rid db" using assms(1,2) by (simp add: table_laws_def)
  from this [unfolded update_law_def, rule_format, of r] assms(3)
  show "db_ok db'" "x = Inl e \<Longrightarrow> contents db' = contents db"
    "x = Inr u \<Longrightarrow> contents db' = (\<lambda>x. if rid x = rid r then r else x) ` contents db"
    by (auto split: sum.splits)
qed

lemma laws_delete:
  assumes "table_laws tb db_ok contents rid set_rid" and "db_ok db" and "tb_delete tb db P = (x, db')"
  shows "db_ok db'" and "x = Inl e \<Longrightarrow> contents db' = contents db"
    and "x = Inr n \<Longrightarrow> contents db' = {x \<in> contents db. \<not> P x}"
proof -
  have "delete_law tb db_ok contents db" using assms(1,2) by (simp add: table_laws_def)
  from this [unfolded delete_law_def, rule_format, of P] assms(3)
  show "db_ok db'" "x = Inl e \<Longrightarrow> contents db' = contents db"
    "x = Inr n \<Longrightarrow> contents db' = {x \<in> contents db. \<not> P x}"
    by (auto split: sum.splits)
qed

lemma laws_id: "table_laws tb db_ok contents rid set_rid \<Longrightarrow> db_ok db \<Longrightarrow> inj_on rid (contents db)"
  by (simp add: table_laws_def)

text \<open>A lookup by a predicate that finds at most one row.\<close>

lemma laws_find:
  assumes "table_laws tb db_ok contents rid set_rid" and "db_ok db"
    and "tb_select tb db P key (Some 1) = Inr rs"
  shows "rs = [] \<and> {r \<in> contents db. P r} = {} \<or> (\<exists>r. rs = [r] \<and> r \<in> contents db \<and> P r)"
proof -
  from assms obtain s where s: "set s = {r \<in> contents db. P r}" "rs = take 1 s"
    by (rule laws_select) simp
  then show ?thesis by (cases s) auto
qed

subsection \<open>Characters in text columns\<close>

definition scalar :: "uchar \<Rightarrow> bool" where
  "scalar c \<longleftrightarrow> c < 55296 \<or> 57344 \<le> c \<and> c < 1114112"

lemma chars_to_string:
  assumes "scalar c"
  shows "chars (char_to_string c) = [c]"
proof -
  consider (one) "c < 128" | (two) "128 \<le> c" "c < 2048" | (three) "2048 \<le> c" "c < 65536"
    | (four) "65536 \<le> c" "c < 1114112"
    using assms unfolding scalar_def by linarith
  then show ?thesis
  proof cases
    case one
    then show ?thesis
      by (simp add: char_to_string_def chars_def code_point_def is_ascii_def utf8_width_def)
  next
    case two
    define y z where "y = c div 64" and "z = c mod 64"
    have c: "c = y * 64 + z" by (simp add: y_def z_def)
    have b: "2 \<le> y" "y < 32" "z < 64" using two by (auto simp: y_def z_def)
    have o: "ord (char_of (192 + y) :: char) = 192 + y" "ord (char_of (128 + z) :: char) = 128 + z"
      using b by (simp_all add: ord_char_of_lt)
    have d: "(192 + y) mod 32 = y" "(128 + z) mod 64 = z"
      using b mod_by_offset [of 192 "192 + y" 32] mod_by_offset [of 128 "128 + z" 64] by simp_all
    have t: "char_to_string c = [char_of (192 + y), char_of (128 + z)]"
      using two by (simp add: char_to_string_def y_def z_def)
    show ?thesis
      unfolding t using b
      by (simp add: chars_def code_point_def utf8_width_def in_range_def is_cont_def o d c)
  next
    case three
    define x y z where "x = c div 4096" and "y = c div 64 mod 64" and "z = c mod 64"
    have "c div 4096 = c div 64 div 64" by (simp add: div_mult2_eq [symmetric])
    then have c: "c = x * 4096 + y * 64 + z"
      using div_mult_mod_eq [of c 64] div_mult_mod_eq [of "c div 64" 64] unfolding x_def y_def z_def by linarith
    have b: "y < 64" "z < 64" by (simp_all add: y_def z_def)
    have x: "x < 16" using three c by simp
    have o: "ord (char_of (224 + x) :: char) = 224 + x" "ord (char_of (128 + y) :: char) = 128 + y"
      "ord (char_of (128 + z) :: char) = 128 + z"
      using b x by (simp_all add: ord_char_of_lt)
    have d: "(224 + x) mod 16 = x" "(128 + y) mod 64 = y" "(128 + z) mod 64 = z"
      using b x mod_by_offset [of 224 "224 + x" 16] mod_by_offset [of 128 "128 + y" 64]
        mod_by_offset [of 128 "128 + z" 64] by simp_all
    have t: "char_to_string c = [char_of (224 + x), char_of (128 + y), char_of (128 + z)]"
      using three by (simp add: char_to_string_def x_def y_def z_def)
    have "x = 0 \<longrightarrow> 32 \<le> y" "x = 13 \<longrightarrow> y < 32" using three assms b by (auto simp: c scalar_def)
    then have v: "valid_seg [char_of (224 + x), char_of (128 + y), char_of (128 + z)]"
      using x b by (simp add: o in_range_def is_cont_def) linarith
    show ?thesis
      unfolding t using v x b by (simp add: chars_def code_point_def utf8_width_def o d c)
  next
    case four
    define w x y z where "w = c div 262144" and "x = c div 4096 mod 64" and "y = c div 64 mod 64"
      and "z = c mod 64"
    have "c div 4096 = c div 64 div 64" "c div 262144 = c div 4096 div 64"
      by (simp_all add: div_mult2_eq [symmetric])
    then have c: "c = w * 262144 + x * 4096 + y * 64 + z"
      using div_mult_mod_eq [of c 64] div_mult_mod_eq [of "c div 64" 64] div_mult_mod_eq [of "c div 4096" 64]
      unfolding w_def x_def y_def z_def by linarith
    have b: "x < 64" "y < 64" "z < 64" by (simp_all add: x_def y_def z_def)
    have w: "w < 5" using four c by simp
    have o: "ord (char_of (240 + w) :: char) = 240 + w" "ord (char_of (128 + x) :: char) = 128 + x"
      "ord (char_of (128 + y) :: char) = 128 + y" "ord (char_of (128 + z) :: char) = 128 + z"
      using b w by (simp_all add: ord_char_of_lt)
    have d: "(240 + w) mod 8 = w" "(128 + x) mod 64 = x" "(128 + y) mod 64 = y" "(128 + z) mod 64 = z"
      using b w mod_by_offset [of 240 "240 + w" 8] mod_by_offset [of 128 "128 + x" 64]
        mod_by_offset [of 128 "128 + y" 64] mod_by_offset [of 128 "128 + z" 64] by simp_all
    have t: "char_to_string c = [char_of (240 + w), char_of (128 + x), char_of (128 + y), char_of (128 + z)]"
      using four by (simp add: char_to_string_def w_def x_def y_def z_def)
    have "w = 0 \<longrightarrow> 16 \<le> x" "w = 4 \<longrightarrow> x < 16" using four b by (auto simp: c)
    then have v: "valid_seg [char_of (240 + w), char_of (128 + x), char_of (128 + y), char_of (128 + z)]"
      using w b by (simp add: o in_range_def is_cont_def) linarith
    show ?thesis
      unfolding t using v w b by (simp add: chars_def code_point_def utf8_width_def o d c)
  qed
qed

lemma first_char_to_string: "scalar c \<Longrightarrow> first_char (char_to_string c) = Some c"
  by (simp add: first_char_def chars_to_string)

subsection \<open>What a save leaves in the table\<close>

fun saved :: "position_entry \<Rightarrow> station_row \<Rightarrow> bool" where
  "saved e r \<longleftrightarrow>
     sr_callsign r = pe_callsign e \<and> sr_latitude r = ps_latitude (pe_position e) \<and>
     sr_longitude r = ps_longitude (pe_position e) \<and> sr_heard_at r = pe_heard_at e \<and>
     sr_symbol_table r = map_option (char_to_string \<circ> sy_table) (pe_symbol e) \<and>
     sr_symbol_code r = map_option (char_to_string \<circ> sy_code) (pe_symbol e)"

declare saved.simps [simp del]

lemma save_entry_ok:
  assumes laws: "table_laws tb db_ok contents sr_id (\<lambda>i r. r\<lparr>sr_id := i\<rparr>)" and ok: "db_ok db"
    and unique: "inj_on sr_callsign (contents db)"
    and save: "save_entry tb db e = (x, db')"
  shows "db_ok db'"
    and "x = Inl err \<Longrightarrow> contents db' = contents db"
    and "x = Inr u \<Longrightarrow>
      (\<exists>r. saved e r \<and> contents db' = insert r {q \<in> contents db. sr_callsign q \<noteq> pe_callsign e})"
proof -
  let ?P = "\<lambda>r. sr_callsign r = pe_callsign e"
  have goal: "db_ok db' \<and> (case x of Inl err \<Rightarrow> contents db' = contents db
      | Inr u \<Rightarrow> \<exists>r. saved e r \<and> contents db' = insert r {q \<in> contents db. \<not> ?P q})"
  proof (cases "tb_select tb db ?P (\<lambda>_. 0) (Some 1)")
    case (Inl err)
    with save ok show ?thesis by (auto simp: save_entry_def)
  next
    case (Inr rs)
    from laws_find [OF laws ok Inr] consider (new) "rs = []" "{r \<in> contents db. ?P r} = {}"
      | (old) r where "rs = [r]" "r \<in> contents db" "?P r" by auto
    then show ?thesis
    proof cases
      case new
      let ?r = "\<lparr>sr_id = 0, sr_callsign = pe_callsign e, sr_latitude = ps_latitude (pe_position e),
        sr_longitude = ps_longitude (pe_position e),
        sr_symbol_table = map_option (char_to_string \<circ> sy_table) (pe_symbol e),
        sr_symbol_code = map_option (char_to_string \<circ> sy_code) (pe_symbol e),
        sr_heard_at = pe_heard_at e\<rparr>"
      obtain y db1 where i: "tb_insert tb db ?r = (y, db1)" by fastforce
      have s: "(x, db') = (map_err Database (map_sum id (\<lambda>_. ()) y), db1)"
        using save Inr new(1) i by (cases "pe_symbol e") (auto simp: save_entry_def split: sum.splits)
      have rest: "{q \<in> contents db. \<not> ?P q} = contents db" using new(2) by auto
      note l = laws_insert [OF laws ok i]
      show ?thesis
      proof (cases y)
        case Inl: (Inl a)
        then show ?thesis using s l(1) l(2) [OF Inl] by simp
      next
        case Inr: (Inr r')
        from l(3) [OF Inr] have "r' = ?r\<lparr>sr_id := sr_id r'\<rparr>" and c: "contents db1 = insert r' (contents db)"
          by simp_all
        then have "saved e r'" by (metis (mono_tags, lifting) saved.simps station_row.simps(2-7) station_row.update_convs(1))
        then show ?thesis using s l(1) c Inr rest by auto
      qed
    next
      case (old r)
      let ?r = "r\<lparr>sr_latitude := ps_latitude (pe_position e), sr_longitude := ps_longitude (pe_position e),
        sr_symbol_table := map_option (char_to_string \<circ> sy_table) (pe_symbol e),
        sr_symbol_code := map_option (char_to_string \<circ> sy_code) (pe_symbol e),
        sr_heard_at := pe_heard_at e\<rparr>"
      obtain y db1 where i: "tb_update tb db ?r = (y, db1)" by fastforce
      have s: "(x, db') = (map_err Database y, db1)"
        using save Inr old(1) i by (cases "pe_symbol e") (auto simp: save_entry_def)
      note l = laws_update [OF laws ok i]
      show ?thesis
      proof (cases y)
        case Inl: (Inl a)
        then show ?thesis using s l(1) l(2) [OF Inl] by simp
      next
        case Inr: (Inr u)
        have "sr_id q = sr_id r \<longleftrightarrow> q = r" "?P q \<longleftrightarrow> q = r" if "q \<in> contents db" for q
          using that old laws_id [OF laws ok] unique by (auto simp: inj_on_def)
        then have "contents db1 = insert ?r {q \<in> contents db. \<not> ?P q}"
          using l(3) [OF Inr] old(2) by (force simp: image_iff)
        moreover have "saved e ?r" using old(3) by (simp add: saved.simps)
        ultimately show ?thesis using s l(1) Inr by auto
      qed
    qed
  qed
  show "db_ok db'" using goal by simp
  show "contents db' = contents db" if "x = Inl err" using goal that by simp
  show "\<exists>r. saved e r \<and> contents db' = insert r {q \<in> contents db. sr_callsign q \<noteq> pe_callsign e}"
    if "x = Inr u" using goal that by simp
qed

abbreviation stations_laws ::
  "('db, station_row, 'e) table \<Rightarrow> ('db \<Rightarrow> bool) \<Rightarrow> ('db \<Rightarrow> station_row set) \<Rightarrow> bool" where
  "stations_laws tb db_ok contents \<equiv> table_laws tb db_ok contents sr_id (\<lambda>i r. r\<lparr>sr_id := i\<rparr>)"

text \<open>The rows a save has reached are the entries, the others are as before; one row per callsign.\<close>

definition saved_rows :: "position_entry list \<Rightarrow> station_row set \<Rightarrow> station_row set \<Rightarrow> bool" where
  "saved_rows es before after \<longleftrightarrow>
     inj_on sr_callsign after \<and> (\<forall>e \<in> set es. \<exists>r \<in> after. saved e r) \<and>
     {q \<in> after. sr_callsign q \<notin> pe_callsign ` set es} = {q \<in> before. sr_callsign q \<notin> pe_callsign ` set es}"

lemma saved_callsign: "saved e r \<Longrightarrow> sr_callsign r = pe_callsign e"
  by (simp add: saved.simps)

lemma saved_rows_Cons:
  assumes "saved e r" and "saved_rows es (insert r {q \<in> before. sr_callsign q \<noteq> pe_callsign e}) after"
    and "pe_callsign e \<notin> pe_callsign ` set es"
  shows "saved_rows (e # es) before after"
proof -
  let ?mid = "insert r {q \<in> before. sr_callsign q \<noteq> pe_callsign e}"
  have rest: "{q \<in> after. sr_callsign q \<notin> pe_callsign ` set es} =
      {q \<in> ?mid. sr_callsign q \<notin> pe_callsign ` set es}"
    using assms(2) by (simp add: saved_rows_def)
  have "r \<in> {q \<in> ?mid. sr_callsign q \<notin> pe_callsign ` set es}"
    using assms(3) saved_callsign [OF assms(1)] by simp
  then have r: "r \<in> after" using rest by blast
  have "{q \<in> after. sr_callsign q \<notin> pe_callsign ` set (e # es)} =
      {q \<in> {q \<in> after. sr_callsign q \<notin> pe_callsign ` set es}. sr_callsign q \<noteq> pe_callsign e}" by auto
  also have "\<dots> = {q \<in> before. sr_callsign q \<notin> pe_callsign ` set (e # es)}"
    unfolding rest using saved_callsign [OF assms(1)] by auto
  finally show ?thesis using assms(1,2) r by (auto simp: saved_rows_def)
qed

lemma save_loop_ok:
  assumes laws: "stations_laws tb db_ok contents"
  shows "db_ok db \<Longrightarrow> inj_on sr_callsign (contents db) \<Longrightarrow> distinct (map pe_callsign es) \<Longrightarrow>
    save_loop tb es n db = (x, db') \<Longrightarrow>
      db_ok db' \<and> (\<exists>k \<le> length es. saved_rows (take k es) (contents db) (contents db') \<and>
        (case x of Inl _ \<Rightarrow> True | Inr m \<Rightarrow> m = n + length es \<and> k = length es))"
proof (induction es arbitrary: n db)
  case Nil
  then show ?case by (auto simp: saved_rows_def)
next
  case (Cons e es)
  obtain y db1 where e: "save_entry tb db e = (y, db1)" by fastforce
  note l = save_entry_ok [OF laws Cons.prems(1,2) e]
  show ?case
  proof (cases y)
    case Inl: (Inl err)
    with Cons.prems e l(1) l(2) [OF Inl] show ?thesis
      by (intro conjI exI [of _ 0]) (auto simp: saved_rows_def)
  next
    case Inr: (Inr u)
    from l(3) [OF Inr] obtain r where r: "saved e r"
      "contents db1 = insert r {q \<in> contents db. sr_callsign q \<noteq> pe_callsign e}" by blast
    have u: "inj_on sr_callsign (contents db1)"
      using Cons.prems(2) saved_callsign [OF r(1)] by (auto simp: r(2) inj_on_def)
    have s: "save_loop tb es (n + 1) db1 = (x, db')" and d: "distinct (map pe_callsign es)"
      using Cons.prems(3,4) e Inr by simp_all
    from Cons.IH [OF l(1) u d s] obtain k where k: "db_ok db'" "k \<le> length es"
      "saved_rows (take k es) (contents db1) (contents db')"
      "case x of Inl _ \<Rightarrow> True | Inr m \<Rightarrow> m = n + 1 + length es \<and> k = length es" by blast
    have "pe_callsign e \<notin> pe_callsign ` set (take k es)"
      using Cons.prems(3) by (auto dest: in_set_takeD)
    from saved_rows_Cons [OF r(1) k(3) [unfolded r(2)] this] k
    show ?thesis by (intro conjI exI [of _ "Suc k"]) (auto split: sum.splits)
  qed
qed

subsection \<open>What a load makes of the table\<close>

definition row_cached :: "station_row \<Rightarrow> cached_position option" where
  "row_cached r =
     map_option (\<lambda>p. \<lparr>ca_position = p, ca_symbol = symbol_from r, ca_heard_at = sr_heard_at r\<rparr>)
       (position_new (sr_latitude r) (sr_longitude r))"

lemma load_row_other: "to_ascii_uppercase (sr_callsign r) \<noteq> k \<Longrightarrow> map_of (load_row r c) k = map_of c k"
  by (auto simp: load_row_def cache_record_def Let_def update_conv' split: option.splits)

lemma load_row_same:
  "map_of c (to_ascii_uppercase (sr_callsign r)) = None \<Longrightarrow>
     map_of (load_row r c) (to_ascii_uppercase (sr_callsign r)) = row_cached r"
  by (auto simp: load_row_def row_cached_def cache_record_def Let_def update_conv' split: option.splits)

lemma fold_load_other:
  "\<forall>r \<in> set rows. to_ascii_uppercase (sr_callsign r) \<noteq> k \<Longrightarrow> map_of (fold load_row rows c) k = map_of c k"
  by (induction rows arbitrary: c) (auto simp: load_row_other)

lemma fold_load_row:
  assumes "distinct rows" and "inj_on sr_callsign (set rows)" and "r \<in> set rows"
    and upper: "\<forall>r \<in> set rows. to_ascii_uppercase (sr_callsign r) = sr_callsign r"
    and "map_of c (sr_callsign r) = None"
  shows "map_of (fold load_row rows c) (sr_callsign r) = row_cached r"
proof -
  from split_list [OF assms(3)] obtain xs ys where s: "rows = xs @ r # ys" by blast
  have o: "\<forall>q \<in> set xs \<union> set ys. to_ascii_uppercase (sr_callsign q) \<noteq> sr_callsign r"
    using assms(1,2) upper by (auto simp: s inj_on_def)
  have u: "to_ascii_uppercase (sr_callsign r) = sr_callsign r" using upper assms(3) by blast
  have "map_of (fold load_row xs c) (sr_callsign r) = None"
    using fold_load_other [of xs "sr_callsign r" c] o assms(5) by simp
  with load_row_same [of "fold load_row xs c" r] u
  have "map_of (load_row r (fold load_row xs c)) (sr_callsign r) = row_cached r" by simp
  with fold_load_other [of ys "sr_callsign r"] o show ?thesis by (simp add: s)
qed

lemma load_positions_lookup:
  assumes laws: "stations_laws tb db_ok contents" and ok: "db_ok db"
    and "inj_on sr_callsign (contents db)"
    and "\<forall>r \<in> contents db. to_ascii_uppercase (sr_callsign r) = sr_callsign r"
    and "load_positions tb db = Inr cache"
  shows "r \<in> contents db \<Longrightarrow> map_of cache (sr_callsign r) = row_cached r"
    and "k \<notin> sr_callsign ` contents db \<Longrightarrow> map_of cache k = None"
proof -
  from assms(5) obtain rows where r: "tb_select tb db (\<lambda>_. True) (\<lambda>_. 0) None = Inr rows"
    and c: "cache = fold load_row rows cache_new"
    by (auto simp: load_positions_def res_simps)
  from laws_select [OF laws ok r] have rows: "set rows = contents db" "distinct rows" by auto
  show "map_of cache (sr_callsign r) = row_cached r" if "r \<in> contents db"
    unfolding c by (rule fold_load_row) (use that assms(3,4) rows in \<open>auto simp: cache_new_def\<close>)
  show "map_of cache k = None" if "k \<notin> sr_callsign ` contents db"
    unfolding c using fold_load_other [of rows k cache_new] that assms(4) rows
    by (force simp: cache_new_def)
qed

lemma position_new_of_ok:
  "position_ok p \<Longrightarrow> position_new (ps_latitude p) (ps_longitude p) = Some p"
  by (auto simp: position_new_def position_ok_def in_closed_def le_f64_val f64_bounds)

definition cached_chars_ok :: "position_cache \<Rightarrow> bool" where
  "cached_chars_ok cache \<longleftrightarrow>
     list_all (\<lambda>(_, c). case ca_symbol c of None \<Rightarrow> True | Some s \<Rightarrow> scalar (sy_table s) \<and> scalar (sy_code s)) cache"

lemma saved_row_cached:
  assumes "saved e r" and "position_ok (pe_position e)"
    and "case pe_symbol e of None \<Rightarrow> True | Some s \<Rightarrow> scalar (sy_table s) \<and> scalar (sy_code s)"
  shows "row_cached r =
    Some \<lparr>ca_position = pe_position e, ca_symbol = pe_symbol e, ca_heard_at = pe_heard_at e\<rparr>"
proof -
  have "symbol_from r = pe_symbol e"
    using assms(1,3) by (cases "pe_symbol e") (auto simp: symbol_from_def saved.simps first_char_to_string)
  with assms(1,2) show ?thesis by (simp add: row_cached_def saved.simps position_new_of_ok)
qed

text \<open>A save, complete or broken off, keeps the shape of the table and adds stations of the cache only.\<close>

lemma snapshot_keys:
  assumes "cache_inv cache"
  shows "distinct (map pe_callsign (cache_snapshot cache))"
    and "pe_callsign ` set (cache_snapshot cache) = dom (map_of cache)"
    and "k \<in> dom (map_of cache) \<Longrightarrow> to_ascii_uppercase k = k"
  using assms
  by (auto simp: cache_inv_def cache_snapshot_def comp_def case_prod_beta dom_map_of_conv_image_fst image_image
      list_all_iff)

lemma save_keeps_shape:
  assumes laws: "stations_laws tb db_ok contents" and ok: "db_ok db"
    and unique: "inj_on sr_callsign (contents db)"
    and upper: "\<forall>r \<in> contents db. to_ascii_uppercase (sr_callsign r) = sr_callsign r"
    and inv: "cache_inv cache" and save: "save_positions tb cache db = (x, db')"
  shows "db_ok db'" and "inj_on sr_callsign (contents db')"
    and "\<forall>r \<in> contents db'. to_ascii_uppercase (sr_callsign r) = sr_callsign r"
    and "r \<in> contents db' \<Longrightarrow> sr_callsign r \<notin> dom (map_of cache) \<Longrightarrow> r \<in> contents db"
proof -
  note keys = snapshot_keys [OF inv]
  from save_loop_ok [OF laws ok unique keys(1) save [unfolded save_positions_def]]
  obtain k where k: "db_ok db'" "saved_rows (take k (cache_snapshot cache)) (contents db) (contents db')" by blast
  then show "db_ok db'" "inj_on sr_callsign (contents db')" by (simp_all add: saved_rows_def)
  have "pe_callsign ` set (take k (cache_snapshot cache)) \<subseteq> dom (map_of cache)"
    unfolding keys(2) [symmetric] by (intro image_mono set_take_subset)
  then have old: "r \<in> contents db" if "r \<in> contents db'" "sr_callsign r \<notin> dom (map_of cache)" for r
    using k(2) that unfolding saved_rows_def by blast
  then show "\<forall>r \<in> contents db'. to_ascii_uppercase (sr_callsign r) = sr_callsign r"
    using keys(3) upper by blast
  show "r \<in> contents db" if "r \<in> contents db'" "sr_callsign r \<notin> dom (map_of cache)" using old that by blast
qed

text \<open>What a load finds after a complete save.\<close>

lemma save_then_load:
  assumes laws: "stations_laws tb db_ok contents" and ok: "db_ok db"
    and unique: "inj_on sr_callsign (contents db)"
    and upper: "\<forall>r \<in> contents db. to_ascii_uppercase (sr_callsign r) = sr_callsign r"
    and cache: "cache_inv cache" "cached_chars_ok cache"
    and save: "save_positions tb cache db = (Inr n, db')"
    and load: "load_positions tb db' = Inr new"
  shows "n = cache_len cache" and "map_of cache k = Some c \<Longrightarrow> map_of new k = Some c"
    and "r \<in> contents db \<Longrightarrow> sr_callsign r \<notin> dom (map_of cache) \<Longrightarrow> map_of new (sr_callsign r) = row_cached r"
    and "k \<notin> dom (map_of cache) \<Longrightarrow> k \<notin> sr_callsign ` contents db \<Longrightarrow> map_of new k = None"
proof -
  let ?es = "cache_snapshot cache"
  note keys = snapshot_keys [OF cache(1)]
    and shape = save_keeps_shape [OF laws ok unique upper cache(1) save]
  from save_loop_ok [OF laws ok unique keys(1) save [unfolded save_positions_def]]
  have n: "n = length ?es" and rows: "saved_rows ?es (contents db) (contents db')" by auto
  show "n = cache_len cache" using n by (simp add: cache_len_def cache_snapshot_def)
  have in0: "r \<in> contents db'" if "r \<in> contents db" "sr_callsign r \<notin> dom (map_of cache)" for r
    using rows that unfolding saved_rows_def keys(2) by blast
  note new = load_positions_lookup [OF laws shape(1,2,3) load]
  show "map_of new k = Some c" if "map_of cache k = Some c" for k c
  proof -
    let ?e = "\<lparr>pe_callsign = k, pe_position = ca_position c, pe_symbol = ca_symbol c, pe_heard_at = ca_heard_at c\<rparr>"
    have m: "(k, c) \<in> set cache" using that by (rule map_of_SomeD)
    then have "?e \<in> set ?es" by (force simp: cache_snapshot_def)
    then obtain r where r: "r \<in> contents db'" "saved ?e r" using rows by (auto simp: saved_rows_def)
    have "position_ok (ca_position c)" using cache(1) m by (auto simp: cache_inv_def list_all_iff)
    moreover have "case ca_symbol c of None \<Rightarrow> True | Some s \<Rightarrow> scalar (sy_table s) \<and> scalar (sy_code s)"
      using cache(2) m by (auto simp: cached_chars_ok_def list_all_iff)
    ultimately have "row_cached r = Some c" using saved_row_cached [OF r(2)] by simp
    then show ?thesis using new(1) [OF r(1)] saved_callsign [OF r(2)] by simp
  qed
  show "map_of new (sr_callsign r) = row_cached r"
    if "r \<in> contents db" "sr_callsign r \<notin> dom (map_of cache)" for r
    using new(1) [OF in0 [OF that]] .
  show "map_of new k = None" if "k \<notin> dom (map_of cache)" "k \<notin> sr_callsign ` contents db" for k
    by (rule new(2)) (use shape(4) that in blast)
qed

text \<open>Station positions survive a restart: after a successful save, loading the table gives a
  cache that answers for every station the saved cache held with exactly what it held (position,
  symbol and time), and for every other station with what the table held before. Both the update of
  known rows and the insertion of new ones are covered, and the table keeps one row per callsign.\<close>

theorem positions_survive_restart:
  assumes laws: "stations_laws tb db_ok contents" and ok: "db_ok db"
    and unique: "inj_on sr_callsign (contents db)"
    and upper: "\<forall>r \<in> contents db. to_ascii_uppercase (sr_callsign r) = sr_callsign r"
    and cache: "cache_inv cache" "cached_chars_ok cache"
    and save: "save_positions tb cache db = (Inr n, db')"
    and load: "load_positions tb db = Inr old" "load_positions tb db' = Inr new"
  shows "n = cache_len cache \<and> map_of new = map_of old ++ map_of cache \<and> inj_on sr_callsign (contents db')"
proof -
  note old = load_positions_lookup [OF laws ok unique upper load(1)]
    and new = save_then_load [OF laws ok unique upper cache save load(2)]
  have "map_of new k = (map_of old ++ map_of cache) k" for k
  proof (cases "map_of cache k")
    case None
    then have k: "k \<notin> dom (map_of cache)" by auto
    show ?thesis
    proof (cases "k \<in> sr_callsign ` contents db")
      case True
      then obtain r where r: "r \<in> contents db" "k = sr_callsign r" by blast
      then show ?thesis using old(1) [OF r(1)] new(3) [OF r(1)] k None by (simp add: map_add_def)
    next
      case False
      then show ?thesis using old(2) [OF False] new(4) [OF k False] None by (simp add: map_add_def)
    qed
  qed (simp add: new(2))
  then show ?thesis
    using new(1) save_keeps_shape(2) [OF laws ok unique upper cache(1) save] by (simp add: fun_eq_iff)
qed

text \<open>A table kept as a list of rows, on which every statement succeeds.\<close>

definition list_table :: "('row \<Rightarrow> int) \<Rightarrow> (int \<Rightarrow> 'row \<Rightarrow> 'row) \<Rightarrow> ('row list, 'row, unit) table" where
  "list_table rid set_rid =
     \<lparr>tb_select = (\<lambda>db P key mx.
        Inr (let s = sort_key key (filter P db) in case mx of Some n \<Rightarrow> take n s | None \<Rightarrow> s)),
      tb_insert = (\<lambda>db r.
        let r' = set_rid (1 + foldr max (map rid db) 0) r in (Inr r', db @ [r'])),
      tb_update = (\<lambda>db r. (Inr (), map (\<lambda>x. if rid x = rid r then r else x) db)),
      tb_delete = (\<lambda>db P. (Inr (length (filter P db)), filter (\<lambda>x. \<not> P x) db))\<rparr>"

lemma fresh_id: "i \<in> set is \<Longrightarrow> (i :: int) < 1 + foldr max is 0"
  by (induction "is") auto

lemma list_table_laws:
  assumes set: "\<And>i r. rid (set_rid i r) = i"
  shows "table_laws (list_table rid set_rid) (\<lambda>db. distinct (map rid db)) set rid set_rid"
proof -
  let ?t = "list_table rid set_rid" and ?ok = "\<lambda>db. distinct (map rid db)"
  have "select_law ?t set db" if "distinct (map rid db)" for db
    unfolding select_law_def
  proof (intro allI impI)
    fix P key mx rs
    assume "tb_select ?t db P key mx = Inr rs"
    then show "\<exists>s. set s = {r \<in> set db. P r} \<and> distinct s \<and> sorted (map key s) \<and>
        rs = (case mx of Some n \<Rightarrow> take n s | None \<Rightarrow> s)"
      using that by (intro exI [of _ "sort_key key (filter P db)"])
        (auto simp: list_table_def Let_def distinct_map)
  qed
  moreover have "insert_law ?t ?ok set rid set_rid db" if "distinct (map rid db)" for db
  proof -
    let ?i = "1 + foldr max (map rid db) 0"
    have "?i \<notin> rid ` set db" using fresh_id [of _ "map rid db"] by fastforce
    then show ?thesis
      using that by (simp add: insert_law_def list_table_def Let_def set)
  qed
  moreover have "update_law ?t ?ok set rid db" if "distinct (map rid db)" for db
  proof -
    have "rid \<circ> (\<lambda>x. if rid x = rid r then r else x) = rid" for r by (simp add: fun_eq_iff)
    then show ?thesis using that by (simp add: update_law_def list_table_def)
  qed
  moreover have "delete_law ?t ?ok set db" if "distinct (map rid db)" for db
    using that by (auto simp: delete_law_def list_table_def distinct_map_filter)
  ultimately show ?thesis by (auto simp: table_laws_def distinct_map)
qed

definition list_stations :: "(station_row list, station_row, unit) table" where
  "list_stations = list_table sr_id (\<lambda>i r. r\<lparr>sr_id := i\<rparr>)"

definition sample_row :: "int \<Rightarrow> str \<Rightarrow> station_row" where
  "sample_row i call =
     \<lparr>sr_id = i, sr_callsign = call, sr_latitude = f64_of_int 60, sr_longitude = f64_of_int 25,
      sr_symbol_table = Some ''/'', sr_symbol_code = None, sr_heard_at = 10\<rparr>"

definition sample_cache :: position_cache where
  "sample_cache = cache_record cache_new ''n0call'' \<lparr>ps_latitude = f64_of_int 61, ps_longitude = f64_of_int 24\<rparr>
     (Some \<lparr>sy_table = 47, sy_code = 1025\<rparr>) 20"

theorem positions_survive_restart_witness:
  "\<exists>db' new. save_positions list_stations sample_cache [sample_row 1 ''N0CALL'', sample_row 2 ''N0SPAM''] =
       (Inr 1, db') \<and>
     load_positions list_stations db' = Inr new \<and>
     map_option ca_heard_at (map_of new ''N0CALL'') = Some 20 \<and>
     map_option ca_heard_at (map_of new ''N0SPAM'') = Some 10"
proof -
  let ?db = "[sample_row 1 ''N0CALL'', sample_row 2 ''N0SPAM'']"
  have laws: "stations_laws list_stations (\<lambda>db. distinct (map sr_id db)) set"
    unfolding list_stations_def by (rule list_table_laws) simp
  have ok: "distinct (map sr_id ?db)" and unique: "inj_on sr_callsign (set ?db)"
    by (simp_all add: sample_row_def)
  have upper: "\<forall>r \<in> set ?db. to_ascii_uppercase (sr_callsign r) = sr_callsign r"
    by (simp add: sample_row_def) code_simp
  have inv: "cache_inv sample_cache"
    unfolding sample_cache_def
    by (rule cache_inv_record) (simp add: cache_inv_def cache_new_def, simp add: position_ok_def, code_simp)
  have u: "to_ascii_uppercase ''n0call'' = ''N0CALL''" by code_simp
  then have m: "map_option ca_heard_at (map_of sample_cache ''N0CALL'') = Some 20"
    "map_of sample_cache ''N0SPAM'' = None"
    by (simp_all add: sample_cache_def cache_record_def cache_new_def)
  have chars: "cached_chars_ok sample_cache"
    by (simp add: cached_chars_ok_def sample_cache_def cache_record_def cache_new_def scalar_def)
  have "\<exists>db'. save_positions list_stations sample_cache ?db = (Inr 1, db')"
    by (simp add: save_positions_def cache_snapshot_def sample_cache_def cache_record_def cache_new_def
       save_entry_def list_stations_def list_table_def Let_def split: list.splits)
  then obtain db' where s: "save_positions list_stations sample_cache ?db = (Inr 1, db')" by blast
  obtain new where new: "load_positions list_stations db' = Inr new"
    by (simp add: load_positions_def list_stations_def list_table_def)
  obtain old where old: "load_positions list_stations ?db = Inr old"
    by (simp add: load_positions_def list_stations_def list_table_def)
  have "map_of old (sr_callsign (sample_row 2 ''N0SPAM'')) = row_cached (sample_row 2 ''N0SPAM'')"
    by (rule load_positions_lookup(1) [OF laws ok unique upper old]) simp
  moreover have "row_cached (sample_row 2 ''N0SPAM'') \<noteq> None" by code_simp
  ultimately have o: "map_option ca_heard_at (map_of old ''N0SPAM'') = Some 10"
    by (auto simp: row_cached_def sample_row_def)
  have "map_of new = map_of old ++ map_of sample_cache"
    using positions_survive_restart [OF laws ok unique upper inv chars s old new] by blast
  then have "map_option ca_heard_at (map_of new ''N0CALL'') = Some 20"
    "map_option ca_heard_at (map_of new ''N0SPAM'') = Some 10"
    using m o by (auto simp: map_add_def)
  with s new show ?thesis by blast
qed

subsection \<open>The connection log\<close>

abbreviation sessions_laws ::
  "('db, session_row, 'e) table \<Rightarrow> ('db \<Rightarrow> bool) \<Rightarrow> ('db \<Rightarrow> session_row set) \<Rightarrow> bool" where
  "sessions_laws tb db_ok contents \<equiv> table_laws tb db_ok contents sn_id (\<lambda>i r. r\<lparr>sn_id := i\<rparr>)"

definition opened_row :: "int \<Rightarrow> new_session \<Rightarrow> session_row" where
  "opened_row i session =
     \<lparr>sn_id = i, sn_callsign = ns_callsign session, sn_remote_addr = ns_remote_addr session,
      sn_listener = ns_listener session, sn_software = ns_software session,
      sn_verified = ns_verified session, sn_filter = ns_filter session,
      sn_connected_at = ns_connected_at session, sn_disconnected_at = None,
      sn_packets_received = 0, sn_packets_sent = 0, sn_packets_dropped = 0,
      sn_bytes_received = 0, sn_bytes_sent = 0\<rparr>"

definition closed_row :: "session_row \<Rightarrow> int \<Rightarrow> session_totals \<Rightarrow> session_row" where
  "closed_row r t totals =
     r\<lparr>sn_disconnected_at := Some t, sn_packets_received := st_packets_received totals,
       sn_packets_sent := st_packets_sent totals, sn_packets_dropped := st_packets_dropped totals,
       sn_bytes_received := st_bytes_received totals, sn_bytes_sent := st_bytes_sent totals\<rparr>"

lemma open_session_ok:
  assumes "sessions_laws slog db_ok contents" and "db_ok db" and "open_session slog session db = (x, db')"
  shows "db_ok db'" and "x = Inl e \<Longrightarrow> contents db' = contents db"
    and "x = Inr i \<Longrightarrow> i \<notin> sn_id ` contents db \<and> contents db' = insert (opened_row i session) (contents db)"
proof -
  obtain y db1 where i: "tb_insert slog db (opened_row 0 session) = (y, db1)" by fastforce
  have s: "(x, db') = (case y of Inl e \<Rightarrow> (Inl (Database e), db1) | Inr model \<Rightarrow> (Inr (sn_id model), db1))"
    using assms(3) i by (auto simp: open_session_def opened_row_def split: sum.splits)
  note l = laws_insert [OF assms(1,2) i]
  show "db_ok db'" using s l(1) by (cases y) auto
  show "contents db' = contents db" if "x = Inl e" using s l(2) that by (cases y) auto
  show "i \<notin> sn_id ` contents db \<and> contents db' = insert (opened_row i session) (contents db)" if x: "x = Inr i"
  proof -
    from x s obtain model where y: "y = Inr model" and i: "i = sn_id model" "db' = db1"
      by (cases y) auto
    from l(3) [OF y] have m: "model = (opened_row 0 session)\<lparr>sn_id := i\<rparr>" "i \<notin> sn_id ` contents db"
      "contents db' = insert model (contents db)" using i by simp_all
    then show ?thesis by (simp add: opened_row_def)
  qed
qed

lemma close_session_ok:
  assumes "sessions_laws slog db_ok contents" and "db_ok db" and "close_session slog i t totals db = (x, db')"
  shows "db_ok db'" and "x = Inl e \<Longrightarrow> contents db' = contents db"
    and "x = Inr u \<Longrightarrow>
      contents db' = (\<lambda>r. if sn_id r = i then closed_row r t totals else r) ` contents db"
proof -
  have goal: "db_ok db' \<and> (case x of Inl e \<Rightarrow> contents db' = contents db
    | Inr u \<Rightarrow> contents db' = (\<lambda>r. if sn_id r = i then closed_row r t totals else r) ` contents db)"
  proof (cases "tb_select slog db (\<lambda>r. sn_id r = i) (\<lambda>_. 0) (Some 1)")
    case (Inl e)
    with assms(2,3) show ?thesis by (auto simp: close_session_def)
  next
    case (Inr rs)
    from laws_find [OF assms(1,2) Inr] consider (none) "rs = []" "{r \<in> contents db. sn_id r = i} = {}"
      | (some) r where "rs = [r]" "r \<in> contents db" "sn_id r = i" by auto
    then show ?thesis
    proof cases
      case none
      then have "(\<lambda>r. if sn_id r = i then closed_row r t totals else r) ` contents db = contents db"
        by (force simp: image_iff)
      with none Inr assms(2,3) show ?thesis by (auto simp: close_session_def)
    next
      case (some r)
      obtain y db1 where u: "tb_update slog db (closed_row r t totals) = (y, db1)" by fastforce
      have s: "(x, db') = (map_err Database y, db1)"
        using assms(3) Inr some(1) u by (auto simp: close_session_def closed_row_def)
      note l = laws_update [OF assms(1,2) u]
      have "sn_id (closed_row r t totals) = i" using some(3) by (simp add: closed_row_def)
      moreover have "q = r" if "q \<in> contents db" "sn_id q = i" for q
        using that some laws_id [OF assms(1,2)] by (auto simp: inj_on_def)
      ultimately have "(\<lambda>q. if sn_id q = sn_id (closed_row r t totals) then closed_row r t totals else q) ` contents db =
          (\<lambda>r. if sn_id r = i then closed_row r t totals else r) ` contents db"
        by (intro image_cong) auto
      then show ?thesis using s l by (cases y) auto
    qed
  qed
  show "db_ok db'" using goal by simp
  show "contents db' = contents db" if "x = Inl e" using goal that by simp
  show "contents db' = (\<lambda>r. if sn_id r = i then closed_row r t totals else r) ` contents db" if "x = Inr u"
    using goal that by simp
qed

text \<open>The statements of other connections on the log, in any order, failing or not.\<close>

datatype log_op = Opened new_session | Closed int int session_totals

fun log_step :: "('db, session_row, 'e) table \<Rightarrow> log_op \<Rightarrow> 'db \<Rightarrow> 'db" where
  "log_step slog (Opened session) db = snd (open_session slog session db)"
| "log_step slog (Closed i t totals) db = snd (close_session slog i t totals db)"

definition closes :: "int \<Rightarrow> log_op \<Rightarrow> bool" where
  "closes i op = (case op of Closed j _ _ \<Rightarrow> j = i | Opened _ \<Rightarrow> False)"

lemma log_step_keeps:
  assumes "sessions_laws slog db_ok contents" and "db_ok db" and "\<not> closes i op"
    and "r \<in> contents db" and "sn_id r = i"
  shows "db_ok (log_step slog op db) \<and> r \<in> contents (log_step slog op db)"
proof (cases op)
  case (Opened session)
  obtain x db' where o: "open_session slog session db = (x, db')" by fastforce
  note l = open_session_ok [OF assms(1,2) o]
  show ?thesis using Opened o l assms(4) by (cases x) auto
next
  case (Closed j t totals)
  obtain x db' where c: "close_session slog j t totals db = (x, db')" by fastforce
  note l = close_session_ok [OF assms(1,2) c]
  show ?thesis using Closed c l assms(3-5) by (cases x) (auto simp: closes_def image_iff)
qed

lemma log_run_keeps:
  assumes "sessions_laws slog db_ok contents"
  shows "db_ok db \<Longrightarrow> r \<in> contents db \<Longrightarrow> list_all (\<lambda>op. \<not> closes (sn_id r) op) ops \<Longrightarrow>
    db_ok (fold (log_step slog) ops db) \<and> r \<in> contents (fold (log_step slog) ops db)"
  by (induction ops arbitrary: db) (use log_step_keeps [OF assms] in auto)

text \<open>A connection opened in the log and closed at its end, with the statements of any other connections
  in between, is the one row with its id afterwards: who connected from where, on which port, and
  when, as it was opened, with the time it ended and its final counters. A statement of another
  connection, failed or not, never touches it.\<close>

theorem session_log:
  assumes laws: "sessions_laws slog db_ok contents" and ok: "db_ok db"
    and "open_session slog session db = (Inr i, db1)"
    and "list_all (\<lambda>op. \<not> closes i op) ops"
    and "close_session slog i t totals (fold (log_step slog) ops db1) = (Inr (), db2)"
  shows "{r \<in> contents db2. sn_id r = i} = {closed_row (opened_row i session) t totals}"
proof -
  note o = open_session_ok [OF laws ok assms(3)]
  have r: "opened_row i session \<in> contents db1" using o(3) by simp
  have i: "sn_id (opened_row i session) = i" by (simp add: opened_row_def)
  from log_run_keeps [OF laws o(1) r] assms(4) i
  have k: "db_ok (fold (log_step slog) ops db1)" "opened_row i session \<in> contents (fold (log_step slog) ops db1)"
    by simp_all
  note c = close_session_ok [OF laws k(1) assms(5)]
  have m: "closed_row (opened_row i session) t totals \<in> contents db2"
    using c(3) k(2) i by (force simp: image_iff)
  have "sn_id (closed_row (opened_row i session) t totals) = i" by (simp add: closed_row_def i)
  with m laws_id [OF laws c(1)] show ?thesis by (auto simp: inj_on_def)
qed

definition sample_new_session :: new_session where
  "sample_new_session =
     \<lparr>ns_callsign = ''N0CALL'', ns_remote_addr = ''192.0.2.1:1000'', ns_listener = ''Clients'', ns_software = None,
      ns_verified = True, ns_filter = None, ns_connected_at = 5\<rparr>"

definition sample_totals :: session_totals where
  "sample_totals = client_totals counters_new"

theorem session_log_witness:
  "let slog = list_table sn_id (\<lambda>i r. r\<lparr>sn_id := i\<rparr>);
       db1 = snd (open_session slog sample_new_session []);
       db2 = log_step slog (Opened (sample_new_session\<lparr>ns_callsign := ''N0SPAM''\<rparr>)) db1
   in {r \<in> set (snd (close_session slog 1 9 sample_totals db2)). sn_id r = 1} =
        {closed_row (opened_row 1 sample_new_session) 9 sample_totals}"
proof -
  define slog :: "(session_row list, session_row, unit) table" where
    "slog = list_table sn_id (\<lambda>i r. r\<lparr>sn_id := i\<rparr>)"
  define db1 where "db1 = snd (open_session slog sample_new_session [])"
  let ?ops = "[Opened (sample_new_session\<lparr>ns_callsign := ''N0SPAM''\<rparr>)]"
  define db2 where "db2 = snd (close_session slog 1 9 sample_totals (fold (log_step slog) ?ops db1))"
  have laws: "sessions_laws slog (\<lambda>db. distinct (map sn_id db)) set"
    unfolding slog_def by (rule list_table_laws) simp
  have o: "open_session slog sample_new_session [] = (Inr 1, db1)"
    by (simp add: db1_def open_session_def slog_def list_table_def Let_def)
  have c: "close_session slog 1 9 sample_totals (fold (log_step slog) ?ops db1) = (Inr (), db2)"
    by (simp add: db2_def db1_def close_session_def open_session_def slog_def list_table_def Let_def
        split: list.split)
  have "{r \<in> set db2. sn_id r = 1} = {closed_row (opened_row 1 sample_new_session) 9 sample_totals}"
    by (rule session_log [OF laws _ o _ c]) (simp_all add: closes_def)
  then show ?thesis by (simp add: Let_def db2_def db1_def slog_def)
qed

end
