(* ===== verification/Persistence.thy ===== *)
theory Persistence
  imports Store Filter_Show Listener Connection
begin

section \<open>Durable state: start-up, maintenance and shutdown\<close>

text \<open>
  How the server uses its database: \<open>Server::bind\<close> loads the station positions, \<open>maintain\<close>
  (\<open>aprsr/src/commands.rs\<close>) saves them and samples the counters once a minute, the end of \<open>Server::run\<close>
  saves them a last time. (The log of the connections is in \<open>Connection_Log\<close>.)
  \<open>restart_keeps_positions\<close> follows the positions from one start of the server to the next, \<open>counter_samples_bounded\<close> bounds the table of samples.
\<close>

subsection \<open>Characters of symbols\<close>

lemma code_point_scalar: "scalar (code_point w)"
proof (cases "valid_seg w")
  case False
  then show ?thesis by (simp add: code_point_def scalar_def)
next
  case True
  have m: "k \<le> n \<Longrightarrow> n < k + l \<Longrightarrow> l dvd k \<Longrightarrow> n mod l = n - k" for k l n :: nat
    by (rule mod_by_offset)
  show ?thesis
  proof (cases w rule: valid_seg.cases)
    case (1 a)
    with True show ?thesis by (simp add: code_point_def scalar_def is_ascii_def)
  next
    case (2 a b)
    have "ord a mod 32 < 32" "ord b mod 64 < 64" by simp_all
    then have "(ord a mod 32) * 64 + ord b mod 64 < 2048" by linarith
    with True 2 show ?thesis by (simp add: code_point_def scalar_def)
  next
    case (3 a b c)
    have c: "ord c mod 64 < 64" and b: "ord b mod 64 < 64" by simp_all
    from True 3 consider "ord a = 224" | "225 \<le> ord a" "ord a \<le> 236"
      | "ord a = 237" "128 \<le> ord b" "ord b \<le> 159" | "238 \<le> ord a" "ord a \<le> 239"
      by (auto simp: in_range_def)
    then have "scalar ((ord a mod 16) * 4096 + (ord b mod 64) * 64 + ord c mod 64)"
    proof cases
      case 1
      then have "ord a mod 16 = 0" by simp
      then show ?thesis using b c unfolding scalar_def by linarith
    next
      case 2
      then have "ord a mod 16 \<le> 12" using m [of 224 "ord a" 16] by simp
      then show ?thesis using b c unfolding scalar_def by linarith
    next
      case 3
      then have "ord b mod 64 < 32" using m [of 128 "ord b" 64] by simp
      moreover have "ord a mod 16 = 13" using 3 by simp
      ultimately show ?thesis using c unfolding scalar_def by linarith
    next
      case 4
      then have "14 \<le> ord a mod 16" "ord a mod 16 \<le> 15" using m [of 224 "ord a" 16] by simp_all
      then show ?thesis using b c unfolding scalar_def by linarith
    qed
    with True 3 show ?thesis by (simp add: code_point_def)
  next
    case (4 a b c d)
    have d: "ord d mod 64 < 64" and c: "ord c mod 64 < 64" and b: "ord b mod 64 < 64" by simp_all
    from True 4 consider "ord a = 240" "144 \<le> ord b" "ord b \<le> 191" | "241 \<le> ord a" "ord a \<le> 243"
      | "ord a = 244" "128 \<le> ord b" "ord b \<le> 143"
      by (auto simp: in_range_def)
    then have "scalar ((ord a mod 8) * 262144 + (ord b mod 64) * 4096 + (ord c mod 64) * 64 + ord d mod 64)"
    proof cases
      case 1
      then have "16 \<le> ord b mod 64" using m [of 128 "ord b" 64] by simp
      moreover have "ord a mod 8 = 0" using 1 by simp
      ultimately show ?thesis using b c d unfolding scalar_def by linarith
    next
      case 2
      then have "1 \<le> ord a mod 8" "ord a mod 8 \<le> 3" using m [of 240 "ord a" 8] by simp_all
      then show ?thesis using b c d unfolding scalar_def by linarith
    next
      case 3
      then have "ord b mod 64 < 16" using m [of 128 "ord b" 64] by simp
      moreover have "ord a mod 8 = 4" using 3 by simp
      ultimately show ?thesis using c d unfolding scalar_def by linarith
    qed
    with True 4 show ?thesis by (simp add: code_point_def)
  qed (use True in simp_all)
qed

definition symbol_chars_ok :: "symbol option \<Rightarrow> bool" where
  "symbol_chars_ok sy = (case sy of None \<Rightarrow> True | Some s \<Rightarrow> scalar (sy_table s) \<and> scalar (sy_code s))"

lemma first_char_scalar: "first_char s = Some c \<Longrightarrow> scalar c"
  by (cases "segs s") (auto simp: first_char_def chars_def code_point_scalar)

lemma symbol_from_chars: "symbol_chars_ok (symbol_from r)"
  by (auto simp: symbol_chars_ok_def symbol_from_def bind_eq_Some_conv dest: first_char_scalar split: option.split)

lemma byte_scalar: "scalar (ord (c :: char))"
  unfolding scalar_def using nat_of_char_less_256 [of c] by linarith

lemma symbol_bytes: "symbol_chars_ok (Some \<lparr>sy_table = ord t, sy_code = ord c\<rparr>)"
  by (simp add: symbol_chars_ok_def byte_scalar)

lemma bind_SomeE: "Option.bind m f = Some x \<Longrightarrow> (\<And>y. m = Some y \<Longrightarrow> f y = Some x \<Longrightarrow> P) \<Longrightarrow> P"
  by (cases m) auto

lemma decoded_symbol_chars:
  "parse_uncompressed b = Some (p, sy) \<Longrightarrow> symbol_chars_ok (Some sy)"
  "parse_compressed b = Some (p, sy) \<Longrightarrow> symbol_chars_ok (Some sy)"
  "parse_mice d b = Some (p, sy) \<Longrightarrow> symbol_chars_ok (Some sy)"
  subgoal
    by (auto simp: symbol_bytes parse_uncompressed_def Let_def with_symbol_Some bind_eq_Some_conv split: if_splits)
  subgoal
    by (auto simp: symbol_bytes parse_compressed_def Let_def with_symbol_Some bind_eq_Some_conv split: if_splits)
  subgoal
    unfolding parse_mice_def Let_def
    by (auto elim!: bind_SomeE simp: with_symbol_Some symbol_bytes split: if_split_asm)
  done

lemma aprs_parse_symbol_chars: "symbol_chars_ok (pp_symbol (aprs_parse p))"
proof -
  have none: "symbol_chars_ok None" by (simp add: symbol_chars_ok_def)
  have set_pos: "symbol_chars_ok (pp_symbol out) \<Longrightarrow> (\<And>q sy. r = Some (q, sy) \<Longrightarrow> symbol_chars_ok (Some sy)) \<Longrightarrow>
      symbol_chars_ok (pp_symbol (set_position r out))" for r out
    by (auto simp: set_position_def split: option.splits)
  have app: "symbol_chars_ok (pp_symbol out) \<Longrightarrow> symbol_chars_ok (pp_symbol (apply_position b out))" for b out
    unfolding apply_position_def
    by (auto intro!: set_pos intro: decoded_symbol_chars [of b] split: option.splits)
  have mice: "symbol_chars_ok (pp_symbol out) \<Longrightarrow> symbol_chars_ok (pp_symbol (set_position (parse_mice d b) out))"
    for d b out
    by (rule set_pos) (auto intro: decoded_symbol_chars)
  have "symbol_chars_ok (pp_symbol (parse_body p dti))" for dti
    using app mice none
    by (auto simp: parse_body_def Let_def parsed_default_def add_type_def split: if_splits option.splits)
  then have "pp_symbol (parse_body p dti) = Some sy \<Longrightarrow> symbol_chars_ok (Some sy)" for dti sy by metis
  then show ?thesis
    using none by (auto simp: aprs_parse_def Let_def parsed_default_def add_type_def split: if_splits option.splits)
qed

subsection \<open>Start, maintenance, stop\<close>

definition server_bind ::
  "('os \<Rightarrow> socket_addr \<Rightarrow> ('io, 'sock \<times> 'os) result) \<Rightarrow> ('sock \<Rightarrow> ('io, socket_addr) result) \<Rightarrow>
     ('db, station_row, 'e) table \<Rightarrow> config \<Rightarrow> 'db option \<Rightarrow> 'os \<Rightarrow> nat \<Rightarrow>
     ('io server_error, 'o server_state \<times> 'sock bound_listener list) result" where
  "server_bind bind local_addr stations config store os now =
     and_then (bind_all bind local_addr config os) (\<lambda>listeners.
     (let st = server_state_new config now;
          st = (case store of
                  None \<Rightarrow> st
                | Some db \<Rightarrow>
                    (case load_positions stations db of
                       Inr cache \<Rightarrow> st\<lparr>ss_positions := cache\<rparr>
                     | Inl _ \<Rightarrow> st))
      in Inr (st, listeners)))"

definition server_stop ::
  "('db, station_row, 'e) table \<Rightarrow> 'o server_state \<Rightarrow> 'db \<Rightarrow> ('e store_error, nat) result \<times> 'db" where
  "server_stop stations st db = save_positions stations (ss_positions st) db"

definition COUNTER_RETENTION :: int where "COUNTER_RETENTION = 7 * 24 * 60 * 60"

fun sample_counters ::
  "('db, counter_row, 'e) table \<Rightarrow> int \<Rightarrow> (str \<times> u64) list \<Rightarrow> 'db \<Rightarrow> 'db" where
  "sample_counters counters now [] db = db"
| "sample_counters counters now ((name, v) # rest) db =
     (case record_counter counters name now (i64_saturating (unat v)) db of
        (Inl _, db) \<Rightarrow> db
      | (Inr _, db) \<Rightarrow> sample_counters counters now rest db)"

definition sampled :: "metrics_snapshot \<Rightarrow> (str \<times> u64) list" where
  "sampled totals =
     [(''packets_received'', ms_packets_received totals),
      (''packets_sent'', ms_packets_sent totals),
      (''packets_duplicate'', ms_packets_duplicate totals),
      (''clients_connected'', ms_clients_connected totals)]"

definition i64_saturating_sub :: "int \<Rightarrow> int \<Rightarrow> int" where
  "i64_saturating_sub a b = max (- (2 ^ 63)) (min I64_MAX (a - b))"

definition maintain_tick ::
  "('db, station_row, 'e) table \<Rightarrow> ('db, counter_row, 'e) table \<Rightarrow> 'o server_state \<Rightarrow> nat \<Rightarrow> 'db \<Rightarrow> 'db" where
  "maintain_tick stations counters st clock db =
     (let db = snd (save_positions stations (ss_positions st) db);
          now = i64_saturating clock;
          db = sample_counters counters now (sampled (metrics_snapshot_of (ss_metrics st))) db
      in snd (prune_counters counters (i64_saturating_sub now COUNTER_RETENTION) db))"

subsection \<open>One table at a time\<close>

text \<open>The statements on one table leave the rows of another alone.\<close>

definition leaves ::
  "('db, 'row, 'e) table \<Rightarrow> ('db \<Rightarrow> bool) \<Rightarrow> ('db \<Rightarrow> 'other set) \<Rightarrow> bool" where
  "leaves tb db_ok contents \<longleftrightarrow>
     (\<forall>db. db_ok db \<longrightarrow>
       (\<forall>r. db_ok (snd (tb_insert tb db r)) \<and> contents (snd (tb_insert tb db r)) = contents db) \<and>
       (\<forall>r. db_ok (snd (tb_update tb db r)) \<and> contents (snd (tb_update tb db r)) = contents db) \<and>
       (\<forall>P. db_ok (snd (tb_delete tb db P)) \<and> contents (snd (tb_delete tb db P)) = contents db))"

lemma leaves_statements:
  assumes "leaves tb db_ok contents" and "db_ok db"
  shows "tb_insert tb db r = (x, db') \<Longrightarrow> db_ok db' \<and> contents db' = contents db"
    and "tb_update tb db r = (y, db') \<Longrightarrow> db_ok db' \<and> contents db' = contents db"
    and "tb_delete tb db P = (z, db') \<Longrightarrow> db_ok db' \<and> contents db' = contents db"
  using assms unfolding leaves_def by (metis snd_conv)+

lemma leaves_record:
  assumes "leaves counters db_ok contents" and "db_ok db" and "record_counter counters name t v db = (x, db')"
  shows "db_ok db' \<and> contents db' = contents db"
proof -
  let ?r = "\<lparr>co_id = 0, co_name = name, co_sampled_at = t, co_value = v\<rparr>"
  obtain y db1 where i: "tb_insert counters db ?r = (y, db1)" by fastforce
  from leaves_statements(1) [OF assms(1,2) i] assms(3) i show ?thesis
    by (cases y) (auto simp: record_counter_def)
qed

lemma leaves_samples:
  assumes "leaves counters db_ok contents"
  shows "db_ok db \<Longrightarrow>
    db_ok (sample_counters counters t names db) \<and> contents (sample_counters counters t names db) = contents db"
proof (induction names arbitrary: db)
  case (Cons e rest)
  obtain name v where e: "e = (name, v)" by fastforce
  obtain x db1 where r: "record_counter counters name t (i64_saturating (unat v)) db = (x, db1)" by fastforce
  from leaves_record [OF assms Cons.prems r] Cons.IH [of db1] show ?case
    by (cases x) (simp_all add: e r)
qed simp

lemma leaves_prune:
  assumes "leaves counters db_ok contents" and "db_ok db"
  shows "db_ok (snd (prune_counters counters t db)) \<and> contents (snd (prune_counters counters t db)) = contents db"
  using leaves_statements(3) [OF assms] unfolding prune_counters_def
  by (cases "tb_delete counters db (\<lambda>r. co_sampled_at r < t)") auto

lemma maintain_stations:
  assumes "leaves counters db_ok contents" and "db_ok (snd (save_positions stations (ss_positions st) db))"
  shows "db_ok (maintain_tick stations counters st now db)"
    and "contents (maintain_tick stations counters st now db) =
      contents (snd (save_positions stations (ss_positions st) db))"
  using leaves_samples [OF assms] leaves_prune [OF assms(1)] by (simp_all add: maintain_tick_def Let_def)

subsection \<open>The life of a server\<close>

datatype life_event = Arrived ingest nat | Maintained nat

fun life_step ::
  "(str list \<Rightarrow> nat) \<Rightarrow> ('o \<Rightarrow> str \<Rightarrow> 'o option) \<Rightarrow> libm \<Rightarrow> ('db, station_row, 'e) table \<Rightarrow> ('db, counter_row, 'e) table \<Rightarrow>
     life_event \<Rightarrow> dupecheck \<times> 'o server_state \<times> 'db \<Rightarrow> dupecheck \<times> 'o server_state \<times> 'db" where
  "life_step hash send m stations counters (Arrived i now) (dc, st, db) =
     (case process hash send m i dc st now of (_, dc, st) \<Rightarrow> (dc, st, db))"
| "life_step hash send m stations counters (Maintained now) (dc, st, db) =
     (dc, st, maintain_tick stations counters st now db)"

lemma process_positions:
  assumes "process hash send m i dc st now = (d, dc', st')"
  shows "ss_positions st' = ss_positions st \<or>
    (\<exists>p. ss_positions st' = record_position p (aprs_parse p) now (ss_positions st))"
  using assms by (cases rule: process_cases) (auto simp: with_metrics_def deliver_positions)

lemma chars_ok_update:
  "cached_chars_ok cache \<Longrightarrow> symbol_chars_ok (ca_symbol c) \<Longrightarrow> cached_chars_ok (AList.update k c cache)"
  by (induction cache) (auto simp: cached_chars_ok_def symbol_chars_ok_def)

lemma chars_ok_record:
  assumes "cached_chars_ok cache" and "symbol_chars_ok sy"
  shows "cached_chars_ok (cache_record cache call p sy t)"
  using cache_record_update [of cache call p sy t] chars_ok_update [OF assms(1)] assms by fastforce

lemma dom_record: "dom (map_of cache) \<subseteq> dom (map_of (cache_record cache call p sy t))"
  using cache_record_update [of cache call p sy t] by (auto simp: update_conv')

lemma record_position_keeps:
  "cached_chars_ok es \<Longrightarrow> cached_chars_ok (record_position p (aprs_parse q) now es)"
  "dom (map_of es) \<subseteq> dom (map_of (record_position p (aprs_parse q) now es))"
  using dom_record by (auto simp: record_position_def chars_ok_record aprs_parse_symbol_chars split: option.split)

text \<open>Every station of the table with a usable position is in the cache.\<close>

definition covered :: "station_row set \<Rightarrow> position_cache \<Rightarrow> bool" where
  "covered rows cache \<longleftrightarrow> (\<forall>r \<in> rows. row_cached r \<noteq> None \<longrightarrow> sr_callsign r \<in> dom (map_of cache))"

definition table_shape :: "('db \<Rightarrow> bool) \<Rightarrow> ('db \<Rightarrow> station_row set) \<Rightarrow> 'db \<Rightarrow> bool" where
  "table_shape db_ok contents db \<longleftrightarrow>
     db_ok db \<and> inj_on sr_callsign (contents db) \<and>
     (\<forall>r \<in> contents db. to_ascii_uppercase (sr_callsign r) = sr_callsign r)"

definition durable ::
  "('db \<Rightarrow> bool) \<Rightarrow> ('db \<Rightarrow> station_row set) \<Rightarrow> dupecheck \<times> 'o server_state \<times> 'db \<Rightarrow> bool" where
  "durable db_ok contents s \<longleftrightarrow>
     (case s of (dc, st, db) \<Rightarrow>
        table_shape db_ok contents db \<and> cache_inv (ss_positions st) \<and> cached_chars_ok (ss_positions st) \<and>
        covered (contents db) (ss_positions st))"

lemma save_table_shape:
  assumes "stations_laws stations db_ok contents" and "table_shape db_ok contents db" and "cache_inv cache"
    and "covered (contents db) cache" and "save_positions stations cache db = (x, db')"
  shows "table_shape db_ok contents db' \<and> covered (contents db') cache"
proof -
  have "db_ok db" "inj_on sr_callsign (contents db)"
    "\<forall>r \<in> contents db. to_ascii_uppercase (sr_callsign r) = sr_callsign r"
    using assms(2) by (auto simp: table_shape_def)
  from save_keeps_shape [OF assms(1) this assms(3,5)] assms(4)
  show ?thesis unfolding table_shape_def covered_def by blast
qed

lemma life_step_durable:
  assumes laws: "stations_laws stations db_ok contents" and others: "leaves counters db_ok contents"
    and "durable db_ok contents s"
  shows "durable db_ok contents (life_step hash send m stations counters e s)"
proof -
  obtain dc st db where s: "s = (dc, st, db)" by (cases s)
  show ?thesis
  proof (cases e)
    case (Arrived i now)
    obtain d dc' st' where p: "process hash send m i dc st now = (d, dc', st')" by (metis surj_pair)
    from process_positions [OF p] assms(3) show ?thesis
      using record_position_inv [of "ss_positions st"] record_position_keeps(1) [of "ss_positions st"]
        record_position_keeps(2) [of "ss_positions st"]
      by (fastforce simp: Arrived s p durable_def covered_def)
  next
    case (Maintained now)
    obtain x db1 where sv: "save_positions stations (ss_positions st) db = (x, db1)" by fastforce
    have "table_shape db_ok contents db1 \<and> covered (contents db1) (ss_positions st)"
      by (rule save_table_shape [OF laws _ _ _ sv]) (use assms(3) in \<open>simp_all add: s durable_def\<close>)
    with maintain_stations [OF others, of stations st db now] sv assms(3) show ?thesis
      by (simp add: Maintained s durable_def table_shape_def)
  qed
qed

lemma life_durable:
  "stations_laws stations db_ok contents \<Longrightarrow> leaves counters db_ok contents \<Longrightarrow> durable db_ok contents s \<Longrightarrow>
     durable db_ok contents (fold (life_step hash send m stations counters) es s)"
proof (induction es arbitrary: s)
  case (Cons e es)
  show ?case using Cons.IH [OF Cons.prems(1,2) life_step_durable [OF Cons.prems]] by simp
qed simp

lemma load_row_keeps:
  "cache_inv c \<Longrightarrow> cached_chars_ok c \<Longrightarrow> cache_inv (load_row r c) \<and> cached_chars_ok (load_row r c)"
  by (auto simp: load_row_def chars_ok_record symbol_from_chars split: option.split
      intro: cache_inv_record position_new_ok)

lemma fold_load_keeps:
  "cache_inv c \<Longrightarrow> cached_chars_ok c \<Longrightarrow>
     cache_inv (fold load_row rows c) \<and> cached_chars_ok (fold load_row rows c)"
  by (induction rows arbitrary: c) (auto simp: load_row_keeps)

lemma load_positions_ok: "load_positions stations db = Inr cache \<Longrightarrow> cache_inv cache \<and> cached_chars_ok cache"
  using fold_load_keeps [of cache_new]
  by (auto simp: load_positions_def res_simps cache_inv_def cache_new_def cached_chars_ok_def)

lemma load_covers:
  assumes "stations_laws stations db_ok contents" and "table_shape db_ok contents db"
    and "load_positions stations db = Inr cache"
  shows "covered (contents db) cache"
proof -
  have "db_ok db" "inj_on sr_callsign (contents db)"
    "\<forall>r \<in> contents db. to_ascii_uppercase (sr_callsign r) = sr_callsign r"
    using assms(2) by (auto simp: table_shape_def)
  from load_positions_lookup(1) [OF assms(1) this assms(3)] show ?thesis
    by (auto simp: covered_def)
qed

lemma server_bind_positions:
  assumes "server_bind bind local_addr stations config (Some db) os now = Inr (st, ls)"
    and "load_positions stations db = Inr cache"
  shows "ss_positions st = cache"
  using assms by (auto simp: server_bind_def res_simps)


text \<open>A database of two tables, each kept as a list.\<close>

definition on_first :: "('a, 'row, 'e) table \<Rightarrow> ('a \<times> 'b, 'row, 'e) table" where
  "on_first tb =
     \<lparr>tb_select = (\<lambda>db. tb_select tb (fst db)),
      tb_insert = (\<lambda>db r. map_prod id (\<lambda>a. (a, snd db)) (tb_insert tb (fst db) r)),
      tb_update = (\<lambda>db r. map_prod id (\<lambda>a. (a, snd db)) (tb_update tb (fst db) r)),
      tb_delete = (\<lambda>db P. map_prod id (\<lambda>a. (a, snd db)) (tb_delete tb (fst db) P))\<rparr>"

definition on_second :: "('b, 'row, 'e) table \<Rightarrow> ('a \<times> 'b, 'row, 'e) table" where
  "on_second tb =
     \<lparr>tb_select = (\<lambda>db. tb_select tb (snd db)),
      tb_insert = (\<lambda>db r. map_prod id (Pair (fst db)) (tb_insert tb (snd db) r)),
      tb_update = (\<lambda>db r. map_prod id (Pair (fst db)) (tb_update tb (snd db) r)),
      tb_delete = (\<lambda>db P. map_prod id (Pair (fst db)) (tb_delete tb (snd db) P))\<rparr>"

lemma on_first_laws:
  assumes "table_laws tb ok1 c rid set_rid"
  shows "table_laws (on_first tb) (\<lambda>db. ok1 (fst db) \<and> ok2 (snd db)) (\<lambda>db. c (fst db)) rid set_rid"
  unfolding table_laws_def
proof (intro allI impI conjI)
  fix db
  assume ok: "ok1 (fst db) \<and> ok2 (snd db)"
  then have ok1: "ok1 (fst db)" by simp
  show "inj_on rid (c (fst db))" using laws_id [OF assms ok1] .
  show "select_law (on_first tb) (\<lambda>db. c (fst db)) db"
    using assms ok1 by (auto simp: table_laws_def select_law_def on_first_def)
  show "insert_law (on_first tb) (\<lambda>db. ok1 (fst db) \<and> ok2 (snd db)) (\<lambda>db. c (fst db)) rid set_rid db"
    unfolding insert_law_def
  proof
    fix r
    obtain x a where i: "tb_insert tb (fst db) r = (x, a)" by fastforce
    with laws_insert [OF assms ok1 i] ok
    show "case tb_insert (on_first tb) db r of
        (Inl _, db') \<Rightarrow> (ok1 (fst db') \<and> ok2 (snd db')) \<and> c (fst db') = c (fst db)
      | (Inr y, db') \<Rightarrow> (ok1 (fst db') \<and> ok2 (snd db')) \<and> rid y \<notin> rid ` c (fst db) \<and> y = set_rid (rid y) r \<and> c (fst db') = insert y (c (fst db))"
      by (cases x) (auto simp: on_first_def)
  qed
  show "update_law (on_first tb) (\<lambda>db. ok1 (fst db) \<and> ok2 (snd db)) (\<lambda>db. c (fst db)) rid db"
    unfolding update_law_def
  proof
    fix r
    obtain x a where i: "tb_update tb (fst db) r = (x, a)" by fastforce
    with laws_update [OF assms ok1 i] ok
    show "case tb_update (on_first tb) db r of
        (Inl _, db') \<Rightarrow> (ok1 (fst db') \<and> ok2 (snd db')) \<and> c (fst db') = c (fst db)
      | (Inr y, db') \<Rightarrow> (ok1 (fst db') \<and> ok2 (snd db')) \<and> c (fst db') = (\<lambda>x. if rid x = rid r then r else x) ` c (fst db)"
      by (cases x) (auto simp: on_first_def)
  qed
  show "delete_law (on_first tb) (\<lambda>db. ok1 (fst db) \<and> ok2 (snd db)) (\<lambda>db. c (fst db)) db"
    unfolding delete_law_def
  proof
    fix r
    obtain x a where i: "tb_delete tb (fst db) r = (x, a)" by fastforce
    with laws_delete [OF assms ok1 i] ok
    show "case tb_delete (on_first tb) db r of
        (Inl _, db') \<Rightarrow> (ok1 (fst db') \<and> ok2 (snd db')) \<and> c (fst db') = c (fst db)
      | (Inr y, db') \<Rightarrow> (ok1 (fst db') \<and> ok2 (snd db')) \<and> c (fst db') = {x \<in> c (fst db). \<not> r x}"
      by (cases x) (auto simp: on_first_def)
  qed
qed

lemma on_second_leaves:
  assumes "table_laws tb ok2 c2 rid set_rid"
  shows "leaves (on_second tb) (\<lambda>db. ok1 (fst db) \<and> ok2 (snd db)) (\<lambda>db. c (fst db))"
  using laws_insert(1) [OF assms _ surjective_pairing] laws_update(1) [OF assms _ surjective_pairing]
    laws_delete(1) [OF assms _ surjective_pairing]
  by (auto simp: leaves_def on_second_def)

definition sample_stations :: "(station_row list \<times> counter_row list, station_row, unit) table" where
  "sample_stations = on_first list_stations"

definition sample_counters_table :: "(station_row list \<times> counter_row list, counter_row, unit) table" where
  "sample_counters_table = on_second (list_table co_id (\<lambda>i r. r\<lparr>co_id := i\<rparr>))"

lemma list_save: "\<exists>n db'. save_positions sample_stations cache db = (Inr n, db')"
proof -
  have "\<exists>db'. save_entry sample_stations db e = (Inr (), db')" for e db
    by (auto simp: save_entry_def sample_stations_def on_first_def list_stations_def list_table_def Let_def
        split: list.split option.split)
  then have "\<exists>n db'. save_loop sample_stations es n0 db = (Inr n, db')" for es n0
  proof (induction es arbitrary: n0 db)
    case (Cons e es)
    then obtain db1 where "save_entry sample_stations db e = (Inr (), db1)" by blast
    with Cons show ?case by simp
  qed simp
  then show ?thesis by (simp add: save_positions_def)
qed

lemma list_load: "\<exists>cache. load_positions sample_stations db = Inr cache"
  by (simp add: load_positions_def sample_stations_def on_first_def list_stations_def list_table_def)

definition sample_db :: "station_row list \<times> counter_row list" where
  "sample_db = ([sample_row 1 ''N0CALL''], [])"

definition sample_db_ok :: "station_row list \<times> counter_row list \<Rightarrow> bool" where
  "sample_db_ok db \<longleftrightarrow> distinct (map sr_id (fst db)) \<and> distinct (map co_id (snd db))"

lemma sample_stations_laws: "stations_laws sample_stations sample_db_ok (\<lambda>db. set (fst db))"
  unfolding sample_stations_def list_stations_def sample_db_ok_def by (rule on_first_laws) (rule list_table_laws, simp)

lemma sample_counters_leave: "leaves sample_counters_table sample_db_ok (\<lambda>db. set (fst db))"
  unfolding sample_counters_table_def sample_db_ok_def by (rule on_second_leaves) (rule list_table_laws, simp)

lemma sample_shape: "table_shape sample_db_ok (\<lambda>db. set (fst db)) sample_db"
proof -
  have "to_ascii_uppercase ''N0CALL'' = ''N0CALL''" by code_simp
  then show ?thesis by (simp add: table_shape_def sample_row_def sample_db_def sample_db_ok_def)
qed

lemma sample_binds:
  "\<exists>(st :: str list server_state) ls.
     server_bind sample_bind Inr sample_stations (sample_config [sample_listener ''Clients'']) (Some db) [] now = Inr (st, ls)"
proof -
  have "is_ok (bind_all sample_bind Inr (sample_config [sample_listener ''Clients'']) [])"
    by (simp add: bind_all_def sample_config_def sample_listener_def from_config_def sample_bind_def)
  then obtain ls where "bind_all sample_bind Inr (sample_config [sample_listener ''Clients'']) [] = Inr ls"
    by (auto simp: is_ok_iff)
  moreover obtain cache where "load_positions sample_stations db = Inr cache" using list_load by blast
  ultimately show ?thesis by (simp add: server_bind_def Let_def)
qed


subsection \<open>Counter samples\<close>

abbreviation counters_laws ::
  "('db, counter_row, 'e) table \<Rightarrow> ('db \<Rightarrow> bool) \<Rightarrow> ('db \<Rightarrow> counter_row set) \<Rightarrow> bool" where
  "counters_laws tb db_ok contents \<equiv> table_laws tb db_ok contents co_id (\<lambda>i r. r\<lparr>co_id := i\<rparr>)"

text \<open>A save of the positions leaves the samples alone.\<close>

lemma save_entry_leaves:
  assumes "leaves stations db_ok contents" and "db_ok db" and "save_entry stations db e = (x, db')"
  shows "db_ok db' \<and> contents db' = contents db"
proof (cases "tb_select stations db (\<lambda>r. sr_callsign r = pe_callsign e) (\<lambda>_. 0) (Some 1)")
  case (Inl err)
  with assms(2,3) show ?thesis by (auto simp: save_entry_def)
next
  case (Inr rs)
  have i: "db_ok db1 \<and> contents db1 = contents db" if "tb_insert stations db r = (y, db1)" for r y db1
    using leaves_statements(1) [OF assms(1,2) that] .
  have u: "db_ok db1 \<and> contents db1 = contents db"
    if "map_prod (map_err Database) id (tb_update stations db r) = (y, db1)" for r db1 y
    using leaves_statements(2) [OF assms(1,2) surjective_pairing, of r] that
    by (cases "tb_update stations db r") auto
  show ?thesis
    using assms(3) Inr
    by (auto simp: save_entry_def dest: i u split: list.splits prod.splits sum.splits option.splits)
qed

lemma save_loop_leaves:
  assumes "leaves stations db_ok contents"
  shows "db_ok db \<Longrightarrow> db_ok (snd (save_loop stations es n db)) \<and>
    contents (snd (save_loop stations es n db)) = contents db"
proof (induction es arbitrary: n db)
  case (Cons e es)
  obtain x db1 where e: "save_entry stations db e = (x, db1)" by fastforce
  from save_entry_leaves [OF assms Cons.prems e] Cons.IH [of db1] e show ?case by (cases x) simp_all
qed simp

text \<open>The number of samples taken at or after a time.\<close>

definition since_count :: "counter_row set \<Rightarrow> int \<Rightarrow> nat" where
  "since_count rows t = card {r \<in> rows. t \<le> co_sampled_at r}"

lemma sample_counters_count:
  assumes laws: "counters_laws counters db_ok contents"
  shows "db_ok db \<Longrightarrow> finite (contents db) \<Longrightarrow>
    db_ok (sample_counters counters now names db) \<and> finite (contents (sample_counters counters now names db)) \<and>
    since_count (contents (sample_counters counters now names db)) t \<le>
      since_count (contents db) t + (if t \<le> now then length names else 0)"
proof (induction names arbitrary: db)
  case (Cons e rest)
  obtain name v where e: "e = (name, v)" by fastforce
  let ?r = "\<lparr>co_id = 0, co_name = name, co_sampled_at = now, co_value = i64_saturating (unat v)\<rparr>"
  obtain y db1 where i: "tb_insert counters db ?r = (y, db1)" by fastforce
  note l = laws_insert [OF laws Cons.prems(1) i]
  show ?case
  proof (cases y)
    case Inl: (Inl err)
    then show ?thesis using l(1) l(2) [OF Inl] Cons.prems i by (simp add: e record_counter_def)
  next
    case Inr: (Inr r')
    from l(3) [OF Inr] have c: "contents db1 = insert r' (contents db)" and r': "r' = ?r\<lparr>co_id := co_id r'\<rparr>" by auto
    then have now: "co_sampled_at r' = now" by (metis counter_row.select_convs(3) counter_row.surjective counter_row.update_convs(1))
    have "since_count (contents db1) t \<le> since_count (contents db) t + (if t \<le> now then 1 else 0)"
    proof -
      have "{r \<in> contents db1. t \<le> co_sampled_at r} =
          (if t \<le> now then insert r' {r \<in> contents db. t \<le> co_sampled_at r} else {r \<in> contents db. t \<le> co_sampled_at r})"
        using now by (auto simp: c)
      then show ?thesis using Cons.prems(2) by (simp add: since_count_def card_insert_if)
    qed
    with Cons.IH [OF l(1)] Cons.prems(2) c i Inr show ?thesis
      by (auto simp: e record_counter_def split: if_splits)
  qed
qed simp

definition ticks ::
  "('db, station_row, 'e) table \<Rightarrow> ('db, counter_row, 'e) table \<Rightarrow> ('o server_state \<times> nat) list \<Rightarrow> 'db \<Rightarrow> 'db" where
  "ticks stations counters ts db = fold (\<lambda>(st, now). maintain_tick stations counters st now) ts db"

lemma maintain_count:
  fixes st :: "'o server_state" and now :: nat
  assumes laws: "counters_laws counters db_ok contents" and others: "leaves stations db_ok contents"
    and ok: "db_ok db" and fin: "finite (contents db)"
  defines "db' \<equiv> maintain_tick stations counters st now db"
  shows "db_ok db'" and "finite (contents db')"
    and "since_count (contents db') t \<le> since_count (contents db) t + (if t \<le> i64_saturating now then 4 else 0)"
    and "(\<And>db P. is_ok (fst (tb_delete counters db P))) \<Longrightarrow>
      \<forall>r \<in> contents db'. i64_saturating now - COUNTER_RETENTION \<le> co_sampled_at r"
proof -
  define db1 where "db1 = snd (save_positions stations (ss_positions st) db)"
  define db2 where "db2 = sample_counters counters (i64_saturating now) (sampled (metrics_snapshot_of (ss_metrics st))) db1"
  let ?cut = "i64_saturating_sub (i64_saturating now) COUNTER_RETENTION"
  have cut: "?cut = i64_saturating now - COUNTER_RETENTION"
    using i64_saturating_bounds [of now]
    by (simp add: i64_saturating_sub_def COUNTER_RETENTION_def I64_MAX_def)
  have 1: "db_ok db1" "contents db1 = contents db"
    using save_loop_leaves [OF others ok] by (simp_all add: db1_def save_positions_def)
  have 2: "db_ok db2" "finite (contents db2)"
    "since_count (contents db2) t \<le> since_count (contents db) t + (if t \<le> i64_saturating now then 4 else 0)"
    using sample_counters_count [OF laws 1(1), of "i64_saturating now" "sampled (metrics_snapshot_of (ss_metrics st))" t]
      fin 1(2) by (auto simp: db2_def sampled_def)
  obtain x db3 where d: "tb_delete counters db2 (\<lambda>r. co_sampled_at r < ?cut) = (x, db3)" by fastforce
  have e: "db' = db3" using d by (simp add: db'_def maintain_tick_def Let_def db1_def db2_def prune_counters_def)
  note l = laws_delete [OF laws 2(1) d]
  have sub: "contents db3 \<subseteq> contents db2" using l(2,3) by (cases x) auto
  show "db_ok db'" using e l(1) by simp
  show "finite (contents db')" using e sub 2(2) finite_subset by blast
  have "since_count (contents db3) t \<le> since_count (contents db2) t"
    unfolding since_count_def by (rule card_mono) (use sub 2(2) in auto)
  with 2(3) e show "since_count (contents db') t \<le> since_count (contents db) t + (if t \<le> i64_saturating now then 4 else 0)"
    by simp
  show "\<forall>r \<in> contents db'. i64_saturating now - COUNTER_RETENTION \<le> co_sampled_at r"
    if "\<And>db P. is_ok (fst (tb_delete counters db P))"
  proof -
    have "is_ok x" using that [of db2] d by (metis fst_conv)
    then obtain n where "x = Inr n" by (auto simp: is_ok_iff)
    with l(3) e cut show ?thesis by auto
  qed
qed

lemma ticks_count:
  assumes laws: "counters_laws counters db_ok contents" and others: "leaves stations db_ok contents"
  shows "db_ok db \<Longrightarrow> finite (contents db) \<Longrightarrow>
    db_ok (ticks stations counters ts db) \<and> finite (contents (ticks stations counters ts db)) \<and>
    since_count (contents (ticks stations counters ts db)) t \<le>
      since_count (contents db) t + 4 * length (filter (\<lambda>(st, now). t \<le> i64_saturating now) ts)"
proof (induction ts arbitrary: db)
  case (Cons s ts)
  obtain st now where s: "s = (st, now)" by fastforce
  note m = maintain_count [OF laws others Cons.prems, where st = st and now = now]
  from Cons.IH [OF m(1,2)] m(3) [of t] show ?case
    by (auto simp: ticks_def s split: if_splits)
qed (simp add: ticks_def)

text \<open>The table of counter samples stays bounded: after any number of runs of the maintenance task on an
  initially empty table it holds at most four samples for each run of the last seven days and none older, whether
  or not saving the positions or inserting a sample ever fails, as long as the database can delete rows.\<close>

theorem counter_samples_bounded:
  assumes laws: "counters_laws counters db_ok contents" and others: "leaves stations db_ok contents"
    and start: "db_ok db" "contents db = {}" and deletes: "\<And>db P. is_ok (fst (tb_delete counters db P))"
  shows "card (contents (ticks stations counters (ts @ [(st, now)]) db)) \<le>
      4 * length (filter (\<lambda>(_, t). i64_saturating now - 604800 \<le> i64_saturating t) (ts @ [(st, now)])) \<and>
    (\<forall>r \<in> contents (ticks stations counters (ts @ [(st, now)]) db). i64_saturating now - 604800 \<le> co_sampled_at r)"
proof -
  let ?t = "i64_saturating now - 604800" and ?db = "ticks stations counters (ts @ [(st, now)]) db"
  note c = ticks_count [OF laws others start(1), of ts ?t]
    ticks_count [OF laws others start(1), of "ts @ [(st, now)]" ?t]
  have l: "?db = maintain_tick stations counters st now (ticks stations counters ts db)"
    by (simp add: ticks_def)
  have old: "\<forall>r \<in> contents ?db. ?t \<le> co_sampled_at r"
    using maintain_count(4) [OF laws others, where st = st and now = now and db = "ticks stations counters ts db"] c(1) start(2) deletes
    by (simp add: l COUNTER_RETENTION_def)
  then have "{r \<in> contents ?db. ?t \<le> co_sampled_at r} = contents ?db" by auto
  then have "card (contents ?db) = since_count (contents ?db) ?t" by (simp add: since_count_def)
  with c(2) old show ?thesis by (simp add: start(2) since_count_def)
qed

theorem counter_samples_bounded_witness:
  "let stations = on_second list_stations; counters = on_first (list_table co_id (\<lambda>i r. r\<lparr>co_id := i\<rparr>));
       st = server_state_new (sample_config []) 0 :: str list server_state
   in card (set (fst (ticks stations counters ([(st, 60)] @ [(st, 120)]) ([], [])))) \<le> 8"
proof -
  let ?stations = "on_second list_stations :: (counter_row list \<times> station_row list, station_row, unit) table"
  let ?counters = "on_first (list_table co_id (\<lambda>i r. r\<lparr>co_id := i\<rparr>)) :: (counter_row list \<times> station_row list, counter_row, unit) table"
  let ?ok = "\<lambda>db. distinct (map co_id (fst db)) \<and> distinct (map sr_id (snd db))"
  let ?st = "server_state_new (sample_config []) 0 :: str list server_state"
  have laws: "counters_laws ?counters ?ok (\<lambda>db. set (fst db))"
    by (rule on_first_laws) (rule list_table_laws, simp)
  have others: "leaves ?stations ?ok (\<lambda>db. set (fst db))"
    unfolding list_stations_def by (rule on_second_leaves) (rule list_table_laws, simp)
  have d: "is_ok (fst (tb_delete ?counters db P))" for db P
    by (simp add: on_first_def list_table_def)
  have "card (set (fst (ticks ?stations ?counters ([(?st, 60)] @ [(?st, 120)]) ([], [])))) \<le>
      4 * length (filter (\<lambda>(_, t). i64_saturating 120 - 604800 \<le> i64_saturating t) ([(?st, 60)] @ [(?st, 120)]))"
    by (rule conjunct1 [OF counter_samples_bounded [OF laws others _ _ d]]) simp_all
  then show ?thesis by (simp add: Let_def i64_saturating_def I64_MAX_def)
qed

end
