(* ===== verification/Connection_Log.thy ===== *)
theory Connection_Log
  imports Persistence
begin

section \<open>The connection log (\<open>register\<close>, \<open>open_session_row\<close>, \<open>disconnect\<close> of \<open>client.rs\<close>)\<close>

text \<open>
  How a connection writes its row of the log: one row when it registers, with the filter as text,
  and its end time and counters when it disconnects. The printing of doubles and of socket addresses is the
  standard library's and a parameter. \<open>connection_logged\<close> follows one connection through the log
  while others write to it too.
\<close>

definition open_session_row ::
  "(f64 \<Rightarrow> str) \<Rightarrow> (socket_addr \<Rightarrow> str) \<Rightarrow> ('db, session_row, 'e) table \<Rightarrow> listener_context \<Rightarrow> str \<Rightarrow> socket_addr \<Rightarrow>
     str option \<Rightarrow> verification \<Rightarrow> filter_entry list \<Rightarrow> nat \<Rightarrow> 'db option \<Rightarrow> int option \<times> 'db option" where
  "open_session_row show_f64 show_addr slog listener callsign peer software v chain connected_at store =
     (case store of
        None \<Rightarrow> (None, None)
      | Some db \<Rightarrow>
          (let rendered = chain_show show_f64 chain in
           case open_session slog
             \<lparr>ns_callsign = callsign, ns_remote_addr = show_addr peer, ns_listener = lx_name listener,
              ns_software = software, ns_verified = may_transmit v,
              ns_filter = (if rendered \<noteq> [] then Some rendered else None),
              ns_connected_at = i64_saturating connected_at\<rparr> db of
             (Inr row, db) \<Rightarrow> (Some row, Some db)
           | (Inl _, db) \<Rightarrow> (None, Some db)))"

definition register_logged ::
  "(f64 \<Rightarrow> str) \<Rightarrow> (socket_addr \<Rightarrow> str) \<Rightarrow> ('db, session_row, 'e) table \<Rightarrow> (nat \<Rightarrow> 'o) \<Rightarrow> login_request \<Rightarrow> verification \<Rightarrow>
     str \<Rightarrow> socket_addr \<Rightarrow> listener_context \<Rightarrow> nat \<Rightarrow> 'o server_state \<times> 'db option \<Rightarrow>
     'o client \<times> 'o server_state \<times> 'db option" where
  "register_logged show_f64 show_addr slog channel login v callsign peer listener now s =
     (case s of (st, store) \<Rightarrow>
      case initial_filter listener (lr_filter login) of (chain, _) \<Rightarrow>
      case open_session_row show_f64 show_addr slog listener callsign peer (software_of login) v chain now store of
        (row, store) \<Rightarrow>
      case register channel login v callsign peer listener now row st of (c, st) \<Rightarrow> (c, st, store))"

definition disconnect_logged ::
  "('db, session_row, 'e) table \<Rightarrow> 'o client \<Rightarrow> nat \<Rightarrow> 'o server_state \<times> 'db option \<Rightarrow> 'o server_state \<times> 'db option" where
  "disconnect_logged slog c now s =
     (case s of (st, store) \<Rightarrow>
      case disconnect c now st of (closing, st) \<Rightarrow>
        (st, case (store, closing) of
               (Some db, Some (row, t, totals)) \<Rightarrow> Some (snd (close_session slog row t totals db))
             | _ \<Rightarrow> store))"

lemma filter_show_not_Nil: "filter_show sf f \<noteq> []"
  by (cases f) (auto simp: joined_def)

lemma chain_show_Nil: "chain_show sf es = [] \<longleftrightarrow> es = []"
proof (cases es)
  case (Cons e es')
  have "entry_show sf e \<noteq> []" by (simp add: entry_show_def filter_show_not_Nil)
  then show ?thesis by (cases es') (auto simp: chain_show_def Cons)
qed (simp add: chain_show_def)

lemma register_session_id:
  "register channel login v callsign peer listener now row st = (c, st') \<Longrightarrow> cl_session_id c = row"
  by (auto simp: register_def reg_insert_def Let_def split: prod.splits)

text \<open>C24: a connection leaves one row in the connection log: its callsign, address, port, software, whether its
  passcode was right, the filter it started with as text (none when it had none) and when it connected, and, once it
  has disconnected, when that was and its final counters. Whatever other connections write in between does not
  touch it.\<close>

theorem connection_logged:
  assumes laws: "sessions_laws slog db_ok contents" and ok: "db_ok db"
    and start: "register_logged show_f64 show_addr slog channel login v callsign peer listener now (st, Some db) =
      (c, st1, Some db1)" "cl_session_id c = Some i"
    and others: "list_all (\<lambda>op. \<not> closes i op) ops"
    and counted: "reg_get (ss_registry st2) (cl_id c) = Some d"
    and stop: "disconnect_logged slog c t (st2, Some (fold (log_step slog) ops db1)) = (st3, Some db2)"
      "is_ok (fst (close_session slog i (i64_saturating t) (client_totals (cl_counters d)) (fold (log_step slog) ops db1)))"
  shows "{r \<in> contents db2. sn_id r = i} =
    {\<lparr>sn_id = i, sn_callsign = callsign, sn_remote_addr = show_addr peer, sn_listener = lx_name listener,
      sn_software = software_of login, sn_verified = may_transmit v,
      sn_filter = (let chain = fst (initial_filter listener (lr_filter login)) in
        if chain = [] then None else Some (chain_show show_f64 chain)),
      sn_connected_at = i64_saturating now, sn_disconnected_at = Some (i64_saturating t),
      sn_packets_received = i64_saturating (unat (cc_packets_received (cl_counters d))),
      sn_packets_sent = i64_saturating (unat (cc_packets_sent (cl_counters d))),
      sn_packets_dropped = i64_saturating (unat (cc_packets_dropped (cl_counters d))),
      sn_bytes_received = i64_saturating (unat (cc_bytes_received (cl_counters d))),
      sn_bytes_sent = i64_saturating (unat (cc_bytes_sent (cl_counters d)))\<rparr>}"
proof -
  let ?chain = "fst (initial_filter listener (lr_filter login))"
  let ?session = "\<lparr>ns_callsign = callsign, ns_remote_addr = show_addr peer, ns_listener = lx_name listener,
      ns_software = software_of login, ns_verified = may_transmit v,
      ns_filter = (if ?chain = [] then None else Some (chain_show show_f64 ?chain)),
      ns_connected_at = i64_saturating now\<rparr>"
  let ?db = "fold (log_step slog) ops db1" and ?totals = "client_totals (cl_counters d)"
  have opened: "open_session slog ?session db = (Inr i, db1)"
    using start register_session_id
    by (fastforce simp: register_logged_def open_session_row_def chain_show_Nil Let_def split: prod.splits sum.splits if_splits)
  obtain x db3 where c: "close_session slog i (i64_saturating t) ?totals ?db = (x, db3)" by fastforce
  have "db2 = db3"
    using stop(1) start(2) counted c
    by (auto simp: disconnect_logged_def disconnect_def reg_remove_def reg_get_def split: prod.splits)
  moreover have "x = Inr ()" using stop(2) c by (simp add: is_ok_iff)
  ultimately have closed: "close_session slog i (i64_saturating t) ?totals ?db = (Inr (), db2)" using c by simp
  show ?thesis
    unfolding session_log [OF laws ok opened others closed]
    by (simp add: closed_row_def opened_row_def client_totals_def Let_def)
qed

definition sample_log :: "(session_row list, session_row, unit) table" where
  "sample_log = list_table sn_id (\<lambda>i r. r\<lparr>sn_id := i\<rparr>)"

theorem connection_logged_witness:
  "\<exists>(c :: str list client) st1 db1 st2 db2 r.
     register_logged whole_f64 (\<lambda>_. ''[::]:14580'') sample_log (\<lambda>_. []) sample_n0call Verified ''N0CALL'' sample_addr
       sample_context 7 (sample_state, Some []) = (c, st1, Some db1) \<and>
     disconnect_logged sample_log c 50 (st1, Some (fold (log_step sample_log) [Opened sample_new_session] db1)) =
       (st2, Some db2) \<and>
     {r \<in> set db2. sn_id r = 1} = {r} \<and> sn_callsign r = ''N0CALL'' \<and> sn_disconnected_at r = Some 50"
proof -
  let ?ops = "[Opened sample_new_session]"
  have laws: "sessions_laws sample_log (\<lambda>db. distinct (map sn_id db)) set"
    unfolding sample_log_def by (rule list_table_laws) simp
  obtain c :: "str list client" and st1 store where r: "register_logged whole_f64 (\<lambda>_. ''[::]:14580'') sample_log (\<lambda>_. [])
      sample_n0call Verified ''N0CALL'' sample_addr sample_context 7 (sample_state, Some []) = (c, st1, store)"
    by (metis surj_pair)
  have f: "(\<exists>db1. store = Some db1) \<and> cl_session_id c = Some 1 \<and>
      reg_get (ss_registry st1) (cl_id c) = Some c"
    using r by (auto simp: register_logged_def open_session_row_def open_session_def sample_log_def list_table_def Let_def
        register_def reg_insert_def reg_get_def update_conv' split: prod.splits)
  then obtain db1 where s: "store = Some db1" by blast
  have n: "list_all (\<lambda>op. \<not> closes 1 op) ?ops" by (simp add: closes_def)
  have k: "is_ok (fst (close_session sample_log 1 (i64_saturating 50) (client_totals (cl_counters c))
      (fold (log_step sample_log) ?ops db1)))"
    by (simp add: close_session_def sample_log_def list_table_def Let_def split: list.split)
  obtain st2 db2 where d: "disconnect_logged sample_log c 50 (st1, Some (fold (log_step sample_log) ?ops db1)) = (st2, Some db2)"
  proof (cases "disconnect c 50 st1")
    case (Pair closing st2)
    then show ?thesis by (cases closing) (auto simp: disconnect_logged_def intro: that)
  qed
  have ok: "distinct (map sn_id ([] :: session_row list))" by simp
  have i: "cl_session_id c = Some 1" and g: "reg_get (ss_registry st1) (cl_id c) = Some c" using f by simp_all
  have "\<exists>r. {r \<in> set db2. sn_id r = 1} = {r} \<and> sn_callsign r = ''N0CALL'' \<and> sn_disconnected_at r = Some (i64_saturating 50)"
    by (intro exI conjI, rule connection_logged [OF laws ok r [unfolded s] i n g d k]) simp_all
  with r [unfolded s] d show ?thesis by (auto simp: i64_saturating_def I64_MAX_def)
qed

end
