(* ===== verification/Web_Format.thy ===== *)
theory Web_Format
  imports F64
begin

section \<open>Numbers on the dashboard (\<open>aprsr-web/src/format.rs\<close>)\<close>

text \<open>
  The texts of counts, byte counts, durations and percentages. The printing of a double with one
  decimal (\<open>{:.1}\<close>) is the standard library's and the parameter \<open>fixed1\<close>. A thin space, U+202F, is its
  three UTF-8 bytes. \<open>count_groups\<close> shows that the separators stand exactly where thousands end.
\<close>

definition UNITS :: "str list" where
  "UNITS = [''B'', ''KiB'', ''MiB'', ''GiB'', ''TiB'', ''PiB'']"

definition f1024 :: f64 where "f1024 = f64_of_int 1024"

function bytes_loop :: "f64 \<Rightarrow> nat \<Rightarrow> f64 \<times> nat" where
  "bytes_loop x u =
     (if le_f64 f1024 x \<and> u + 1 < length UNITS then bytes_loop (div_f64 x f1024) (u + 1) else (x, u))"
  by pat_completeness auto
termination by (relation "measure (\<lambda>(x, u). length UNITS - u)") auto

declare bytes_loop.simps [simp del]

definition bytes_text :: "(f64 \<Rightarrow> str) \<Rightarrow> nat \<Rightarrow> str" where
  "bytes_text fixed1 v =
     (if v < 1024 then show_nat v @ '' B''
      else case bytes_loop (f64_of_int (int v)) 0 of
        (x, u) \<Rightarrow> fixed1 x @ '' '' @ unwrap_or ''B'' (get UNITS u))"

definition thin_space :: str where
  "thin_space = [CHR 0xE2, CHR 0x80, CHR 0xAF]"

fun count_loop :: "nat \<Rightarrow> nat \<Rightarrow> str \<Rightarrow> str" where
  "count_loop n i [] = []"
| "count_loop n i (ch # rest) =
     (if i > 0 \<and> (n - i) mod 3 = 0 then thin_space else []) @ ch # count_loop n (i + 1) rest"

definition count_text :: "nat \<Rightarrow> str" where
  "count_text v = (let digits = show_nat v in count_loop (length digits) 0 digits)"

definition duration_text :: "nat \<Rightarrow> str" where
  "duration_text seconds =
     (if seconds < 60 then show_nat seconds @ ''s''
      else
        (let days = seconds div 86400;
             hours = (seconds mod 86400) div 3600;
             minutes = (seconds mod 3600) div 60
         in if days > 0 then show_nat days @ ''d '' @ show_nat hours @ ''h''
            else if hours > 0 then show_nat hours @ ''h '' @ show_nat minutes @ ''m''
            else show_nat minutes @ ''m''))"

definition since_text :: "nat \<Rightarrow> nat \<Rightarrow> str" where
  "since_text timestamp now =
     (if timestamp > now then ''just now''
      else if now - timestamp \<le> 5 then ''just now''
      else duration_text (now - timestamp) @ '' ago'')"

definition percent_text :: "(f64 \<Rightarrow> str) \<Rightarrow> nat \<Rightarrow> nat \<Rightarrow> str" where
  "percent_text fixed1 part whole =
     (if whole = 0 then ''0.0%''
      else fixed1 (mul_f64 (div_f64 (f64_of_int (int part)) (f64_of_int (int whole))) (f64_of_int 100)) @ ''%'')"

subsection \<open>Groups of three\<close>

function thousands :: "str \<Rightarrow> str list" where
  "thousands s = (if length s \<le> 3 then [s] else thousands (take (length s - 3) s) @ [drop (length s - 3) s])"
  by pat_completeness auto
termination by (relation "measure length") auto

declare thousands.simps [simp del]

lemma count_loop_short:
  "length s \<le> 3 \<Longrightarrow> n = i + length s \<Longrightarrow> i = 0 \<Longrightarrow> count_loop n i s = s"
  by (cases s; cases "tl s"; cases "tl (tl s)") auto

lemma count_loop_last3:
  assumes "length x = 3" and "n = i + 3" and "0 < i"
  shows "count_loop n i x = thin_space @ x"
proof -
  from assms(1) obtain a b c where "x = [a, b, c]" by (auto simp: numeral_3_eq_3 length_Suc_conv)
  then show ?thesis using assms(2,3) by simp
qed

text \<open>Three more digits at the end do not move the separators before them.\<close>

lemma count_loop_append:
  "length x = 3 \<Longrightarrow> u \<noteq> [] \<or> 0 < i \<Longrightarrow>
     count_loop (i + length u + 3) i (u @ x) = count_loop (i + length u) i u @ thin_space @ x"
proof (induction u arbitrary: i)
  case Nil
  then show ?case by (simp add: count_loop_last3)
next
  case (Cons d u)
  have "count_loop (i + 1 + length u + 3) (i + 1) (u @ x) = count_loop (i + 1 + length u) (i + 1) u @ thin_space @ x"
    by (rule Cons.IH) (use Cons.prems in simp_all)
  moreover have "i + 1 + length u + 3 - i = (i + 1 + length u - i) + 3" by simp
  then have "(i + 1 + length u + 3 - i) mod 3 = (i + 1 + length u - i) mod 3" by (simp only: mod_add_self2)
  moreover have "count_loop (i + length (d # u) + 3) i ((d # u) @ x) =
      (if i > 0 \<and> (i + 1 + length u + 3 - i) mod 3 = 0 then thin_space else []) @
        d # count_loop (i + 1 + length u + 3) (i + 1) (u @ x)"
    by (simp add: ac_simps)
  moreover have "count_loop (i + length (d # u)) i (d # u) =
      (if i > 0 \<and> (i + 1 + length u - i) mod 3 = 0 then thin_space else []) @
        d # count_loop (i + 1 + length u) (i + 1) u"
    by (simp add: ac_simps)
  ultimately show ?case by (metis append.assoc append_Cons)
qed

lemma count_loop_thousands: "count_loop (length s) 0 s = join thin_space (thousands s)"
proof (induction s rule: thousands.induct)
  case (1 s)
  show ?case
  proof (cases "length s \<le> 3")
    case True
    then show ?thesis by (simp add: thousands.simps [of s] count_loop_short)
  next
    case False
    let ?u = "take (length s - 3) s" and ?x = "drop (length s - 3) s"
    have l: "length ?x = 3" "length ?u + 3 = length s" "?u \<noteq> []" using False by auto
    have j: "join sep (ws @ [w]) = join sep ws @ sep @ w" if "ws \<noteq> []" for sep w and ws :: "str list"
      using that by (induction sep ws rule: join.induct) simp_all
    have t: "thousands ?u \<noteq> []" by (subst thousands.simps) simp
    have "count_loop (0 + length ?u + 3) 0 (?u @ ?x) = count_loop (0 + length ?u) 0 ?u @ thin_space @ ?x"
      by (rule count_loop_append) (use l in simp_all)
    then have "count_loop (length s) 0 s = count_loop (length ?u) 0 ?u @ thin_space @ ?x"
      using l(2) by simp
    also have "\<dots> = join thin_space (thousands s)"
      using "1.IH" [OF False] False by (subst thousands.simps [of s]) (simp add: j [OF t])
    finally show ?thesis .
  qed
qed

lemma thousands_groups:
  "concat (thousands s) = s \<and> list_all (\<lambda>g. length g = 3) (tl (thousands s)) \<and>
     length (hd (thousands s)) \<le> 3 \<and> (s \<noteq> [] \<longrightarrow> hd (thousands s) \<noteq> [])"
proof (induction s rule: thousands.induct)
  case (1 s)
  show ?case
  proof (cases "length s \<le> 3")
    case True
    then show ?thesis by (simp add: thousands.simps [of s])
  next
    case False
    have t: "thousands (take (length s - 3) s) \<noteq> []" by (subst thousands.simps) simp
    have "take (length s - 3) s \<noteq> []" using False by auto
    with "1.IH" [OF False] False t show ?thesis
      by (subst (1 2 3 4) thousands.simps [of s]) auto
  qed
qed

text \<open>A count is printed as its decimal digits, cut from the right into groups of three with a thin space
  between them: the digits are those of the number, every group but the first has exactly three, and the first has
  one to three.\<close>

theorem count_groups:
  "\<exists>groups. count_text v = join thin_space groups \<and> concat groups = show_nat v \<and>
     list_all (\<lambda>g. length g = 3) (tl groups) \<and> length (hd groups) \<in> {1..3}"
  using thousands_groups [of "show_nat v"]
  by (intro exI [of _ "thousands (show_nat v)"]) (auto simp: count_text_def count_loop_thousands Let_def Suc_le_eq)

end
