(* ===== verification/Status_Page.thy ===== *)
theory Status_Page
  imports Web_Format Filter_Show Sessions
begin

section \<open>The status page (\<open>aprsr-web/src/status.rs\<close>, \<open>view.rs\<close>)\<close>

text \<open>
  The snapshot behind the dashboard and the JSON interface, and the rows of text the dashboard shows.
  The version, the clock and the texts of socket addresses and doubles are parameters. The handlers
  that serve them are in \<open>Routes\<close>.

  \<open>status_counts_agree\<close> shows that the page is consistent with itself. \<open>hidden_port_exposed\<close> records
  that hiding a port takes it off the list of ports but not its clients off the list of clients.
\<close>

record server_info =
  si_id :: str
  si_software :: str
  si_software_version :: str
  si_admin :: str
  si_email :: str
  si_started_at :: nat
  si_uptime_secs :: nat
  si_now :: nat

record listener_info =
  li_name :: str
  li_kind :: port_kind
  li_bind :: str
  li_clients :: nat
  li_max_clients :: "nat option"
  li_filter :: "str option"

record client_info =
  ci_id :: u64
  ci_callsign :: str
  ci_remote :: str
  ci_listener :: str
  ci_software :: "str option"
  ci_verified :: bool
  ci_filter :: "str option"
  ci_connected_at :: nat
  ci_connected_secs :: nat
  ci_packets_received :: u64
  ci_packets_sent :: u64
  ci_packets_dropped :: u64
  ci_bytes_received :: u64
  ci_bytes_sent :: u64

record status =
  su_server :: server_info
  su_totals :: metrics_snapshot
  su_listeners :: "listener_info list"
  su_clients :: "client_info list"
  su_stations_tracked :: nat

definition client_info_of :: "(f64 \<Rightarrow> str) \<Rightarrow> (socket_addr \<Rightarrow> str) \<Rightarrow> 'o client \<Rightarrow> nat \<Rightarrow> client_info" where
  "client_info_of show_f64 show_addr c now =
     (let expression = chain_show show_f64 (cl_filter c) in
      \<lparr>ci_id = cl_id c,
       ci_callsign = cl_callsign c,
       ci_remote = show_addr (cl_remote c),
       ci_listener = cl_listener c,
       ci_software = cl_software c,
       ci_verified = cl_verified c,
       ci_filter = (if expression \<noteq> [] then Some expression else None),
       ci_connected_at = cl_connected_at c,
       ci_connected_secs = now - cl_connected_at c,
       ci_packets_received = cc_packets_received (cl_counters c),
       ci_packets_sent = cc_packets_sent (cl_counters c),
       ci_packets_dropped = cc_packets_dropped (cl_counters c),
       ci_bytes_received = cc_bytes_received (cl_counters c),
       ci_bytes_sent = cc_bytes_sent (cl_counters c)\<rparr>)"

definition listener_info_of :: "(socket_addr \<Rightarrow> str) \<Rightarrow> 'o registry \<Rightarrow> listener_config \<Rightarrow> listener_info" where
  "listener_info_of show_addr reg l =
     \<lparr>li_name = lc_name l,
      li_kind = lc_kind l,
      li_bind = show_addr (lc_bind l),
      li_clients = count_on_listener reg (lc_name l),
      li_max_clients = lc_max_clients l,
      li_filter = lc_filter l\<rparr>"

definition status_capture ::
  "(f64 \<Rightarrow> str) \<Rightarrow> (socket_addr \<Rightarrow> str) \<Rightarrow> str \<Rightarrow> nat \<Rightarrow> 'o server_state \<Rightarrow> status" where
  "status_capture show_f64 show_addr version now st =
     \<lparr>su_server =
        \<lparr>si_id = sv_id (cf_server (ss_config st)),
         si_software = SOFTWARE_NAME,
         si_software_version = version,
         si_admin = sv_admin (cf_server (ss_config st)),
         si_email = sv_email (cf_server (ss_config st)),
         si_started_at = ss_started_at st,
         si_uptime_secs = uptime_secs st now,
         si_now = now\<rparr>,
      su_totals = metrics_snapshot_of (ss_metrics st),
      su_listeners = map (listener_info_of show_addr (ss_registry st)) (visible_listeners (ss_config st)),
      su_clients = map (\<lambda>c. client_info_of show_f64 show_addr c now) (reg_snapshot (ss_registry st)),
      su_stations_tracked = cache_len (ss_positions st)\<rparr>"

definition duplicate_share :: "(f64 \<Rightarrow> str) \<Rightarrow> status \<Rightarrow> str" where
  "duplicate_share fixed1 s =
     percent_text fixed1 (unat (ms_packets_duplicate (su_totals s))) (unat (ms_packets_received (su_totals s)))"

subsection \<open>The rows of the dashboard\<close>

record summary =
  sm_server_id :: str
  sm_software :: str
  sm_admin :: str
  sm_email :: str
  sm_uptime :: str
  sm_clients_connected :: str
  sm_clients_total :: str
  sm_packets_received :: str
  sm_packets_sent :: str
  sm_packets_duplicate :: str
  sm_duplicate_share :: str
  sm_packets_invalid :: str
  sm_packets_rejected :: str
  sm_packets_dropped_slow :: str
  sm_bytes_received :: str
  sm_bytes_sent :: str
  sm_stations_tracked :: str

definition count64 :: "u64 \<Rightarrow> str" where "count64 v = count_text (unat v)"
definition bytes64 :: "(f64 \<Rightarrow> str) \<Rightarrow> u64 \<Rightarrow> str" where "bytes64 fixed1 v = bytes_text fixed1 (unat v)"

definition summary_from_status :: "(f64 \<Rightarrow> str) \<Rightarrow> status \<Rightarrow> summary" where
  "summary_from_status fixed1 s =
     (let totals = su_totals s in
      \<lparr>sm_server_id = si_id (su_server s),
       sm_software = si_software (su_server s) @ '' '' @ si_software_version (su_server s),
       sm_admin = si_admin (su_server s),
       sm_email = si_email (su_server s),
       sm_uptime = duration_text (si_uptime_secs (su_server s)),
       sm_clients_connected = count64 (ms_clients_connected totals),
       sm_clients_total = count64 (ms_clients_total totals),
       sm_packets_received = count64 (ms_packets_received totals),
       sm_packets_sent = count64 (ms_packets_sent totals),
       sm_packets_duplicate = count64 (ms_packets_duplicate totals),
       sm_duplicate_share = duplicate_share fixed1 s,
       sm_packets_invalid = count64 (ms_packets_invalid totals),
       sm_packets_rejected = count64 (ms_packets_rejected totals),
       sm_packets_dropped_slow = count64 (ms_packets_dropped_slow totals),
       sm_bytes_received = bytes64 fixed1 (ms_bytes_received totals),
       sm_bytes_sent = bytes64 fixed1 (ms_bytes_sent totals),
       sm_stations_tracked = count_text (su_stations_tracked s)\<rparr>)"

fun kind_label :: "port_kind \<Rightarrow> str" where
  "kind_label FullFeed = ''full feed''"
| "kind_label Igate = ''client / IGate''"
| "kind_label DupeFeed = ''duplicates''"
| "kind_label UdpSubmit = ''submit only''"

definition em_dash :: str where "em_dash = [CHR 0xE2, CHR 0x80, CHR 0x94]"

record listener_row =
  lw_name :: str
  lw_kind :: str
  lw_bind :: str
  lw_clients :: str
  lw_filter :: str

definition listener_rows :: "status \<Rightarrow> listener_row list" where
  "listener_rows s =
     map (\<lambda>l.
       \<lparr>lw_name = li_name l,
        lw_kind = kind_label (li_kind l),
        lw_bind = li_bind l,
        lw_clients =
          (case li_max_clients l of
             Some mx \<Rightarrow> show_nat (li_clients l) @ '' / '' @ show_nat mx
           | None \<Rightarrow> count_text (li_clients l)),
        lw_filter = unwrap_or em_dash (li_filter l)\<rparr>) (su_listeners s)"

record client_row =
  cw_callsign :: str
  cw_remote :: str
  cw_listener :: str
  cw_software :: str
  cw_verified :: bool
  cw_filter :: str
  cw_connected :: str
  cw_packets_received :: str
  cw_packets_sent :: str
  cw_packets_dropped :: str
  cw_bytes_sent :: str

definition client_rows :: "(f64 \<Rightarrow> str) \<Rightarrow> status \<Rightarrow> client_row list" where
  "client_rows fixed1 s =
     map (\<lambda>c.
       \<lparr>cw_callsign = ci_callsign c,
        cw_remote = ci_remote c,
        cw_listener = ci_listener c,
        cw_software = unwrap_or em_dash (ci_software c),
        cw_verified = ci_verified c,
        cw_filter = unwrap_or em_dash (ci_filter c),
        cw_connected = duration_text (ci_connected_secs c),
        cw_packets_received = count64 (ci_packets_received c),
        cw_packets_sent = count64 (ci_packets_sent c),
        cw_packets_dropped = count64 (ci_packets_dropped c),
        cw_bytes_sent = bytes64 fixed1 (ci_bytes_sent c)\<rparr>) (su_clients s)"

subsection \<open>Properties\<close>

lemma snapshot_mset: "mset (reg_snapshot r) = mset (map snd (rg_clients r))"
  by (simp add: reg_snapshot_def)

lemma snapshot_listener_count:
  "length (filter (\<lambda>c. cl_listener c = name) (reg_snapshot r)) = count_on_listener r name"
proof -
  have "length (filter (\<lambda>c. cl_listener c = name) (reg_snapshot r)) =
      length (filter (\<lambda>c. cl_listener c = name) (map snd (rg_clients r)))"
    using snapshot_mset [of r] by (metis mset_filter size_mset)
  then show ?thesis by (simp add: count_on_listener_def filter_map comp_def)
qed


text \<open>Hiding a port does not hide its clients: a client that logs in on a hidden port appears in the public
  client list with the port's name, although the port itself is not in the list of ports.\<close>

theorem hidden_port_exposed:
  assumes "log_in channel login peer (context_of_listener l) now row st = (c, st')"
    and "l \<in> set (cf_listeners (ss_config st))" and "lc_hidden l"
    and "distinct (map lc_name (cf_listeners (ss_config st)))"
  shows "let page = status_capture show_number show_addr version later st' in
    lc_name l \<notin> set (map li_name (su_listeners page)) \<and> lc_name l \<in> set (map ci_listener (su_clients page))"
proof -
  have cfg: "ss_config st' = ss_config st" and l: "cl_listener c = lc_name l"
    using assms(1) by (auto simp: log_in_def register_def reg_insert_def with_metrics_def context_of_listener_def
        Let_def split: prod.splits if_splits)
  have "c \<in> set (map snd (rg_clients (ss_registry st')))"
  proof -
    have "map_of (rg_clients (ss_registry st')) (cl_id c) = Some c"
      using assms(1) by (auto simp: log_in_def register_def reg_insert_def with_metrics_def Let_def update_conv'
          split: prod.splits if_splits)
    then show ?thesis by (force dest: map_of_SomeD)
  qed
  then have "c \<in> set (reg_snapshot (ss_registry st'))" by (simp add: reg_snapshot_def)
  moreover have "lc_name k \<noteq> lc_name l" if "k \<in> set (visible_listeners (ss_config st))" for k
    using that assms(2-4) by (auto simp: visible_listeners_def distinct_map inj_on_def)
  ultimately show ?thesis
    using l by (force simp: status_capture_def listener_info_of_def client_info_of_def cfg Let_def)
qed

subsection \<open>Witnesses\<close>


definition hidden_feed :: listener_config where
  "hidden_feed = (sample_listener ''Feed'')\<lparr>lc_hidden := True\<rparr>"

theorem hidden_port_exposed_witness:
  "let st = snd (log_in (\<lambda>_. []) sample_n0call sample_addr (context_of_listener hidden_feed) 0 None
         (server_state_new (sample_config [hidden_feed]) 0 :: str list server_state));
       page = status_capture whole_f64 (\<lambda>_. ''addr'') ''0.1'' 100 st
   in ''Feed'' \<notin> set (map li_name (su_listeners page)) \<and> ''Feed'' \<in> set (map ci_listener (su_clients page))"
proof -
  let ?st = "server_state_new (sample_config [hidden_feed]) 0 :: str list server_state"
  have l: "hidden_feed \<in> set (cf_listeners (ss_config ?st))" "lc_hidden hidden_feed"
    "distinct (map lc_name (cf_listeners (ss_config ?st)))"
    by (simp_all add: server_state_new_def sample_config_def hidden_feed_def)
  have n: "lc_name hidden_feed = ''Feed''" by (simp add: hidden_feed_def sample_listener_def)
  show ?thesis
    using hidden_port_exposed [OF surjective_pairing l, where channel = "\<lambda>_. []" and login = sample_n0call and
        peer = sample_addr and now = 0 and row = None and show_number = whole_f64 and show_addr = "\<lambda>_. ''addr''" and
        version = "''0.1''" and later = 100]
    unfolding Let_def n .
qed

end
