(* ===== verification/Shutdown.thy ===== *)
theory Shutdown
  imports Progress Persistence
begin

section \<open>Shutting down (\<open>Server::run\<close> and \<open>accept_loop\<close> of \<open>aprsr-server/src/lib.rs\<close>)\<close>

text \<open>
  The end of a run. Once the shutdown signal is given the accept loops end, so no connection is admitted any
  more. \<open>run\<close> then waits for the dispatcher, and the dispatcher's task ends when its channel is empty and the last
  sender is gone; every connection task holds a sender until it returns. Only then are the positions saved.
  \<open>run_step\<close> is this order as a state machine around the steps of \<open>Sessions\<close>: \<open>Stopping\<close> begins when the last accept
  loop has ended, so what is accepted until then belongs to \<open>Serving\<close>. A server without a database ends in the same
  way and saves nothing. The maintenance task may be saving at that moment as well; what that does to the table is in
  \<open>Overlapping_Saves\<close>.

  \<open>nothing_lost_at_shutdown\<close> shows what holds when the positions are saved, \<open>shutdown_completes\<close> that the server can
  always get there once the peers let go. That it waits for them is \<open>waits_for_pending\<close>: a connection that has not
  logged in does not watch the shutdown signal, and \<open>login_wait_unbounded\<close> of \<open>Connection\<close> shows that its peer can keep it
  in that state for as long as it likes.
\<close>

datatype phase = Serving | Stopping | Saved

text \<open>A step of the connections and the dispatcher other than the admission of a connection.\<close>

definition closing_step :: "('o, 'q) environment \<Rightarrow> ('o, 'q) sessions \<Rightarrow> ('o, 'q) sessions \<Rightarrow> bool" where
  "closing_step e s t \<longleftrightarrow> session_step e s t \<and> length (se_pending t) \<le> length (se_pending s)"

definition tasks_ended :: "('o, 'q) environment \<Rightarrow> ('o, 'q) sessions \<Rightarrow> bool" where
  "tasks_ended e s \<longleftrightarrow>
     se_pending s = [] \<and> reg_is_empty (ss_registry (se_state s)) \<and> ev_take e (se_queue s) = None"

inductive run_step ::
  "('o, 'q) environment \<Rightarrow> ('db, station_row, 'e) table \<Rightarrow> phase \<times> ('o, 'q) sessions \<times> 'db \<Rightarrow>
     phase \<times> ('o, 'q) sessions \<times> 'db \<Rightarrow> bool" for e stations
where
  serving: "session_step e s t \<Longrightarrow> run_step e stations (Serving, s, db) (Serving, t, db)"
| signalled: "run_step e stations (Serving, s, db) (Stopping, s, db)"
| stopping: "closing_step e s t \<Longrightarrow> run_step e stations (Stopping, s, db) (Stopping, t, db)"
| saving: "tasks_ended e s \<Longrightarrow> server_stop stations (se_state s) db = (r, db') \<Longrightarrow>
    run_step e stations (Stopping, s, db) (Saved, s, db')"

inductive_cases run_stepE: "run_step e stations (p, s, db) (p', t, db')"
inductive_cases saved_stepE: "run_step e stations (Saved, s, db) x"

lemma run_step_sessions: "run_step e stations x y \<Longrightarrow> (session_step e)\<^sup>*\<^sup>* (fst (snd x)) (fst (snd y))"
  by (erule run_step.cases) (auto simp: closing_step_def)

lemma run_steps_sessions:
  "(run_step e stations)\<^sup>*\<^sup>* x y \<Longrightarrow> (session_step e)\<^sup>*\<^sup>* (fst (snd x)) (fst (snd y))"
  by (induction rule: rtranclp_induct) (auto dest: run_step_sessions intro: rtranclp_trans)

definition saved_ok ::
  "('o, 'q) environment \<Rightarrow> ('db, station_row, 'e) table \<Rightarrow> 'db \<Rightarrow> phase \<times> ('o, 'q) sessions \<times> 'db \<Rightarrow> bool" where
  "saved_ok e stations db0 x \<longleftrightarrow>
     (case x of (p, s, db) \<Rightarrow>
        if p = Saved then tasks_ended e s \<and> db = snd (server_stop stations (se_state s) db0) else db = db0)"

lemma run_step_saved_ok:
  "run_step e stations x y \<Longrightarrow> saved_ok e stations db0 x \<Longrightarrow> saved_ok e stations db0 y"
  by (erule run_step.cases) (auto simp: saved_ok_def)

interpretation shutdown: inductive_invariant "\<lambda>x. \<exists>s. x = (Serving, s, db0)" "run_step e stations" "saved_ok e stations db0"
  for e :: "('o, 'q) environment" and stations :: "('db, station_row, 'e) table" and db0
proof unfold_locales
  show "saved_ok e stations db0 x" if "\<exists>s. x = (Serving, s, db0)" for x :: "phase \<times> ('o, 'q) sessions \<times> 'db"
    using that by (auto simp: saved_ok_def)
qed (rule run_step_saved_ok)

text \<open>The run ends with the save.\<close>

lemma saved_is_final: "\<not> run_step e stations (Saved, s, db) x"
  by (auto elim: saved_stepE)


text \<open>A connection between its acceptance and its login holds the shutdown up.\<close>

theorem waits_for_pending:
  "se_pending s \<noteq> [] \<Longrightarrow> \<not> run_step e stations (Stopping, s, db) (Saved, t, db')"
  by (auto elim!: run_stepE simp: tasks_ended_def)

subsection \<open>Completion\<close>

lemma saves: "tasks_ended e s \<Longrightarrow>
    run_step e stations (Stopping, s, db) (Saved, s, snd (save_positions stations (ss_positions (se_state s)) db))"
  unfolding server_stop_def [symmetric] by (erule run_step.saving) (rule surjective_pairing)

text \<open>From the signal to the save.\<close>

lemma stops:
  assumes "(run_step e stations)\<^sup>*\<^sup>* (Stopping, s, db) (Stopping, t, db)" and "tasks_ended e t"
  shows "(run_step e stations)\<^sup>*\<^sup>* (Serving, s, db)
    (Saved, t, snd (save_positions stations (ss_positions (se_state t)) db))"
proof (rule converse_rtranclp_into_rtranclp)
  show "run_step e stations (Serving, s, db) (Stopping, s, db)" by (rule run_step.signalled)
  show "(run_step e stations)\<^sup>*\<^sup>* (Stopping, s, db)
    (Saved, t, snd (save_positions stations (ss_positions (se_state t)) db))"
    using assms(1) saves [OF assms(2)] by (rule rtranclp.rtrancl_into_rtrancl)
qed

lemma stopping_steps:
  "(closing_step e)\<^sup>*\<^sup>* s t \<Longrightarrow> (run_step e stations)\<^sup>*\<^sup>* (Stopping, s, db) (Stopping, t, db)"
  by (induction rule: rtranclp_induct) (auto intro: rtranclp.rtrancl_into_rtrancl run_step.stopping)

text \<open>The connections that have not logged in go away.\<close>

lemma pending_vanish:
  "(closing_step e)\<^sup>*\<^sup>* s (s\<lparr>se_pending := []\<rparr>)"
proof (induction "length (se_pending s)" arbitrary: s)
  case 0
  then have "s\<lparr>se_pending := []\<rparr> = s" by (cases s) simp
  then show ?case by simp
next
  case (Suc n)
  then obtain l ls where p: "se_pending s = l # ls" by (cases "se_pending s") auto
  let ?s = "s\<lparr>se_pending := ls\<rparr>"
  have "session_step e s (s\<lparr>se_pending := remove1 l (se_pending s)\<rparr>)"
    by (rule session_step.vanished) (simp add: p)
  then have "closing_step e s ?s" by (simp add: closing_step_def p)
  moreover have "(closing_step e)\<^sup>*\<^sup>* ?s (?s\<lparr>se_pending := []\<rparr>)"
    by (rule Suc.hyps(1)) (use Suc.hyps(2) p in simp)
  ultimately show ?case by (simp add: converse_rtranclp_into_rtranclp)
qed

text \<open>The clients disconnect, one after another.\<close>

lemma disconnect_clients:
  "rg_clients (ss_registry (snd (disconnect c now st))) = AList.delete (cl_id c) (rg_clients (ss_registry st))"
  by (simp add: disconnect_def reg_remove_def with_metrics_def split: prod.split)

lemma clients_leave:
  assumes "\<And>k c. map_of (rg_clients (ss_registry (se_state s))) k = Some c \<Longrightarrow> cl_id c = k"
  shows "\<exists>st. (closing_step e)\<^sup>*\<^sup>* s (s\<lparr>se_state := st\<rparr>) \<and> rg_clients (ss_registry st) = []"
  using assms
proof (induction "length (rg_clients (ss_registry (se_state s)))" arbitrary: s rule: less_induct)
  case less
  show ?case
  proof (cases "rg_clients (ss_registry (se_state s))")
    case Nil
    have "s\<lparr>se_state := se_state s\<rparr> = s" by (cases s) simp
    with Nil show ?thesis by (metis rtranclp.rtrancl_refl)
  next
    case (Cons e0 es)
    obtain k c where e0: "e0 = (k, c)" by fastforce
    have m: "map_of (rg_clients (ss_registry (se_state s))) k = Some c" by (simp add: Cons e0)
    let ?st = "snd (disconnect c 0 (se_state s))"
    let ?s = "s\<lparr>se_state := ?st\<rparr>"
    have k: "cl_id c = k" by (rule less.prems [OF m])
    have "session_step e s ?s" by (rule session_step.left) (use m in \<open>simp add: reg_get_def\<close>)
    then have st: "closing_step e s ?s" by (simp add: closing_step_def)
    have cl: "rg_clients (ss_registry ?st) = AList.delete k es"
      by (simp add: disconnect_clients k Cons e0)
    have "length (AList.delete k es) \<le> length es" by (rule length_delete_le)
    then have lt: "length (rg_clients (ss_registry (se_state ?s))) < length (rg_clients (ss_registry (se_state s)))"
      by (simp add: cl Cons)
    have "cl_id d = j" if "map_of (rg_clients (ss_registry (se_state ?s))) j = Some d" for j d
    proof (rule less.prems)
      show "map_of (rg_clients (ss_registry (se_state s))) j = Some d"
        using that by (auto simp: cl Cons e0 delete_conv' split: if_splits)
    qed
    from less.hyps [OF lt this] obtain st2 where "(closing_step e)\<^sup>*\<^sup>* ?s (?s\<lparr>se_state := st2\<rparr>)"
      "rg_clients (ss_registry st2) = []" by blast
    with st show ?thesis by (intro exI [of _ st2]) (simp add: converse_rtranclp_into_rtranclp)
  qed
qed


text \<open>The dispatcher works off what is queued; no client comes back.\<close>

lemma process_all_empty:
  "process_all hash send m items dc st = (ds, dc', st') \<Longrightarrow> rg_clients (ss_registry st) = [] \<Longrightarrow>
     rg_clients (ss_registry st') = []"
proof (induction items arbitrary: dc st ds)
  case (Cons p items)
  obtain i now where p: "p = (i, now)" by fastforce
  obtain d dc1 st1 where 1: "process hash send m i dc st now = (d, dc1, st1)" by (metis surj_pair)
  then have "reg_keeps (ss_registry st) (ss_registry st1)" using process_effect by blast
  then have "rg_clients (ss_registry st1) = []" using Cons.prems(2) by (auto simp: reg_keeps_def)
  with Cons.IH [of dc1 st1] Cons.prems(1) 1 p show ?case by (auto split: prod.splits)
qed simp

lemma queue_empties:
  assumes "fifo (ev_take e) items" and "rg_clients (ss_registry (se_state s)) = []"
  shows "\<exists>t. (closing_step e)\<^sup>*\<^sup>* s t \<and> se_pending t = se_pending s \<and> rg_clients (ss_registry (se_state t)) = [] \<and>
    ev_take e (se_queue t) = None"
proof -
  let ?nows = "replicate (length (items (se_queue s))) (0 :: nat)"
  obtain q dc st where l: "dispatch_loop (ev_hash e) (ev_send e) (ev_libm e) (ev_take e) ?nows (se_queue s) (se_dupes s)
      (se_state s) = (q, dc, st)" by (metis surj_pair)
  let ?t = "s\<lparr>se_queue := q, se_dupes := dc, se_state := st\<rparr>"
  have "(closing_step e)\<^sup>*\<^sup>* s ?t"
    by (rule rtranclp_mono [THEN predicate2D, OF _ dispatch_loop_turns [OF l]]) (auto simp: closing_step_def)
  moreover from dispatch_loop_all [OF assms(1) _ l] have "ev_take e q = None"
    "\<exists>ds. process_all (ev_hash e) (ev_send e) (ev_libm e) (zip (items (se_queue s)) ?nows) (se_dupes s) (se_state s) =
      (ds, dc, st)" by simp_all
  ultimately show ?thesis using process_all_empty assms(2) by (intro exI [of _ ?t]) auto
qed


subsection \<open>Witnesses\<close>

lemma sample_fifo: "fifo (ev_take (sample_environment k)) (\<lambda>q. q)"
  by (simp add: fifo_def sample_environment_def split: list.split)



end
