(* ===== verification/Schema.thy ===== *)
theory Schema
  imports Persistence
begin

section \<open>The database schema (\<open>aprsr-store/src/migration/\<close>, \<open>entity/\<close>, \<open>Store::connect\<close>)\<close>

text \<open>
  The initial migration as the statements it gives the schema manager, and the entities as the types of their
  fields. The schema manager and the derived names belong to the database library: the manager is a record of the
  statements used, \<open>manager_laws\<close> says what \<open>CREATE\<close> and \<open>DROP\<close> do to the schema when they succeed, and \<open>iden\<close> is the
  name derived for an identifier, relied on to be its snake case.

  \<open>entities_match_schema\<close> shows that the columns the migration creates carry the types the entities read,
  \<open>migration_undone\<close> that taking it back restores the schema, and \<open>saved_rows_fit\<close> that the server never writes a
  text longer than its column.
\<close>

subsection \<open>Tables as data\<close>

datatype column_type = Integer | Big_Integer | Double | Boolean | String_Len nat | String_Col

record column_def =
  cd_name :: str
  cd_type :: "column_type option"
  cd_not_null :: bool
  cd_auto_increment :: bool
  cd_primary_key :: bool
  cd_unique_key :: bool
  cd_default :: "int option"

record table_def =
  td_name :: str
  td_if_not_exists :: bool
  td_cols :: "column_def list"

record index_def =
  ix_if_not_exists :: bool
  ix_name :: str
  ix_table :: str
  ix_cols :: "str list"

definition column_new :: "str \<Rightarrow> column_def" where
  "column_new n =
     \<lparr>cd_name = n, cd_type = None, cd_not_null = False, cd_auto_increment = False, cd_primary_key = False,
      cd_unique_key = False, cd_default = None\<rparr>"

definition of_type :: "column_type \<Rightarrow> column_def \<Rightarrow> column_def" where
  "of_type t c = c\<lparr>cd_type := Some t\<rparr>"

definition not_null :: "column_def \<Rightarrow> column_def" where
  "not_null c = c\<lparr>cd_not_null := True\<rparr>"

definition unique_key :: "column_def \<Rightarrow> column_def" where
  "unique_key c = c\<lparr>cd_unique_key := True\<rparr>"

definition default_to :: "int \<Rightarrow> column_def \<Rightarrow> column_def" where
  "default_to d c = c\<lparr>cd_default := Some d\<rparr>"

definition id_column :: "str \<Rightarrow> column_def" where
  "id_column n = (not_null (of_type Integer (column_new n)))\<lparr>cd_auto_increment := True, cd_primary_key := True\<rparr>"

lemmas column_defs = column_new_def of_type_def not_null_def unique_key_def default_to_def id_column_def

text \<open>What the migration calls of the schema manager.\<close>

record ('db, 'e) schema_manager =
  sm_create_table :: "table_def \<Rightarrow> 'db \<Rightarrow> ('e, 'db) result"
  sm_create_index :: "index_def \<Rightarrow> 'db \<Rightarrow> ('e, 'db) result"
  sm_drop_table :: "str \<Rightarrow> 'db \<Rightarrow> ('e, 'db) result"

subsection \<open>The migration\<close>

definition station_position_table :: "(str \<Rightarrow> str) \<Rightarrow> table_def" where
  "station_position_table iden =
     \<lparr>td_name = iden ''StationPosition'', td_if_not_exists = True,
      td_cols =
        [id_column (iden ''Id''),
         unique_key (not_null (of_type (String_Len 9) (column_new (iden ''Callsign'')))),
         not_null (of_type Double (column_new (iden ''Latitude''))),
         not_null (of_type Double (column_new (iden ''Longitude''))),
         of_type (String_Len 1) (column_new (iden ''SymbolTable'')),
         of_type (String_Len 1) (column_new (iden ''SymbolCode'')),
         not_null (of_type Big_Integer (column_new (iden ''HeardAt'')))]\<rparr>"

definition create_station_position ::
  "(str \<Rightarrow> str) \<Rightarrow> ('db, 'e) schema_manager \<Rightarrow> 'db \<Rightarrow> ('e, 'db) result" where
  "create_station_position iden sm db =
     and_then (sm_create_table sm (station_position_table iden) db) (\<lambda>db.
       sm_create_index sm
         \<lparr>ix_if_not_exists = True, ix_name = ''idx_station_position_callsign'',
          ix_table = iden ''StationPosition'', ix_cols = [iden ''Callsign'']\<rparr> db)"

definition client_session_table :: "(str \<Rightarrow> str) \<Rightarrow> table_def" where
  "client_session_table iden =
     \<lparr>td_name = iden ''ClientSession'', td_if_not_exists = True,
      td_cols =
        [id_column (iden ''Id''),
         not_null (of_type (String_Len 9) (column_new (iden ''Callsign''))),
         not_null (of_type String_Col (column_new (iden ''RemoteAddr''))),
         not_null (of_type String_Col (column_new (iden ''Listener''))),
         of_type String_Col (column_new (iden ''Software'')),
         not_null (of_type Boolean (column_new (iden ''Verified''))),
         of_type String_Col (column_new (iden ''Filter'')),
         not_null (of_type Big_Integer (column_new (iden ''ConnectedAt''))),
         of_type Big_Integer (column_new (iden ''DisconnectedAt'')),
         default_to 0 (not_null (of_type Big_Integer (column_new (iden ''PacketsReceived'')))),
         default_to 0 (not_null (of_type Big_Integer (column_new (iden ''PacketsSent'')))),
         default_to 0 (not_null (of_type Big_Integer (column_new (iden ''PacketsDropped'')))),
         default_to 0 (not_null (of_type Big_Integer (column_new (iden ''BytesReceived'')))),
         default_to 0 (not_null (of_type Big_Integer (column_new (iden ''BytesSent''))))]\<rparr>"

definition create_client_session ::
  "(str \<Rightarrow> str) \<Rightarrow> ('db, 'e) schema_manager \<Rightarrow> 'db \<Rightarrow> ('e, 'db) result" where
  "create_client_session iden sm db =
     and_then (sm_create_table sm (client_session_table iden) db) (\<lambda>db.
     and_then (sm_create_index sm
         \<lparr>ix_if_not_exists = True, ix_name = ''idx_client_session_callsign'',
          ix_table = iden ''ClientSession'', ix_cols = [iden ''Callsign'']\<rparr> db) (\<lambda>db.
       sm_create_index sm
         \<lparr>ix_if_not_exists = True, ix_name = ''idx_client_session_connected_at'',
          ix_table = iden ''ClientSession'', ix_cols = [iden ''ConnectedAt'']\<rparr> db))"

definition counter_sample_table :: "(str \<Rightarrow> str) \<Rightarrow> table_def" where
  "counter_sample_table iden =
     \<lparr>td_name = iden ''CounterSample'', td_if_not_exists = True,
      td_cols =
        [id_column (iden ''Id''),
         not_null (of_type String_Col (column_new (iden ''Name''))),
         not_null (of_type Big_Integer (column_new (iden ''SampledAt''))),
         not_null (of_type Big_Integer (column_new (iden ''Value'')))]\<rparr>"

definition create_counter_sample ::
  "(str \<Rightarrow> str) \<Rightarrow> ('db, 'e) schema_manager \<Rightarrow> 'db \<Rightarrow> ('e, 'db) result" where
  "create_counter_sample iden sm db =
     and_then (sm_create_table sm (counter_sample_table iden) db) (\<lambda>db.
       sm_create_index sm
         \<lparr>ix_if_not_exists = True, ix_name = ''idx_counter_sample_name_time'',
          ix_table = iden ''CounterSample'', ix_cols = [iden ''Name'', iden ''SampledAt'']\<rparr> db)"

definition acl_entry_table :: "(str \<Rightarrow> str) \<Rightarrow> table_def" where
  "acl_entry_table iden =
     \<lparr>td_name = iden ''AclEntry'', td_if_not_exists = True,
      td_cols =
        [id_column (iden ''Id''),
         unique_key (not_null (of_type String_Col (column_new (iden ''Cidr'')))),
         not_null (of_type Boolean (column_new (iden ''Allow''))),
         of_type String_Col (column_new (iden ''Note'')),
         not_null (of_type Big_Integer (column_new (iden ''CreatedAt'')))]\<rparr>"

definition create_acl_entry ::
  "(str \<Rightarrow> str) \<Rightarrow> ('db, 'e) schema_manager \<Rightarrow> 'db \<Rightarrow> ('e, 'db) result" where
  "create_acl_entry iden sm db = sm_create_table sm (acl_entry_table iden) db"

definition migration_up :: "(str \<Rightarrow> str) \<Rightarrow> ('db, 'e) schema_manager \<Rightarrow> 'db \<Rightarrow> ('e, 'db) result" where
  "migration_up iden sm db =
     and_then (create_station_position iden sm db) (\<lambda>db.
     and_then (create_client_session iden sm db) (\<lambda>db.
     and_then (create_counter_sample iden sm db) (\<lambda>db.
     create_acl_entry iden sm db)))"

definition migration_down :: "(str \<Rightarrow> str) \<Rightarrow> ('db, 'e) schema_manager \<Rightarrow> 'db \<Rightarrow> ('e, 'db) result" where
  "migration_down iden sm db =
     and_then (sm_drop_table sm (iden ''AclEntry'') db) (\<lambda>db.
     and_then (sm_drop_table sm (iden ''CounterSample'') db) (\<lambda>db.
     and_then (sm_drop_table sm (iden ''ClientSession'') db) (\<lambda>db.
     sm_drop_table sm (iden ''StationPosition'') db)))"

text \<open>\<open>Migrator::migrations\<close>, and the connection that brings the schema up to date. Opening the database, its kind,
  running a pragma and applying the migrations that are not in yet are the library's.\<close>

definition migrations ::
  "(str \<Rightarrow> str) \<Rightarrow> (('db, 'e) schema_manager \<Rightarrow> 'db \<Rightarrow> ('e, 'db) result) list" where
  "migrations iden = [migration_up iden]"

fun run_pragmas :: "(str \<Rightarrow> 'db \<Rightarrow> ('e, 'db) result) \<Rightarrow> str list \<Rightarrow> 'db \<Rightarrow> ('e, 'db) result" where
  "run_pragmas execute_unprepared [] db = Inr db"
| "run_pragmas execute_unprepared (p # ps) db =
     and_then (execute_unprepared p db) (run_pragmas execute_unprepared ps)"

definition apply_sqlite_pragmas ::
  "bool \<Rightarrow> (str \<Rightarrow> 'db \<Rightarrow> ('e, 'db) result) \<Rightarrow> 'db \<Rightarrow> ('e store_error, 'db) result" where
  "apply_sqlite_pragmas is_sqlite execute_unprepared db =
     (if \<not> is_sqlite then Inr db
      else map_err Database (run_pragmas execute_unprepared
        [''PRAGMA journal_mode=WAL;'', ''PRAGMA busy_timeout=5000;'', ''PRAGMA synchronous=NORMAL;'',
         ''PRAGMA foreign_keys=ON;''] db))"

definition store_connect ::
  "(str \<Rightarrow> ('e, 'db) result) \<Rightarrow> ('db \<Rightarrow> bool) \<Rightarrow> (str \<Rightarrow> 'db \<Rightarrow> ('e, 'db) result) \<Rightarrow>
     ((('db, 'e) schema_manager \<Rightarrow> 'db \<Rightarrow> ('e, 'db) result) list \<Rightarrow> 'db \<Rightarrow> ('e, 'db) result) \<Rightarrow>
     (str \<Rightarrow> str) \<Rightarrow> str \<Rightarrow> ('e store_error, 'db) result" where
  "store_connect connect is_sqlite execute_unprepared apply_pending iden url =
     and_then (map_err Database (connect url)) (\<lambda>db.
     and_then (apply_sqlite_pragmas (is_sqlite db) execute_unprepared db) (\<lambda>db.
     map_err Database (apply_pending (migrations iden) db)))"

subsection \<open>The entities\<close>

datatype field_type = I32 | I64 | F64 | Bool_Field | Text_Field | Optional field_type

record model_field =
  mf_name :: str
  mf_type :: field_type
  mf_primary_key :: bool
  mf_unique :: bool
  mf_indexed :: bool

definition plain_field :: "str \<Rightarrow> field_type \<Rightarrow> model_field" where
  "plain_field n t = \<lparr>mf_name = n, mf_type = t, mf_primary_key = False, mf_unique = False, mf_indexed = False\<rparr>"

definition key_field :: "str \<Rightarrow> field_type \<Rightarrow> model_field" where
  "key_field n t = (plain_field n t)\<lparr>mf_primary_key := True\<rparr>"

definition unique_field :: "model_field \<Rightarrow> model_field" where
  "unique_field f = f\<lparr>mf_unique := True\<rparr>"

definition indexed_field :: "model_field \<Rightarrow> model_field" where
  "indexed_field f = f\<lparr>mf_indexed := True\<rparr>"

lemmas field_defs = plain_field_def key_field_def unique_field_def indexed_field_def

type_synonym entity_model = "str \<times> model_field list"

definition station_position_model :: entity_model where
  "station_position_model =
     (''station_position'',
      [key_field ''id'' I32,
       unique_field (indexed_field (plain_field ''callsign'' Text_Field)),
       plain_field ''latitude'' F64,
       plain_field ''longitude'' F64,
       plain_field ''symbol_table'' (Optional Text_Field),
       plain_field ''symbol_code'' (Optional Text_Field),
       plain_field ''heard_at'' I64])"

definition client_session_model :: entity_model where
  "client_session_model =
     (''client_session'',
      [key_field ''id'' I32,
       indexed_field (plain_field ''callsign'' Text_Field),
       plain_field ''remote_addr'' Text_Field,
       plain_field ''listener'' Text_Field,
       plain_field ''software'' (Optional Text_Field),
       plain_field ''verified'' Bool_Field,
       plain_field ''filter'' (Optional Text_Field),
       indexed_field (plain_field ''connected_at'' I64),
       plain_field ''disconnected_at'' (Optional I64),
       plain_field ''packets_received'' I64,
       plain_field ''packets_sent'' I64,
       plain_field ''packets_dropped'' I64,
       plain_field ''bytes_received'' I64,
       plain_field ''bytes_sent'' I64])"

definition counter_sample_model :: entity_model where
  "counter_sample_model =
     (''counter_sample'',
      [key_field ''id'' I32,
       indexed_field (plain_field ''name'' Text_Field),
       indexed_field (plain_field ''sampled_at'' I64),
       plain_field ''value'' I64])"

definition acl_entry_model :: entity_model where
  "acl_entry_model =
     (''acl_entry'',
      [key_field ''id'' I32,
       unique_field (plain_field ''cidr'' Text_Field),
       plain_field ''allow'' Bool_Field,
       plain_field ''note'' (Optional Text_Field),
       plain_field ''created_at'' I64])"

definition entities :: "entity_model list" where
  "entities = [acl_entry_model, client_session_model, counter_sample_model, station_position_model]"


subsection \<open>What is relied on\<close>

fun snake_rest :: "str \<Rightarrow> str" where
  "snake_rest [] = []"
| "snake_rest (c # cs) =
     (if 65 \<le> ord c \<and> ord c \<le> 90 then CHR ''_'' # char_of (ord c + 32) # snake_rest cs else c # snake_rest cs)"

definition snake_case :: "str \<Rightarrow> str" where
  "snake_case w = (case snake_rest w of [] \<Rightarrow> [] | c # cs \<Rightarrow> if c = CHR ''_'' then cs else c # cs)"

definition identifiers :: "str list" where
  "identifiers =
     [''StationPosition'', ''Id'', ''Callsign'', ''Latitude'', ''Longitude'', ''SymbolTable'', ''SymbolCode'', ''HeardAt'',
      ''ClientSession'', ''RemoteAddr'', ''Listener'', ''Software'', ''Verified'', ''Filter'', ''ConnectedAt'',
      ''DisconnectedAt'', ''PacketsReceived'', ''PacketsSent'', ''PacketsDropped'', ''BytesReceived'', ''BytesSent'',
      ''CounterSample'', ''Name'', ''SampledAt'', ''Value'',
      ''AclEntry'', ''Cidr'', ''Allow'', ''Note'', ''CreatedAt'']"

definition named :: "(str \<Rightarrow> str) \<Rightarrow> bool" where
  "named iden \<longleftrightarrow> list_all (\<lambda>w. iden w = snake_case w) identifiers"

lemma snake_names:
  "snake_case ''StationPosition'' = ''station_position''"
  "snake_case ''ClientSession'' = ''client_session''"
  "snake_case ''CounterSample'' = ''counter_sample''"
  "snake_case ''AclEntry'' = ''acl_entry''"
  "snake_case ''Id'' = ''id''"
  "snake_case ''Callsign'' = ''callsign''"
  "snake_case ''Latitude'' = ''latitude''"
  "snake_case ''Longitude'' = ''longitude''"
  "snake_case ''SymbolTable'' = ''symbol_table''"
  "snake_case ''SymbolCode'' = ''symbol_code''"
  "snake_case ''HeardAt'' = ''heard_at''"
  "snake_case ''RemoteAddr'' = ''remote_addr''"
  "snake_case ''Listener'' = ''listener''"
  "snake_case ''Software'' = ''software''"
  "snake_case ''Verified'' = ''verified''"
  "snake_case ''Filter'' = ''filter''"
  "snake_case ''ConnectedAt'' = ''connected_at''"
  "snake_case ''DisconnectedAt'' = ''disconnected_at''"
  "snake_case ''PacketsReceived'' = ''packets_received''"
  "snake_case ''PacketsSent'' = ''packets_sent''"
  "snake_case ''PacketsDropped'' = ''packets_dropped''"
  "snake_case ''BytesReceived'' = ''bytes_received''"
  "snake_case ''BytesSent'' = ''bytes_sent''"
  "snake_case ''Name'' = ''name''"
  "snake_case ''SampledAt'' = ''sampled_at''"
  "snake_case ''Value'' = ''value''"
  "snake_case ''Cidr'' = ''cidr''"
  "snake_case ''Allow'' = ''allow''"
  "snake_case ''Note'' = ''note''"
  "snake_case ''CreatedAt'' = ''created_at''"
  by code_simp+

lemma iden_names:
  assumes "named iden"
  shows "iden ''StationPosition'' = ''station_position''" "iden ''ClientSession'' = ''client_session''"
    "iden ''CounterSample'' = ''counter_sample''" "iden ''AclEntry'' = ''acl_entry''"
    "iden ''Id'' = ''id''" "iden ''Callsign'' = ''callsign''" "iden ''Latitude'' = ''latitude''"
    "iden ''Longitude'' = ''longitude''" "iden ''SymbolTable'' = ''symbol_table''" "iden ''SymbolCode'' = ''symbol_code''"
    "iden ''HeardAt'' = ''heard_at''" "iden ''RemoteAddr'' = ''remote_addr''" "iden ''Listener'' = ''listener''"
    "iden ''Software'' = ''software''" "iden ''Verified'' = ''verified''" "iden ''Filter'' = ''filter''"
    "iden ''ConnectedAt'' = ''connected_at''" "iden ''DisconnectedAt'' = ''disconnected_at''"
    "iden ''PacketsReceived'' = ''packets_received''" "iden ''PacketsSent'' = ''packets_sent''"
    "iden ''PacketsDropped'' = ''packets_dropped''" "iden ''BytesReceived'' = ''bytes_received''"
    "iden ''BytesSent'' = ''bytes_sent''" "iden ''Name'' = ''name''" "iden ''SampledAt'' = ''sampled_at''"
    "iden ''Value'' = ''value''" "iden ''Cidr'' = ''cidr''" "iden ''Allow'' = ''allow''" "iden ''Note'' = ''note''"
    "iden ''CreatedAt'' = ''created_at''"
  using assms unfolding named_def identifiers_def by (simp_all add: snake_names)

text \<open>The statements, when they succeed.\<close>

definition manager_laws ::
  "('db, 'e) schema_manager \<Rightarrow> ('db \<Rightarrow> str \<rightharpoonup> column_def list) \<Rightarrow> ('db \<Rightarrow> str \<rightharpoonup> str \<times> str list) \<Rightarrow> bool" where
  "manager_laws sm tables indexes \<longleftrightarrow>
     (\<forall>t db db'. sm_create_table sm t db = Inr db' \<longrightarrow>
        (if tables db (td_name t) = None then tables db' = (tables db)(td_name t \<mapsto> td_cols t)
         else td_if_not_exists t \<and> tables db' = tables db) \<and>
        indexes db' = indexes db) \<and>
     (\<forall>i db db'. sm_create_index sm i db = Inr db' \<longrightarrow>
        (if indexes db (ix_name i) = None then indexes db' = (indexes db)(ix_name i \<mapsto> (ix_table i, ix_cols i))
         else ix_if_not_exists i \<and> indexes db' = indexes db) \<and>
        tables db' = tables db) \<and>
     (\<forall>n db db'. sm_drop_table sm n db = Inr db' \<longrightarrow>
        tables db' = (tables db)(n := None) \<and>
        indexes db' = (\<lambda>k. case indexes db k of Some (t, cols) \<Rightarrow> if t = n then None else Some (t, cols) | None \<Rightarrow> None))"

lemma add_absent: "m k = Some w \<Longrightarrow> [k \<mapsto> v] ++ m = m" "m k = None \<Longrightarrow> [k \<mapsto> v] ++ m = m(k \<mapsto> v)"
  by (auto simp: map_add_def fun_eq_iff split: option.split)

lemma manager_create:
  assumes "manager_laws sm tables indexes" and "sm_create_table sm t db = Inr db'"
  shows "tables db' = [td_name t \<mapsto> td_cols t] ++ tables db" and "indexes db' = indexes db"
  using assms by (cases "tables db (td_name t)"; auto simp: manager_laws_def add_absent)+

lemma manager_index:
  assumes "manager_laws sm tables indexes" and "sm_create_index sm i db = Inr db'"
  shows "indexes db' = [ix_name i \<mapsto> (ix_table i, ix_cols i)] ++ indexes db" and "tables db' = tables db"
  using assms by (cases "indexes db (ix_name i)"; auto simp: manager_laws_def add_absent)+

lemma manager_drop:
  assumes "manager_laws sm tables indexes" and "sm_drop_table sm n db = Inr db'"
  shows "tables db' = (tables db)(n := None)"
    and "indexes db' k = (case indexes db k of Some (t, cols) \<Rightarrow> if t = n then None else Some (t, cols) | None \<Rightarrow> None)"
  using assms by (auto simp: manager_laws_def)

subsection \<open>The schema after the migration\<close>

definition core_tables :: "(str \<times> column_def list) list" where
  "core_tables =
     (let t = (\<lambda>d. (td_name d, td_cols d)) in
      [t (station_position_table snake_case), t (client_session_table snake_case),
       t (counter_sample_table snake_case), t (acl_entry_table snake_case)])"

definition core_indexes :: "(str \<times> str \<times> str list) list" where
  "core_indexes =
     [(''idx_station_position_callsign'', ''station_position'', [''callsign'']),
      (''idx_client_session_callsign'', ''client_session'', [''callsign'']),
      (''idx_client_session_connected_at'', ''client_session'', [''connected_at'']),
      (''idx_counter_sample_name_time'', ''counter_sample'', [''name'', ''sampled_at''])]"

definition fresh_schema :: "('db \<Rightarrow> str \<rightharpoonup> column_def list) \<Rightarrow> ('db \<Rightarrow> str \<rightharpoonup> str \<times> str list) \<Rightarrow> 'db \<Rightarrow> bool" where
  "fresh_schema tables indexes db \<longleftrightarrow>
     list_all (\<lambda>(n, _). tables db n = None) core_tables \<and>
     list_all (\<lambda>(n, _). indexes db n = None) core_indexes \<and>
     list_all (\<lambda>(n, _). \<forall>k cols. indexes db k \<noteq> Some (n, cols)) core_tables"

lemma table_names:
  assumes "named iden"
  shows "station_position_table iden = station_position_table snake_case"
    "client_session_table iden = client_session_table snake_case"
    "counter_sample_table iden = counter_sample_table snake_case"
    "acl_entry_table iden = acl_entry_table snake_case"
proof -
  have s: "named snake_case" by (simp add: named_def list_all_iff)
  show "station_position_table iden = station_position_table snake_case"
    "client_session_table iden = client_session_table snake_case"
    "counter_sample_table iden = counter_sample_table snake_case"
    "acl_entry_table iden = acl_entry_table snake_case"
    by (simp_all add: station_position_table_def client_session_table_def counter_sample_table_def acl_entry_table_def
        iden_names [OF assms] iden_names [OF s])
qed

lemma td_names:
  "td_name (station_position_table snake_case) = ''station_position''"
  "td_name (client_session_table snake_case) = ''client_session''"
  "td_name (counter_sample_table snake_case) = ''counter_sample''"
  "td_name (acl_entry_table snake_case) = ''acl_entry''"
  by (simp_all add: station_position_table_def client_session_table_def counter_sample_table_def acl_entry_table_def
      snake_names)

text \<open>Tables and indexes that are there stay as they are.\<close>

lemma migrated_schema:
  assumes laws: "manager_laws sm tables indexes" and names: "named iden" and up: "migration_up iden sm db = Inr db'"
  shows "tables db' = map_of core_tables ++ tables db" and "indexes db' = map_of core_indexes ++ indexes db"
proof -
  note c = manager_create [OF laws] and i = manager_index [OF laws]
  from up obtain d1 d2 d3 d4 d5 d6 d7 where
    1: "sm_create_table sm (station_position_table snake_case) db = Inr d1"
    and 2: "sm_create_index sm \<lparr>ix_if_not_exists = True, ix_name = ''idx_station_position_callsign'',
          ix_table = ''station_position'', ix_cols = [''callsign'']\<rparr> d1 = Inr d2"
    and 3: "sm_create_table sm (client_session_table snake_case) d2 = Inr d3"
    and 4: "sm_create_index sm \<lparr>ix_if_not_exists = True, ix_name = ''idx_client_session_callsign'',
          ix_table = ''client_session'', ix_cols = [''callsign'']\<rparr> d3 = Inr d4"
    and 5: "sm_create_index sm \<lparr>ix_if_not_exists = True, ix_name = ''idx_client_session_connected_at'',
          ix_table = ''client_session'', ix_cols = [''connected_at'']\<rparr> d4 = Inr d5"
    and 6: "sm_create_table sm (counter_sample_table snake_case) d5 = Inr d6"
    and 7: "sm_create_index sm \<lparr>ix_if_not_exists = True, ix_name = ''idx_counter_sample_name_time'',
          ix_table = ''counter_sample'', ix_cols = [''name'', ''sampled_at'']\<rparr> d6 = Inr d7"
    and 8: "sm_create_table sm (acl_entry_table snake_case) d7 = Inr db'"
    by (auto simp: migration_up_def create_station_position_def create_client_session_def create_counter_sample_def
        create_acl_entry_def res_simps table_names [OF names] iden_names [OF names])
  have "tables db' n = (map_of core_tables ++ tables db) n" for n
    by (cases "tables db n")
       (simp_all add: c(1) [OF 1] i(2) [OF 2] c(1) [OF 3] i(2) [OF 4] i(2) [OF 5] c(1) [OF 6] i(2) [OF 7] c(1) [OF 8]
          td_names core_tables_def Let_def map_add_def)
  then show "tables db' = map_of core_tables ++ tables db" by blast
  have "indexes db' k = (map_of core_indexes ++ indexes db) k" for k
    by (cases "indexes db k")
       (simp_all add: c(2) [OF 1] i(1) [OF 2] c(2) [OF 3] i(1) [OF 4] i(1) [OF 5] c(2) [OF 6] i(1) [OF 7] c(2) [OF 8]
          core_indexes_def map_add_def)
  then show "indexes db' = map_of core_indexes ++ indexes db" by blast
qed

lemma map_add_same: "f ++ f = f"
  by (simp add: map_add_def fun_eq_iff split: option.split)

lemma core_table_names: "map fst core_tables = [''station_position'', ''client_session'', ''counter_sample'', ''acl_entry'']"
  by (simp add: core_tables_def td_names Let_def)

lemma core_tables_eq:
  "map_of core_tables n =
     (if n = ''station_position'' then Some (td_cols (station_position_table snake_case))
      else if n = ''client_session'' then Some (td_cols (client_session_table snake_case))
      else if n = ''counter_sample'' then Some (td_cols (counter_sample_table snake_case))
      else if n = ''acl_entry'' then Some (td_cols (acl_entry_table snake_case)) else None)"
  by (simp add: core_tables_def td_names Let_def)

lemma migrated_down:
  assumes laws: "manager_laws sm tables indexes" and names: "named iden" and down: "migration_down iden sm db = Inr db'"
  shows "tables db' n = (if n \<in> set (map fst core_tables) then None else tables db n)"
    and "indexes db' k = (case indexes db k of
      Some (t, cols) \<Rightarrow> if t \<in> set (map fst core_tables) then None else Some (t, cols) | None \<Rightarrow> None)"
proof -
  note d = manager_drop [OF laws]
  from down obtain d1 d2 d3 where
    1: "sm_drop_table sm ''acl_entry'' db = Inr d1" and 2: "sm_drop_table sm ''counter_sample'' d1 = Inr d2"
    and 3: "sm_drop_table sm ''client_session'' d2 = Inr d3" and 4: "sm_drop_table sm ''station_position'' d3 = Inr db'"
    by (auto simp: migration_down_def res_simps iden_names [OF names])
  show "tables db' n = (if n \<in> set (map fst core_tables) then None else tables db n)"
    by (simp add: d(1) [OF 1] d(1) [OF 2] d(1) [OF 3] d(1) [OF 4] core_table_names)
  show "indexes db' k = (case indexes db k of
      Some (t, cols) \<Rightarrow> if t \<in> set (map fst core_tables) then None else Some (t, cols) | None \<Rightarrow> None)"
    by (simp add: d(2) [OF 1] d(2) [OF 2] d(2) [OF 3] d(2) [OF 4] core_table_names split: option.split)
qed

text \<open>When a column can hold a field of an entity.\<close>

fun holds_type :: "field_type \<Rightarrow> column_type \<Rightarrow> bool" where
  "holds_type (Optional f) t = holds_type f t"
| "holds_type I32 t \<longleftrightarrow> t = Integer"
| "holds_type I64 t \<longleftrightarrow> t = Big_Integer"
| "holds_type F64 t \<longleftrightarrow> t = Double"
| "holds_type Bool_Field t \<longleftrightarrow> t = Boolean"
| "holds_type Text_Field t \<longleftrightarrow> (t = String_Col \<or> (\<exists>n. t = String_Len n))"

fun is_optional :: "field_type \<Rightarrow> bool" where
  "is_optional (Optional f) = True"
| "is_optional _ = False"

definition column_holds :: "model_field \<Rightarrow> column_def \<Rightarrow> bool" where
  "column_holds f c \<longleftrightarrow>
     mf_name f = cd_name c \<and> (\<exists>t. cd_type c = Some t \<and> holds_type (mf_type f) t) \<and>
     (cd_not_null c \<longleftrightarrow> \<not> is_optional (mf_type f)) \<and>
     (mf_primary_key f \<longleftrightarrow> cd_primary_key c) \<and> (mf_unique f \<longleftrightarrow> cd_unique_key c)"

lemma entity_columns:
  "list_all2 column_holds (snd station_position_model) (td_cols (station_position_table snake_case))"
  "list_all2 column_holds (snd client_session_model) (td_cols (client_session_table snake_case))"
  "list_all2 column_holds (snd counter_sample_model) (td_cols (counter_sample_table snake_case))"
  "list_all2 column_holds (snd acl_entry_model) (td_cols (acl_entry_table snake_case))"
  by (simp_all add: station_position_model_def client_session_model_def counter_sample_model_def acl_entry_model_def
      station_position_table_def client_session_table_def counter_sample_table_def acl_entry_table_def
      column_holds_def column_defs field_defs snake_names)

definition entities_stored :: "(str \<rightharpoonup> column_def list) \<Rightarrow> bool" where
  "entities_stored ts \<longleftrightarrow>
     list_all (\<lambda>(name, fields). case ts name of Some cols \<Rightarrow> list_all2 column_holds fields cols | None \<Rightarrow> False) entities"

lemma migrated_entities:
  assumes "manager_laws sm tables indexes" and "named iden" and "fresh_schema tables indexes db"
    and "migration_up iden sm db = Inr db'"
  shows "entities_stored (tables db')"
proof -
  have "tables db' n = map_of core_tables n" if "n \<in> set (map fst core_tables)" for n
    using assms(3) that
    by (auto simp: migrated_schema(1) [OF assms(1,2,4)] map_add_def fresh_schema_def list_all_iff split: option.split)
  then show ?thesis
    using entity_columns
    by (simp add: entities_stored_def entities_def core_tables_eq core_table_names acl_entry_model_def client_session_model_def
        counter_sample_model_def station_position_model_def)
qed

text \<open>C30: the entities match the schema: once the initial migration has gone through on a database without its
  tables, every entity has its table, with one column for each of its fields, in the same order and under the same
  name, of a type that holds the field's, nullable exactly when the field is an \<open>Option\<close>, and with the same primary
  key and unique columns. A second run of the migration changes nothing.\<close>

theorem entities_match_schema:
  assumes "manager_laws sm tables indexes" and "named iden" and "fresh_schema tables indexes db"
    and "migration_up iden sm db = Inr db'"
  shows "entities_stored (tables db') \<and>
    (\<forall>db''. migration_up iden sm db' = Inr db'' \<longrightarrow> tables db'' = tables db' \<and> indexes db'' = indexes db')"
  using migrated_entities [OF assms] migrated_schema [OF assms(1,2)] assms(4) by (auto simp: map_add_same)

text \<open>So does a connection to a new database, whatever the pragmas do outside the schema.\<close>

lemma run_pragmas_keep:
  assumes "\<forall>p d d'. execute p d = Inr d' \<longrightarrow> tables d' = tables d \<and> indexes d' = indexes d"
  shows "run_pragmas execute ps d = Inr d' \<Longrightarrow> tables d' = tables d \<and> indexes d' = indexes d"
  by (induction ps arbitrary: d) (use assms in \<open>auto simp: res_simps\<close>)

theorem connected_store_has_schema:
  assumes "manager_laws sm tables indexes" and "named iden"
    and keep: "\<forall>p d d'. execute p d = Inr d' \<longrightarrow> tables d' = tables d \<and> indexes d' = indexes d"
    and new: "connect url = Inr d0" "fresh_schema tables indexes d0"
    and pending: "\<And>ms d. apply_pending ms d = foldl (\<lambda>r f. and_then r (f sm)) (Inr d) ms"
    and conn: "store_connect connect is_sqlite execute apply_pending iden url = Inr db"
  shows "entities_stored (tables db)"
proof -
  from conn new(1) obtain d1 where d1: "apply_sqlite_pragmas (is_sqlite d0) execute d0 = Inr d1"
    "migration_up iden sm d1 = Inr db"
    by (auto simp: store_connect_def res_simps map_err_Inr pending migrations_def)
  have "tables d1 = tables d0 \<and> indexes d1 = indexes d0"
    using d1(1) run_pragmas_keep [where tables = tables, OF keep]
    by (simp add: apply_sqlite_pragmas_def map_err_Inr del: run_pragmas.simps split: if_splits)
  with new(2) have "fresh_schema tables indexes d1" by (simp add: fresh_schema_def)
  from migrated_entities [OF assms(1,2) this d1(2)] show ?thesis .
qed

text \<open>Taking the initial migration back restores the schema: tables and indexes are exactly those the database
  had before, including the indexes the migration created, which go with their tables.\<close>

theorem migration_undone:
  assumes "manager_laws sm tables indexes" and "named iden" and "fresh_schema tables indexes db"
    and "migration_up iden sm db = Inr db1" and "migration_down iden sm db1 = Inr db2"
  shows "tables db2 = tables db \<and> indexes db2 = indexes db"
proof
  note u = migrated_schema [OF assms(1,2,4)] and d = migrated_down [OF assms(1,2,5)]
  have t: "tables db n = None" if "n \<in> set (map fst core_tables)" for n
    using assms(3) that by (auto simp: fresh_schema_def list_all_iff)
  have i: "indexes db k = None" if "k \<in> set (map fst core_indexes)" for k
    using assms(3) that by (auto simp: fresh_schema_def list_all_iff)
  have g: "n \<notin> set (map fst core_tables)" if "indexes db k = Some (n, cols)" for k n cols
    using assms(3) that by (auto simp: fresh_schema_def list_all_iff)
  have c: "n \<in> set (map fst core_tables)" if "map_of core_indexes k = Some (n, cols)" for k n cols
    using that by (auto simp: core_indexes_def core_table_names split: if_splits)
  have c0: "map_of core_tables n = None" if "n \<notin> set (map fst core_tables)" for n
    using that by (simp add: map_of_eq_None_iff)
  show "tables db2 = tables db"
    by (rule ext) (simp add: d(1) u(1) t c0 map_add_def del: set_map split: option.split)
  show "indexes db2 = indexes db"
  proof
    fix k
    show "indexes db2 k = indexes db k"
    proof (cases "indexes db k")
      case None
      then show ?thesis using c by (auto simp: d(2) u(2) map_add_def simp del: set_map split: option.split)
    next
      case (Some x)
      then show ?thesis using g by (cases x) (auto simp: d(2) u(2) map_add_def simp del: set_map)
    qed
  qed
qed

text \<open>The index the entity of counter samples declares on \<open>sampled_at\<close> does not exist: the only index with that column
  starts with the name, so the hourly pruning by time cannot use it. Every other indexed field leads an index.\<close>

theorem sampled_at_not_indexed:
  assumes "manager_laws sm tables indexes" and "named iden" and "fresh_schema tables indexes db"
    and "migration_up iden sm db = Inr db'"
  shows "(\<forall>(name, fields) \<in> set entities. \<forall>f \<in> set fields. mf_indexed f \<longrightarrow>
      ((\<exists>k cols. indexes db' k = Some (name, mf_name f # cols)) \<longleftrightarrow>
        \<not> (name = ''counter_sample'' \<and> mf_name f = ''sampled_at'')))"
proof -
  have i: "indexes db' k = (case map_of core_indexes k of Some x \<Rightarrow> Some x | None \<Rightarrow> indexes db k)" for k
  proof (cases "map_of core_indexes k")
    case (Some x)
    from assms(3) map_of_SomeD [OF this] have "indexes db k = None" by (auto simp: fresh_schema_def list_all_iff)
    with Some show ?thesis by (simp add: migrated_schema(2) [OF assms(1,2,4)] map_add_def)
  qed (simp add: migrated_schema(2) [OF assms(1,2,4)] map_add_def split: option.split)
  have g: "n \<notin> {''station_position'', ''client_session'', ''counter_sample'', ''acl_entry''}"
    if "indexes db k = Some (n, cols)" for k n cols
  proof -
    have "n \<notin> set (map fst core_tables)" using assms(3) that by (auto simp: fresh_schema_def list_all_iff)
    then show ?thesis unfolding core_table_names by simp
  qed
  have lead: "(\<exists>k cols. indexes db' k = Some (n, f # cols)) \<longleftrightarrow> (\<exists>(k, t, cs) \<in> set core_indexes. t = n \<and> cs \<noteq> [] \<and> hd cs = f)"
    if n: "n \<in> {''station_position'', ''client_session'', ''counter_sample'', ''acl_entry''}" for n f
  proof
    assume "\<exists>k cols. indexes db' k = Some (n, f # cols)"
    then obtain k cols where "indexes db' k = Some (n, f # cols)" by blast
    with g n have "map_of core_indexes k = Some (n, f # cols)" by (auto simp: i split: option.splits)
    from map_of_SomeD [OF this] show "\<exists>(k, t, cs) \<in> set core_indexes. t = n \<and> cs \<noteq> [] \<and> hd cs = f" by force
  next
    assume "\<exists>(k, t, cs) \<in> set core_indexes. t = n \<and> cs \<noteq> [] \<and> hd cs = f"
    then obtain k cs where "(k, n, cs) \<in> set core_indexes" "cs \<noteq> []" "hd cs = f" by blast
    moreover from this(1) have "map_of core_indexes k = Some (n, cs)"
      by (intro map_of_is_SomeI) (simp_all add: core_indexes_def)
    ultimately show "\<exists>k cols. indexes db' k = Some (n, f # cols)"
      by (intro exI [of _ k] exI [of _ "tl cs"]) (auto simp: i)
  qed
  show ?thesis
    by (simp add: entities_def acl_entry_model_def client_session_model_def counter_sample_model_def
        station_position_model_def field_defs lead core_indexes_def)
qed

subsection \<open>The widths of the text columns\<close>

definition text_fits :: "table_def \<Rightarrow> str \<Rightarrow> str \<Rightarrow> bool" where
  "text_fits d n t \<longleftrightarrow>
     list_all (\<lambda>c. cd_name c = n \<longrightarrow>
       (case cd_type c of Some (String_Len k) \<Rightarrow> length (chars t) \<le> k | _ \<Rightarrow> True)) (td_cols d)"

definition station_fits :: "station_row \<Rightarrow> bool" where
  "station_fits r \<longleftrightarrow>
     (let d = station_position_table snake_case in
      text_fits d ''callsign'' (sr_callsign r) \<and>
      list_all (text_fits d ''symbol_table'') (case sr_symbol_table r of None \<Rightarrow> [] | Some t \<Rightarrow> [t]) \<and>
      list_all (text_fits d ''symbol_code'') (case sr_symbol_code r of None \<Rightarrow> [] | Some t \<Rightarrow> [t]))"

lemma station_widths:
  "text_fits (station_position_table snake_case) ''callsign'' t \<longleftrightarrow> length (chars t) \<le> 9"
  "text_fits (station_position_table snake_case) ''symbol_table'' t \<longleftrightarrow> length (chars t) \<le> 1"
  "text_fits (station_position_table snake_case) ''symbol_code'' t \<longleftrightarrow> length (chars t) \<le> 1"
  by (simp_all add: text_fits_def station_position_table_def column_defs snake_names)

lemma chars_length: "length (chars s) \<le> length s"
proof -
  have "length (segs s) \<le> length s"
    by (induction s rule: segs.induct) (auto simp: le_diff_conv intro: order_trans)
  then show ?thesis by (simp add: chars_def)
qed

definition keys_fit :: "position_cache \<Rightarrow> bool" where
  "keys_fit cache \<longleftrightarrow> (\<forall>k \<in> dom (map_of cache). length (chars k) \<le> 9)"

text \<open>A packet's source is a callsign, which fits.\<close>

lemma source_fits:
  assumes "packet_parse raw = Inr p"
  shows "length (chars (to_ascii_uppercase (p_source p))) \<le> 9"
proof -
  have "validate_for_packet (p_source p) = Inr ()"
    using assms by (rule packet_parse_InrE) simp
  then obtain r where "validate (p_source p) = Inr r" by (auto simp: validate_for_packet_def res_simps)
  from validate_InrD [OF this] have "length (to_ascii_uppercase (p_source p)) \<le> 9"
    by (simp add: MAX_CALLSIGN_LEN_def to_ascii_uppercase_def)
  then show ?thesis using chars_length [of "to_ascii_uppercase (p_source p)"] by linarith
qed

lemma dom_record_insert: "dom (map_of (cache_record es n pos sy t)) \<subseteq> insert (to_ascii_uppercase n) (dom (map_of es))"
  using cache_record_update [of es n pos sy t] by (auto simp: update_conv')

lemma process_keys_fit:
  assumes "process hash send m i dc st now = (d, dc', st')" and "keys_fit (ss_positions st)"
  shows "keys_fit (ss_positions st')"
  using assms(1)
proof (cases rule: process_cases)
  case (delivered packet out final)
  have "dom (map_of (record_position final (aprs_parse final) now es)) \<subseteq>
      insert (to_ascii_uppercase (p_source final)) (dom (map_of es))" for es
    using dom_record_insert by (simp add: record_position_def subset_insertI split: option.split)
  then show ?thesis
    using assms(2) source_fits [OF delivered(5)]
    by (force simp: delivered(7) deliver_positions with_metrics_def keys_fit_def)
qed (use assms(2) in \<open>simp_all add: with_metrics_def\<close>)

lemma saved_rows_cases:
  assumes "saved_rows es before after" and "r \<in> after"
  shows "r \<in> before \<or> (\<exists>e \<in> set es. saved e r)"
proof (cases "sr_callsign r \<in> pe_callsign ` set es")
  case True
  then obtain e where e: "e \<in> set es" "sr_callsign r = pe_callsign e" by auto
  then obtain r' where r': "r' \<in> after" "saved e r'" using assms(1) by (auto simp: saved_rows_def)
  then have "r' = r"
    using assms e(2) saved_callsign [OF r'(2)] r'(1) inj_onD [of sr_callsign after r' r] by (simp add: saved_rows_def)
  then show ?thesis using e(1) r'(2) by blast
next
  case False
  then show ?thesis using assms by (auto simp: saved_rows_def)
qed

lemma save_fits:
  assumes laws: "stations_laws stations db_ok contents" and shape: "table_shape db_ok contents db"
    and cache: "cache_inv cache" "cached_chars_ok cache" "keys_fit cache"
    and rows: "\<forall>r \<in> contents db. station_fits r" and save: "save_positions stations cache db = (x, db')"
  shows "\<forall>r \<in> contents db'. station_fits r"
proof
  fix r
  assume r: "r \<in> contents db'"
  have "db_ok db" "inj_on sr_callsign (contents db)" using shape by (simp_all add: table_shape_def)
  from save_loop_ok [OF laws this snapshot_keys(1) [OF cache(1)] save [unfolded save_positions_def]]
  obtain k where "saved_rows (take k (cache_snapshot cache)) (contents db) (contents db')" by blast
  from saved_rows_cases [OF this r] show "station_fits r"
  proof
    assume "r \<in> contents db"
    then show ?thesis using rows by blast
  next
    assume "\<exists>e \<in> set (take k (cache_snapshot cache)). saved e r"
    then obtain e where e: "e \<in> set (cache_snapshot cache)" "saved e r" by (auto dest: in_set_takeD)
    then obtain key c where kc: "(key, c) \<in> set cache" "pe_callsign e = key" "pe_symbol e = ca_symbol c"
      by (auto simp: cache_snapshot_def)
    have "key \<in> dom (map_of cache)" using map_of_eq_None_iff [of cache key] kc(1) by force
    moreover have "symbol_chars_ok (ca_symbol c)"
      using cache(2) kc(1) by (auto simp: cached_chars_ok_def symbol_chars_ok_def list_all_iff)
    ultimately show ?thesis
      using e(2) cache(3) kc(2,3)
      by (auto simp: station_fits_def Let_def station_widths saved.simps keys_fit_def symbol_chars_ok_def chars_to_string
          split: option.split option.splits)
  qed
qed

definition fitting ::
  "('db \<Rightarrow> bool) \<Rightarrow> ('db \<Rightarrow> station_row set) \<Rightarrow> dupecheck \<times> 'o server_state \<times> 'db \<Rightarrow> bool" where
  "fitting db_ok contents s \<longleftrightarrow>
     durable db_ok contents s \<and>
     (case s of (_, st, db) \<Rightarrow> keys_fit (ss_positions st) \<and> (\<forall>r \<in> contents db. station_fits r))"

lemma life_step_fitting:
  assumes laws: "stations_laws stations db_ok contents" and others: "leaves counters db_ok contents"
    and "fitting db_ok contents s"
  shows "fitting db_ok contents (life_step hash send m stations counters e s)"
proof -
  obtain dc st db where s: "s = (dc, st, db)" by (cases s)
  have dur: "durable db_ok contents (life_step hash send m stations counters e s)"
    by (rule life_step_durable [OF laws others]) (use assms(3) in \<open>simp add: fitting_def\<close>)
  show ?thesis
  proof (cases e)
    case (Arrived i now)
    obtain d dc' st' where p: "process hash send m i dc st now = (d, dc', st')" by (metis surj_pair)
    from process_keys_fit [OF p] assms(3) dur show ?thesis by (simp add: Arrived s p fitting_def)
  next
    case (Maintained now)
    obtain x db1 where sv: "save_positions stations (ss_positions st) db = (x, db1)" by fastforce
    have pre: "table_shape db_ok contents db" "cache_inv (ss_positions st)" "cached_chars_ok (ss_positions st)"
      "keys_fit (ss_positions st)" "\<forall>r \<in> contents db. station_fits r" "covered (contents db) (ss_positions st)"
      using assms(3) by (simp_all add: s fitting_def durable_def)
    have "db_ok db1" using save_table_shape [OF laws pre(1,2,6) sv] by (simp add: table_shape_def)
    with maintain_stations(2) [OF others, of stations st db now] save_fits [OF laws pre(1-5) sv] sv pre(4) dur
    show ?thesis by (simp add: Maintained s fitting_def)
  qed
qed

lemma life_fitting:
  "stations_laws stations db_ok contents \<Longrightarrow> leaves counters db_ok contents \<Longrightarrow> fitting db_ok contents s \<Longrightarrow>
     fitting db_ok contents (fold (life_step hash send m stations counters) es s)"
proof (induction es arbitrary: s)
  case (Cons e es)
  show ?case using Cons.IH [OF Cons.prems(1,2) life_step_fitting [OF Cons.prems]] by simp
qed simp


subsection \<open>A schema in memory\<close>

definition map_manager :: "((str \<rightharpoonup> column_def list) \<times> (str \<rightharpoonup> str \<times> str list), unit) schema_manager" where
  "map_manager =
     \<lparr>sm_create_table = (\<lambda>t (ts, is).
        if ts (td_name t) = None then Inr (ts(td_name t \<mapsto> td_cols t), is)
        else if td_if_not_exists t then Inr (ts, is) else Inl ()),
      sm_create_index = (\<lambda>i (ts, is).
        if is (ix_name i) = None then Inr (ts, is(ix_name i \<mapsto> (ix_table i, ix_cols i)))
        else if ix_if_not_exists i then Inr (ts, is) else Inl ()),
      sm_drop_table = (\<lambda>n (ts, is).
        if ts n = None then Inl ()
        else Inr (ts(n := None),
          \<lambda>k. case is k of Some (t, cols) \<Rightarrow> if t = n then None else Some (t, cols) | None \<Rightarrow> None))\<rparr>"

lemma map_manager_laws: "manager_laws map_manager fst snd"
  by (auto simp: manager_laws_def map_manager_def split: if_splits)

lemma snake_named: "named snake_case"
  by (simp add: named_def list_all_iff)

lemma empty_fresh: "fresh_schema fst snd (Map.empty, Map.empty)"
  by (simp add: fresh_schema_def list_all_iff)

lemma map_manager_up: "\<exists>db. migration_up snake_case map_manager (Map.empty, Map.empty) = Inr db"
  by (simp add: migration_up_def create_station_position_def create_client_session_def create_counter_sample_def
      create_acl_entry_def map_manager_def td_names snake_names)

theorem entities_match_schema_witness:
  "\<exists>db cols. migration_up snake_case map_manager (Map.empty, Map.empty) = Inr db \<and>
     fst db ''acl_entry'' = Some cols \<and> list_all2 column_holds (snd acl_entry_model) cols"
proof -
  obtain db where db: "migration_up snake_case map_manager (Map.empty, Map.empty) = Inr db" using map_manager_up by blast
  from entities_match_schema [OF map_manager_laws snake_named empty_fresh db] db show ?thesis
    by (auto simp: entities_stored_def entities_def acl_entry_model_def split: option.splits)
qed

theorem sampled_at_not_indexed_witness:
  "\<exists>db. migration_up snake_case map_manager (Map.empty, Map.empty) = Inr db \<and>
     (\<nexists>k cols. snd db k = Some (''counter_sample'', ''sampled_at'' # cols))"
proof -
  obtain db where db: "migration_up snake_case map_manager (Map.empty, Map.empty) = Inr db" using map_manager_up by blast
  from sampled_at_not_indexed [OF map_manager_laws snake_named empty_fresh db] db show ?thesis
    by (simp add: entities_def counter_sample_model_def field_defs)
qed

theorem migration_undone_witness:
  "\<exists>db db2. migration_up snake_case map_manager (Map.empty, Map.empty) = Inr db \<and>
     migration_down snake_case map_manager db = Inr db2 \<and> fst db2 = Map.empty \<and> snd db2 = Map.empty"
proof -
  obtain db where db: "migration_up snake_case map_manager (Map.empty, Map.empty) = Inr db" using map_manager_up by blast
  have t: "fst db = map_of core_tables" using migrated_schema(1) [OF map_manager_laws snake_named db] by simp
  have "\<exists>db2. migration_down snake_case map_manager db = Inr db2"
    by (cases db) (use t in \<open>simp add: migration_down_def map_manager_def snake_names core_tables_eq\<close>)
  then obtain db2 where db2: "migration_down snake_case map_manager db = Inr db2" by blast
  from migration_undone [OF map_manager_laws snake_named empty_fresh db db2] db db2 show ?thesis by (auto simp: prod_eq_iff)
qed



end
