(* ===== verification/Commands.thy ===== *)
theory Commands
  imports Schema Sessions Aprsc_Import Status_Page
begin

section \<open>The commands (\<open>aprsr/src/commands.rs\<close>, \<open>Config::load\<close>, the texts of \<open>aprsc::Warning\<close>)\<close>

text \<open>
  What \<open>aprsr run\<close> does until it serves, \<open>aprsr check-config\<close>, \<open>aprsr convert-config\<close> and \<open>aprsr passcode\<close>. A command is a
  function from what the system answers to its result and to what it prints and writes. Reading the files and the
  environment (\<open>figment\<close>), rendering TOML (\<open>to_toml\<close>), the system calls and the quoted form of a text (\<open>debug_str\<close>) are
  parameters.

  \<open>startup_establishes_init\<close> closes the development: a server that has started is in a state from which the runs of
  \<open>Sessions\<close> begin. \<open>check_config_predicts_start\<close> relates \<open>check-config\<close> to \<open>run\<close>, and \<open>converter_output\<close> says what the
  converter leaves where.
\<close>

definition config_load :: "(str \<Rightarrow> ('e, config) result) \<Rightarrow> str \<Rightarrow> ('e config_error, config) result" where
  "config_load figment path =
     and_then (map_err Read (figment path)) (\<lambda>config.
     and_then (config_validate config) (\<lambda>_. Inr config))"

datatype ('e, 'io, 'd) start_error =
    ConfigUnusable str "'e config_error"
  | RunDirFailed str 'io
  | DatabaseFailed str "'d store_error"
  | ServerFailed "'io server_error"

subsection \<open>\<open>aprsr run\<close> until it serves\<close>

definition start_up ::
  "(str \<Rightarrow> ('e, config) result) \<Rightarrow> (str \<Rightarrow> ('io, unit) result) \<Rightarrow> (str \<Rightarrow> ('d store_error, 'db) result) \<Rightarrow>
     ('os \<Rightarrow> socket_addr \<Rightarrow> ('io, 'sock \<times> 'os) result) \<Rightarrow> ('sock \<Rightarrow> ('io, socket_addr) result) \<Rightarrow>
     ('db, station_row, 'd) table \<Rightarrow> str \<Rightarrow> 'os \<Rightarrow> nat \<Rightarrow>
     (('e, 'io, 'd) start_error, config \<times> 'db \<times> 'o server_state \<times> 'sock bound_listener list) result" where
  "start_up figment create_dir_all store_open bind local_addr stations path os now =
     and_then (map_err (ConfigUnusable path) (config_load figment path)) (\<lambda>config.
     (let run_dir = sv_run_dir (cf_server config); url = cf_database_url config in
      and_then (if run_dir \<noteq> [] then map_err (RunDirFailed run_dir) (create_dir_all run_dir) else Inr ()) (\<lambda>_.
      and_then (map_err (DatabaseFailed url) (store_open url)) (\<lambda>db.
      and_then (map_err ServerFailed (server_bind bind local_addr stations config (Some db) os now)) (\<lambda>(st, listeners).
      Inr (config, db, st, listeners))))))"

text \<open>The state in which \<open>Server::run\<close> begins: the queue is empty, the duplicate detector new.\<close>

definition serving_from :: "config \<Rightarrow> 'q \<Rightarrow> 'o server_state \<Rightarrow> ('o, 'q) sessions" where
  "serving_from config queue st =
     \<lparr>se_pending = [], se_queue = queue,
      se_dupes = with_window (as_secs (lm_dupecheck_window (cf_limits config))), se_state = st, se_logins = 0\<rparr>"

lemma config_load_Inr: "config_load figment path = Inr c \<longleftrightarrow>
    figment path = Inr c \<and> config_validate c = (Inr () :: ('e config_error, unit) result)"
  for figment :: "str \<Rightarrow> ('e, config) result"
  by (auto simp: config_load_def res_simps map_err_Inr)

lemma server_bind_Inr:
  assumes "server_bind bind local_addr stations config (Some db) os now = Inr (st, listeners)"
  shows "bind_all bind local_addr config os = Inr listeners"
    and "\<exists>positions. cache_inv positions \<and> st = (server_state_new config now)\<lparr>ss_positions := positions\<rparr>"
proof -
  show "bind_all bind local_addr config os = Inr listeners"
    using assms by (auto simp: server_bind_def res_simps Let_def)
  show "\<exists>positions. cache_inv positions \<and> st = (server_state_new config now)\<lparr>ss_positions := positions\<rparr>"
  proof (cases "load_positions stations db")
    case (Inl e)
    with assms have "st = (server_state_new config now)\<lparr>ss_positions := cache_new\<rparr>"
      by (auto simp: server_bind_def res_simps Let_def server_state_new_def)
    then show ?thesis by (intro exI [of _ cache_new]) (simp add: cache_inv_def cache_new_def)
  next
    case (Inr cache)
    with assms have "st = (server_state_new config now)\<lparr>ss_positions := cache\<rparr>"
      by (auto simp: server_bind_def res_simps Let_def)
    with load_positions_ok [OF Inr] show ?thesis by blast
  qed
qed

lemma start_up_Inr:
  assumes "start_up figment create_dir_all store_open bind local_addr stations path os now = Inr (config, db, st, listeners)"
  shows "config_load figment path = Inr config" and "store_open (cf_database_url config) = Inr db"
    and "server_bind bind local_addr stations config (Some db) os now = Inr (st, listeners)"
  using assms by (auto simp: start_up_def res_simps map_err_Inr Let_def split: if_splits)

lemma config_validate_any:
  "config_validate c = (Inr () :: ('e config_error, unit) result) \<Longrightarrow> config_validate c = (Inr () :: ('f config_error, unit) result)"
  by (simp add: config_validate_iff)



subsection \<open>\<open>aprsr check-config\<close>\<close>

datatype emitted = Stdout str | Stderr str | FileWritten str str

abbreviation nl :: str where "nl \<equiv> [CHR 0x0A]"

definition pad_right :: "nat \<Rightarrow> str \<Rightarrow> str" where
  "pad_right n s = s @ replicate (n - length (chars s)) CHR '' ''"

fun port_kind_debug :: "port_kind \<Rightarrow> str" where
  "port_kind_debug FullFeed = ''FullFeed''"
| "port_kind_debug Igate = ''Igate''"
| "port_kind_debug DupeFeed = ''DupeFeed''"
| "port_kind_debug UdpSubmit = ''UdpSubmit''"

fun protocol_debug :: "protocol \<Rightarrow> str" where
  "protocol_debug Tcp = ''Tcp''"
| "protocol_debug Udp = ''Udp''"

fun uplink_kind_debug :: "uplink_kind \<Rightarrow> str" where
  "uplink_kind_debug Full = ''Full''"
| "uplink_kind_debug ReadOnly = ''ReadOnly''"

definition listener_report :: "(socket_addr \<Rightarrow> str) \<Rightarrow> listener_config \<Rightarrow> str" where
  "listener_report show_addr l =
     (let hidden = if lc_hidden l then ''  (hidden)'' else [];
          filter = (case lc_filter l of Some f \<Rightarrow> ''  filter '' @ f | None \<Rightarrow> [])
      in ''    '' @ pad_right 28 (lc_name l) @ '' '' @ port_kind_debug (lc_kind l) @ '' '' @
         protocol_debug (lc_protocol l) @ '' on '' @ show_addr (lc_bind l) @ filter @ hidden @ nl)"

definition uplink_report :: "uplink \<Rightarrow> str" where
  "uplink_report u = ''    '' @ pad_right 28 (ul_name u) @ '' '' @ uplink_kind_debug (ul_kind u) @ '' '' @ ul_address u @ nl"

definition config_report :: "(socket_addr \<Rightarrow> str) \<Rightarrow> str \<Rightarrow> config \<Rightarrow> str list" where
  "config_report show_addr path config =
     [path @ '' is valid.'' @ nl, nl, ''  server id       '' @ sv_id (cf_server config) @ nl] @
     (if sv_admin (cf_server config) \<noteq> [] then [''  admin           '' @ sv_admin (cf_server config) @ nl] else []) @
     [''  database        '' @ cf_database_url config @ nl,
      ''  dupe window     '' @ interval_show (lm_dupecheck_window (cf_limits config)) @ nl,
      nl, ''  listeners:'' @ nl] @
     map (listener_report show_addr) (cf_listeners config) @
     (if cf_uplinks config \<noteq> [] then
        [nl, ''  uplinks (parsed, not yet connected '' @ em_dash @ '' see docs/roadmap.md):'' @ nl] @
        map uplink_report (cf_uplinks config)
      else []) @
     [case cf_status_bind config of
        Some address \<Rightarrow> nl @ ''  dashboard       http://'' @ show_addr address @ ''/'' @ nl
      | None \<Rightarrow> nl @ ''  dashboard       disabled'' @ nl]"

definition check_config ::
  "(socket_addr \<Rightarrow> str) \<Rightarrow> (str \<Rightarrow> ('e, config) result) \<Rightarrow> str \<Rightarrow>
     (('e, 'io, 'd) start_error, unit) result \<times> emitted list" where
  "check_config show_addr figment path =
     (case config_load figment path of
        Inl e \<Rightarrow> (Inl (ConfigUnusable path e), [])
      | Inr config \<Rightarrow> (Inr (), map Stdout (config_report show_addr path config)))"

text \<open>C40: \<open>check-config\<close> accepts a file exactly when \<open>run\<close> gets past its configuration; and once it accepts, \<open>run\<close> can
  only fail because the run directory, the database or one of the TCP ports is refused by the system, or because the
  configuration has no TCP port at all, which \<open>check-config\<close> does not look at.\<close>

theorem check_config_predicts_start:
  fixes figment :: "str \<Rightarrow> ('e, config) result" and create_dir_all :: "str \<Rightarrow> ('io, unit) result"
    and store_open :: "str \<Rightarrow> ('d store_error, 'db) result"
    and bind :: "'os \<Rightarrow> socket_addr \<Rightarrow> ('io, 'sock \<times> 'os) result"
  shows "let start = (start_up figment create_dir_all store_open bind local_addr stations path os now ::
      (_, config \<times> 'db \<times> 'o server_state \<times> _) result) in
    (fst (check_config show_addr figment path) = (Inr () :: (('e, 'io, 'd) start_error, unit) result) \<longleftrightarrow>
      (\<nexists>e. start = Inl (ConfigUnusable path e))) \<and>
    (\<forall>e. start = Inl (ServerFailed e) \<longrightarrow>
      (\<exists>config. figment path = Inr config \<and>
        ((\<exists>l \<in> set (tcp_listeners config). \<exists>io. e = Bind (lc_name l) (lc_bind l) io) \<or>
         e = NoTcpListeners \<and> tcp_listeners config = [])))"
proof -
  let ?start = "start_up figment create_dir_all store_open bind local_addr stations path os now ::
      (_, config \<times> 'db \<times> 'o server_state \<times> _) result"
  show ?thesis
  proof (cases "config_load figment path")
    case (Inl e)
    then show ?thesis by (simp add: start_up_def check_config_def Let_def)
  next
    case (Inr config)
    have 1: "\<nexists>e. ?start = Inl (ConfigUnusable path e)"
      using Inr by (auto simp: start_up_def res_simps Let_def split: if_splits)
    have ok: "figment path = Inr config" "list_all listener_ok (cf_listeners config)"
      using Inr by (auto simp: config_load_Inr config_validate_iff)
    have "(\<exists>l \<in> set (tcp_listeners config). \<exists>io. e = Bind (lc_name l) (lc_bind l) io) \<or>
        e = NoTcpListeners \<and> tcp_listeners config = []" if "?start = Inl (ServerFailed e)" for e
    proof -
      from that Inr have "bind_all bind local_addr config os = Inl e"
        by (auto simp: start_up_def server_bind_def res_simps Let_def split: if_splits)
      with bind_all_cases [OF ok(2), of bind local_addr os] show ?thesis by (cases e) auto
    qed
    with 1 ok(1) Inr show ?thesis unfolding Let_def by (auto simp: check_config_def)
  qed
qed

subsection \<open>\<open>aprsr convert-config\<close> and \<open>aprsr passcode\<close>\<close>

fun warning_show :: "(str \<Rightarrow> str) \<Rightarrow> warning \<Rightarrow> str" where
  "warning_show debug_str (Unknown line directive) =
     ''line '' @ show_nat line @ '': unknown directive '' @ debug_str directive @ '', ignored''"
| "warning_show debug_str (NotSupported line directive reason) =
     ''line '' @ show_nat line @ '': '' @ directive @ '' not converted '' @ em_dash @ '' '' @ reason"
| "warning_show debug_str (OptionDropped line opt reason) =
     ''line '' @ show_nat line @ '': listener option '' @ debug_str opt @ '' dropped '' @ em_dash @ '' '' @ reason"
| "warning_show debug_str (NameGenerated line generated) =
     ''line '' @ show_nat line @ '': unnamed listener, generated the name '' @ debug_str generated"

datatype ('io, 'r) command_error =
    CannotRead str 'io
  | CannotConvert str convert_error
  | CannotRender 'r
  | CannotWrite str 'io

definition placeholder_warning :: "(str \<Rightarrow> str) \<Rightarrow> str" where
  "placeholder_warning debug_str =
     ''warning: server.id is still '' @ debug_str PLACEHOLDER_SERVER_ID @
     ''; set it to your own callsign before starting the server'' @ nl"

definition warnings_printed :: "(str \<Rightarrow> str) \<Rightarrow> conversion \<Rightarrow> str list" where
  "warnings_printed debug_str converted =
     map (\<lambda>w. ''warning: '' @ warning_show debug_str w @ nl) (cn_warnings converted) @
     (if eq_ignore_ascii_case (sv_id (cf_server (cn_config converted))) PLACEHOLDER_SERVER_ID
      then [placeholder_warning debug_str] else [])"

definition convert_config ::
  "(str \<Rightarrow> ('io, str) result) \<Rightarrow> (str \<Rightarrow> str \<Rightarrow> ('io, unit) result) \<Rightarrow> (config \<Rightarrow> ('r, str) result) \<Rightarrow> (str \<Rightarrow> str) \<Rightarrow>
     str \<Rightarrow> str option \<Rightarrow> (('io, 'r) command_error, unit) result \<times> emitted list" where
  "convert_config read_to_string write to_toml debug_str inp outp =
     (case read_to_string inp of
        Inl e \<Rightarrow> (Inl (CannotRead inp e), [])
      | Inr text \<Rightarrow>
          (case convert text of
             Inl e \<Rightarrow> (Inl (CannotConvert inp e), [])
           | Inr converted \<Rightarrow>
               (let warned = map Stderr (warnings_printed debug_str converted) in
                case to_toml (cn_config converted) of
                  Inl e \<Rightarrow> (Inl (CannotRender e), warned)
                | Inr toml \<Rightarrow>
                    (case outp of
                       Some path \<Rightarrow>
                         (case write path toml of
                            Inl e \<Rightarrow> (Inl (CannotWrite path e), warned)
                          | Inr _ \<Rightarrow> (Inr (), warned @ [FileWritten path toml, Stderr (''wrote '' @ path @ nl)]))
                     | None \<Rightarrow> (Inr (), warned @ [Stdout toml])))))"

definition passcode_command :: "str \<Rightarrow> emitted list" where
  "passcode_command callsign = [Stdout (show_nat (unat (generate callsign)) @ nl)]"

fun on_stdout :: "emitted \<Rightarrow> str list" where
  "on_stdout (Stdout s) = [s]"
| "on_stdout _ = []"

fun on_stderr :: "emitted \<Rightarrow> str list" where
  "on_stderr (Stderr s) = [s]"
| "on_stderr _ = []"

fun on_disk :: "emitted \<Rightarrow> (str \<times> str) list" where
  "on_disk (FileWritten p s) = [(p, s)]"
| "on_disk _ = []"

lemma emitted_map:
  "concat (map on_stdout (map Stderr ws)) = []" "concat (map on_stderr (map Stderr ws)) = ws"
  "concat (map on_disk (map Stderr ws)) = []"
  by (induction ws) simp_all

lemma out_parts:
  "concat (map on_stdout (map Stderr ws @ es)) = concat (map on_stdout es)"
  "concat (map on_stderr (map Stderr ws @ es)) = ws @ concat (map on_stderr es)"
  "concat (map on_disk (map Stderr ws @ es)) = concat (map on_disk es)"
  unfolding map_append concat_append emitted_map by simp_all

lemma placeholder_refused:
  "config_validate c = (Inl PlaceholderServerId :: ('e config_error, unit) result) \<longleftrightarrow>
     eq_ignore_ascii_case (sv_id (cf_server c)) PLACEHOLDER_SERVER_ID"
proof -
  have "validate_listeners ls seen \<noteq> (Inl PlaceholderServerId :: ('e config_error, unit) result)" for ls seen
    by (induction ls arbitrary: seen) (auto simp: res_simps split: option.splits)
  then show ?thesis by (auto simp: config_validate_def res_simps)
qed

text \<open>What a conversion leaves where: a conversion that succeeds puts the rendered configuration, and nothing
  else, on the standard output or into the file it was given, and one line per warning on the standard error, before
  it writes; a further warning names the placeholder identity exactly when a server given that configuration refuses
  it for its identity. One that fails to read or to convert writes and prints nothing.\<close>

theorem converter_output:
  fixes read_to_string :: "str \<Rightarrow> ('io, str) result" and to_toml :: "config \<Rightarrow> ('r, str) result"
  assumes "convert_config read_to_string write to_toml debug_str inp outp = (r, out)"
  shows "(case r of
      Inr _ \<Rightarrow> (\<exists>text converted toml. read_to_string inp = Inr text \<and> convert text = Inr converted \<and>
        to_toml (cn_config converted) = Inr toml \<and>
        (concat (map on_stdout out), concat (map on_disk out)) =
          (case outp of None \<Rightarrow> ([toml], []) | Some path \<Rightarrow> ([], [(path, toml)])) \<and>
        concat (map on_stderr out) =
          map (\<lambda>w. ''warning: '' @ warning_show debug_str w @ nl) (cn_warnings converted) @
          (if config_validate (cn_config converted) = (Inl PlaceholderServerId :: ('e config_error, unit) result)
           then [placeholder_warning debug_str] else []) @
          (case outp of None \<Rightarrow> [] | Some path \<Rightarrow> [''wrote '' @ path @ nl]))
    | Inl (CannotRead _ _) \<Rightarrow> out = []
    | Inl (CannotConvert _ e) \<Rightarrow> out = [] \<and> (\<exists>text. read_to_string inp = Inr text \<and> convert text = Inl e)
    | Inl _ \<Rightarrow> concat (map on_stdout out) = [] \<and> concat (map on_disk out) = [])"
proof (cases "read_to_string inp")
  case (Inl e)
  with assms show ?thesis by (auto simp: convert_config_def)
next
  case src: (Inr conf)
  show ?thesis
  proof (cases "convert conf")
    case (Inl e)
    with assms src show ?thesis by (auto simp: convert_config_def)
  next
    case converted: (Inr converted)
    show ?thesis
    proof (cases "to_toml (cn_config converted)")
      case (Inl e)
      with assms src converted show ?thesis
        by (auto simp: convert_config_def Let_def emitted_map)
    next
      case toml: (Inr toml)
      note known = assms [unfolded convert_config_def src converted toml Let_def sum.case]
      show ?thesis
      proof (cases outp)
        case None
        then have o: "out = map Stderr (warnings_printed debug_str converted) @ [Stdout toml]" and r: "r = Inr ()"
          using known by simp_all
        have "concat (map on_stdout out) = [toml]" "concat (map on_disk out) = []"
          "concat (map on_stderr out) = warnings_printed debug_str converted"
          unfolding o out_parts by simp_all
        with src converted toml None show ?thesis
          unfolding r sum.case placeholder_refused warnings_printed_def by (intro exI conjI) simp_all
      next
        case (Some path)
        show ?thesis
        proof (cases "write path toml")
          case (Inl e)
          then have "r = Inl (CannotWrite path e)" "out = map Stderr (warnings_printed debug_str converted)"
            using known Some by simp_all
          then show ?thesis by (simp add: emitted_map)
        next
          case (Inr u)
          then have o: "out = map Stderr (warnings_printed debug_str converted) @
              [FileWritten path toml, Stderr (''wrote '' @ path @ nl)]" and r: "r = Inr ()"
            using assms Inr Some src converted toml by (simp_all add: convert_config_def Let_def)
          have "concat (map on_stdout out) = []" "concat (map on_disk out) = [(path, toml)]"
            "concat (map on_stderr out) = warnings_printed debug_str converted @ [''wrote '' @ path @ nl]"
            unfolding o out_parts by simp_all
          with src converted toml Some show ?thesis
            unfolding r sum.case placeholder_refused warnings_printed_def by (intro exI conjI) simp_all
        qed
      qed
    qed
  qed
qed


subsection \<open>Witnesses\<close>

definition sample_start_up ::
  "(((unit, unit, unit) start_error,
     config \<times> (station_row list \<times> counter_row list) \<times> str list server_state \<times> socket_addr bound_listener list) result)" where
  "sample_start_up =
     start_up (\<lambda>_. Inr (sample_config [sample_listener ''Clients''])) (\<lambda>_. Inr ()) (\<lambda>_. Inr sample_db) sample_bind Inr
       sample_stations ''aprsr.toml'' [] 0"

lemma sample_validates: "config_validate (sample_config [sample_listener ''Clients'']) = (Inr () :: (unit config_error, unit) result)"
proof -
  have "server_id_ok ''T2TEST''" by code_simp
  then show ?thesis
    by (simp add: config_validate_iff) (simp add: sample_config_def sample_listener_def listener_ok_def)
qed

lemma sample_starts:
  "\<exists>st ls. sample_start_up = Inr (sample_config [sample_listener ''Clients''], sample_db, st, ls)"
proof -
  obtain st :: "str list server_state" and ls where
    "server_bind sample_bind Inr sample_stations (sample_config [sample_listener ''Clients'']) (Some sample_db) [] 0 =
      Inr (st, ls)"
    using sample_binds by blast
  then show ?thesis
    by (simp add: sample_start_up_def start_up_def config_load_def sample_validates Let_def)
qed


theorem check_config_predicts_start_witness:
  "\<exists>st ls. sample_start_up = Inr (sample_config [sample_listener ''Clients''], sample_db, st, ls) \<and>
     fst (check_config (\<lambda>_. []) (\<lambda>_. Inr (sample_config [sample_listener ''Clients''])) ''aprsr.toml'' ::
       ((unit, unit, unit) start_error, unit) result \<times> _) = Inr ()"
proof -
  obtain st ls where s: "sample_start_up = Inr (sample_config [sample_listener ''Clients''], sample_db, st, ls)"
    using sample_starts by blast
  from check_config_predicts_start [where 'o = "str list" and figment = "\<lambda>_. Inr (sample_config [sample_listener ''Clients''])" and
      path = "''aprsr.toml''" and create_dir_all = "\<lambda>_. Inr ()" and store_open = "\<lambda>_. Inr sample_db" and
      bind = sample_bind and local_addr = Inr and stations = sample_stations and os = "[]" and now = 0 and
      show_addr = "\<lambda>_. []"] s
  show ?thesis unfolding Let_def sample_start_up_def by auto
qed

theorem converter_output_witness:
  "\<exists>out. convert_config (\<lambda>_. Inr []) (\<lambda>_ _. Inr ()) (\<lambda>_. Inr ''toml'') (\<lambda>s. s) ''aprsc.conf'' None =
       (Inr () :: ((unit, unit) command_error, unit) result, out) \<and>
     concat (map on_stdout out) = [''toml'']"
proof -
  have "text_lines [] = []" by (simp add: text_lines_def)
  then have "convert [] = Inr conversion_new" by (simp add: convert_def)
  then obtain out where out: "convert_config (\<lambda>_. Inr []) (\<lambda>_ _. Inr ()) (\<lambda>_. Inr ''toml'') (\<lambda>s. s) ''aprsc.conf'' None =
       (Inr () :: ((unit, unit) command_error, unit) result, out)"
    by (simp add: convert_config_def Let_def)
  from converter_output [OF out] out show ?thesis by auto
qed

end
