(* ===== verification/Routes.thy ===== *)
theory Routes
  imports Status_Page Commands
begin

section \<open>The web server (\<open>aprsr-web/src/routes.rs\<close>, \<open>lib.rs\<close>)\<close>

text \<open>
  The handlers of the dashboard, each a function from the state of the server to a response, the table of routes, and
  how serving can end. Rendering a template and writing JSON are the work of libraries: \<open>templates\<close> holds the four
  renderers, \<open>web_template\<close> turns what a renderer gave into a response, \<open>to_json\<close> writes a status.

  \<open>panels_reused\<close> shows that the first paint of the dashboard and the polls of its panels render the same rows;
  the property of the snapshot behind both is \<open>status_counts_agree\<close> of \<open>Status_Page\<close>.
\<close>

record page =
  pg_title :: str
  pg_server_id :: str
  pg_version :: str
  pg_summary_html :: str
  pg_listeners_html :: str
  pg_clients_html :: str

record 'e templates =
  tm_dashboard :: "page \<Rightarrow> ('e, str) result"
  tm_summary :: "summary \<Rightarrow> ('e, str) result"
  tm_listeners :: "listener_row list \<Rightarrow> ('e, str) result"
  tm_clients :: "client_row list \<Rightarrow> ('e, str) result"

record response =
  rs_status :: nat
  rs_content_type :: "str option"
  rs_cache_control :: "str option"
  rs_body :: str

text \<open>What every handler needs besides the state: the texts of doubles and addresses, the version and the clock.\<close>

record 'e web =
  wb_show_f64 :: "f64 \<Rightarrow> str"
  wb_fixed1 :: "f64 \<Rightarrow> str"
  wb_show_addr :: "socket_addr \<Rightarrow> str"
  wb_version :: str
  wb_now :: nat
  wb_templates :: "'e templates"
  wb_web_template :: "('e, str) result \<Rightarrow> response"
  wb_to_json :: "status \<Rightarrow> str"

definition capture_now :: "'e web \<Rightarrow> 'o server_state \<Rightarrow> status" where
  "capture_now w st = status_capture (wb_show_f64 w) (wb_show_addr w) (wb_version w) (wb_now w) st"

definition dashboard :: "'e web \<Rightarrow> 'o server_state \<Rightarrow> response" where
  "dashboard w st =
     (let status = capture_now w st;
          summary_html = unwrap_or [] (result_ok (tm_summary (wb_templates w) (summary_from_status (wb_fixed1 w) status)));
          listeners_html = unwrap_or [] (result_ok (tm_listeners (wb_templates w) (listener_rows status)));
          clients_html = unwrap_or [] (result_ok (tm_clients (wb_templates w) (client_rows (wb_fixed1 w) status)))
      in wb_web_template w (tm_dashboard (wb_templates w)
        \<lparr>pg_title = si_id (su_server status), pg_server_id = si_id (su_server status), pg_version = wb_version w,
         pg_summary_html = summary_html, pg_listeners_html = listeners_html, pg_clients_html = clients_html\<rparr>))"

definition status_json :: "'e web \<Rightarrow> 'o server_state \<Rightarrow> response" where
  "status_json w st =
     \<lparr>rs_status = 200, rs_content_type = Some ''application/json'', rs_cache_control = Some ''no-store'',
      rs_body = wb_to_json w (capture_now w st)\<rparr>"

definition healthz :: "'o server_state \<Rightarrow> response" where
  "healthz st =
     \<lparr>rs_status = 200, rs_content_type = Some ''text/plain; charset=utf-8'', rs_cache_control = None,
      rs_body = ''ok '' @ ss_server_id st @ nl\<rparr>"

definition fragment_summary :: "'e web \<Rightarrow> 'o server_state \<Rightarrow> response" where
  "fragment_summary w st =
     wb_web_template w (tm_summary (wb_templates w) (summary_from_status (wb_fixed1 w) (capture_now w st)))"

definition fragment_listeners :: "'e web \<Rightarrow> 'o server_state \<Rightarrow> response" where
  "fragment_listeners w st = wb_web_template w (tm_listeners (wb_templates w) (listener_rows (capture_now w st)))"

definition fragment_clients :: "'e web \<Rightarrow> 'o server_state \<Rightarrow> response" where
  "fragment_clients w st =
     wb_web_template w (tm_clients (wb_templates w) (client_rows (wb_fixed1 w) (capture_now w st)))"

text \<open>\<open>configure\<close>: the routes, all of them \<open>GET\<close>.\<close>

definition routes :: "'e web \<Rightarrow> (str \<times> ('o server_state \<Rightarrow> response)) list" where
  "routes w =
     [(''/'', dashboard w), (''/status.json'', status_json w), (''/healthz'', healthz),
      (''/fragments/summary'', fragment_summary w), (''/fragments/listeners'', fragment_listeners w),
      (''/fragments/clients'', fragment_clients w)]"

text \<open>How \<open>serve\<close> ends: the address is refused, or the server runs until the shutdown, and is joined; a task that
  panicked is only logged.\<close>

datatype 'io web_error = WebBind socket_addr 'io | WebRun 'io

definition web_serve ::
  "(socket_addr \<Rightarrow> ('io, 'srv) result) \<Rightarrow> ('srv \<Rightarrow> ('io, unit) result option) \<Rightarrow> socket_addr \<Rightarrow> ('io web_error, unit) result" where
  "web_serve bind await_task address =
     and_then (map_err (WebBind address) (bind address)) (\<lambda>server.
       case await_task server of
         Some r \<Rightarrow> map_err WebRun r
       | None \<Rightarrow> Inr ())"

subsection \<open>The page and its panels\<close>

text \<open>The panels of the first paint are, in the same state and second, exactly what the polls of the panels send, as
  long as they render; a panel that does not render is empty on the page.\<close>

theorem panels_reused:
  assumes "\<And>html. rs_body (wb_web_template w (Inr html)) = html"
    and "tm_summary (wb_templates w) (summary_from_status (wb_fixed1 w) (capture_now w st)) = Inr s"
    and "tm_listeners (wb_templates w) (listener_rows (capture_now w st)) = Inr l"
    and "tm_clients (wb_templates w) (client_rows (wb_fixed1 w) (capture_now w st)) = Inr c"
  shows "dashboard w st = wb_web_template w (tm_dashboard (wb_templates w)
    \<lparr>pg_title = sv_id (cf_server (ss_config st)), pg_server_id = sv_id (cf_server (ss_config st)), pg_version = wb_version w,
     pg_summary_html = rs_body (fragment_summary w st), pg_listeners_html = rs_body (fragment_listeners w st),
     pg_clients_html = rs_body (fragment_clients w st)\<rparr>)"
  using assms(2-4)
  by (simp add: dashboard_def Let_def fragment_summary_def fragment_listeners_def fragment_clients_def assms(1)
      capture_now_def status_capture_def)

text \<open>Every route but the health check reads the whole snapshot; the health check answers the same in every state a
  run can reach.\<close>

theorem healthz_constant:
  assumes "session_init e config s" and "(session_step e)\<^sup>*\<^sup>* s t"
  shows "healthz (se_state t) = healthz (se_state s)"
proof -
  have "ss_server_id (se_state u) = sv_id (cf_server config)" if "(session_step e)\<^sup>*\<^sup>* s u" for u
  proof -
    have "server_init config (dispatcher_of s)" using assms(1) by (simp add: session_init_def)
    from server.reachable_inv [OF this session_steps_refine [OF that]] show ?thesis
      by (simp add: server_inv_def dispatcher_of_def)
  qed
  from this [OF assms(2)] this [OF rtranclp.rtrancl_refl] show ?thesis by (simp add: healthz_def)
qed

end
