(* ===== verification/Client_Feed.thy ===== *)
theory Client_Feed
  imports Connection "HOL-Library.Sublist"
begin

section \<open>The feed of one client (\<open>write_feed\<close> of \<open>aprsr-server/src/client.rs\<close>)\<close>

text \<open>
  The writing half of a connection: it drains the client's queue, coalesces what is queued into one burst, sends a
  keepalive when the timer fires and a farewell at a shutdown. Its events are the branches \<open>select!\<close> takes, in
  order; when the list ends the task has been aborted. The socket behind its buffer is a parameter, of which \<open>sink\<close> says what
  is relied on: \<open>put\<close> is \<open>write_all\<close>, \<open>flush\<close> and \<open>close\<close> are \<open>flush\<close> and \<open>shutdown\<close>; any of them may fail, in the middle
  of a line too, and a broken connection stays broken.

  \<open>feed_prefix_arrives\<close> says what reaches the peer, \<open>feed_reaches_peer\<close> what a peer with the same decoder makes of it.
\<close>

datatype feed_event = Feed str "str list" | Tick nat | FeedShutdown | FeedClosed

datatype feed_end = Break | Return

definition keepalive :: "str \<Rightarrow> str \<Rightarrow> nat \<Rightarrow> str" where
  "keepalive version server_id now =
     ''# '' @ SOFTWARE_NAME @ '' '' @ version @ '' '' @ server_id @ '' '' @ show_nat now"

definition farewell :: str where
  "farewell = ''# aprsr shutting down''"

definition keepalive_period :: "interval \<Rightarrow> nat" where
  "keepalive_period interval = max (as_secs interval) 1"

text \<open>\<open>?\<close> on a write: the rest happens only after a success.\<close>

definition and_ok :: "bool \<times> 'w \<Rightarrow> ('w \<Rightarrow> bool \<times> 'w) \<Rightarrow> bool \<times> 'w" where
  "and_ok r g = (case r of (True, w) \<Rightarrow> g w | (False, w) \<Rightarrow> (False, w))"

definition write_line_buffered :: "('w \<Rightarrow> str \<Rightarrow> bool \<times> 'w) \<Rightarrow> 'w \<Rightarrow> str \<Rightarrow> bool \<times> 'w" where
  "write_line_buffered put w line = and_ok (put w line) (\<lambda>w. put w [CHR 0x0D, newline])"

definition write_line ::
  "('w \<Rightarrow> str \<Rightarrow> bool \<times> 'w) \<Rightarrow> ('w \<Rightarrow> bool \<times> 'w) \<Rightarrow> 'w \<Rightarrow> str \<Rightarrow> bool \<times> 'w" where
  "write_line put flush w line = and_ok (write_line_buffered put w line) flush"

fun write_burst :: "('w \<Rightarrow> str \<Rightarrow> bool \<times> 'w) \<Rightarrow> 'w \<Rightarrow> str list \<Rightarrow> bool \<times> 'w" where
  "write_burst put w [] = (True, w)"
| "write_burst put w (line # lines) = and_ok (write_line_buffered put w line) (\<lambda>w. write_burst put w lines)"

fun feed_loop ::
  "('w \<Rightarrow> str \<Rightarrow> bool \<times> 'w) \<Rightarrow> ('w \<Rightarrow> bool \<times> 'w) \<Rightarrow> str \<Rightarrow> str \<Rightarrow> feed_event list \<Rightarrow> 'w \<Rightarrow>
     feed_end option \<times> 'w" where
  "feed_loop put flush version server_id [] w = (None, w)"
| "feed_loop put flush version server_id (Feed line burst # es) w =
     (case write_line put flush w line of
        (False, w) \<Rightarrow> (Some Break, w)
      | (True, w) \<Rightarrow>
          (case write_burst put w burst of
             (False, w) \<Rightarrow> (Some Return, w)
           | (True, w) \<Rightarrow>
               (case flush w of
                  (False, w) \<Rightarrow> (Some Break, w)
                | (True, w) \<Rightarrow> feed_loop put flush version server_id es w)))"
| "feed_loop put flush version server_id (Tick now # es) w =
     (case write_line put flush w (keepalive version server_id now) of
        (False, w) \<Rightarrow> (Some Break, w)
      | (True, w) \<Rightarrow> feed_loop put flush version server_id es w)"
| "feed_loop put flush version server_id (FeedShutdown # es) w = (Some Break, w)"
| "feed_loop put flush version server_id (FeedClosed # es) w = (Some Break, w)"

text \<open>\<open>triggered\<close> is what \<open>is_triggered\<close> reads after the loop.\<close>

definition write_feed ::
  "('w \<Rightarrow> str \<Rightarrow> bool \<times> 'w) \<Rightarrow> ('w \<Rightarrow> bool \<times> 'w) \<Rightarrow> ('w \<Rightarrow> 'w) \<Rightarrow> str \<Rightarrow> str \<Rightarrow> bool \<Rightarrow> feed_event list \<Rightarrow> 'w \<Rightarrow> 'w" where
  "write_feed put flush close version server_id triggered es w =
     (case feed_loop put flush version server_id es w of
        (Some Break, w) \<Rightarrow>
          (let w = (if triggered then snd (write_line put flush w farewell) else w) in close w)
      | (_, w) \<Rightarrow> w)"

subsection \<open>The socket\<close>

text \<open>
  \<open>taken\<close> are the bytes the buffer has accepted, \<open>arrived\<close> those that have reached the peer: always the first ones
  of \<open>taken\<close>, and all of them after a successful \<open>flush\<close>.
\<close>

definition sink ::
  "('w \<Rightarrow> str \<Rightarrow> bool \<times> 'w) \<Rightarrow> ('w \<Rightarrow> bool \<times> 'w) \<Rightarrow> ('w \<Rightarrow> 'w) \<Rightarrow> ('w \<Rightarrow> str) \<Rightarrow> ('w \<Rightarrow> str) \<Rightarrow> ('w \<Rightarrow> bool) \<Rightarrow> bool" where
  "sink put flush close taken arrived broken \<longleftrightarrow>
     (\<forall>w s ok w'. put w s = (ok, w') \<longrightarrow> prefix (arrived w) (taken w) \<longrightarrow>
        prefix (arrived w') (taken w') \<and> broken w' = (\<not> ok) \<and>
        (if broken w then \<not> ok \<and> taken w' = taken w
         else \<exists>p. prefix p s \<and> taken w' = taken w @ p \<and> (ok \<longrightarrow> p = s))) \<and>
     (\<forall>w ok w'. flush w = (ok, w') \<longrightarrow> prefix (arrived w) (taken w) \<longrightarrow>
        prefix (arrived w') (taken w') \<and> broken w' = (\<not> ok) \<and> taken w' = taken w \<and>
        (if broken w then \<not> ok else ok \<longrightarrow> arrived w' = taken w')) \<and>
     (\<forall>w. prefix (arrived w) (taken w) \<longrightarrow>
        prefix (arrived (close w)) (taken w) \<and> prefix (arrived w) (arrived (close w)) \<and> broken (close w) = broken w)"

text \<open>One write, told by what it leaves: what is taken are the bytes, or the first ones of them.\<close>

definition write_took ::
  "('w \<Rightarrow> str) \<Rightarrow> ('w \<Rightarrow> str) \<Rightarrow> ('w \<Rightarrow> bool) \<Rightarrow> 'w \<Rightarrow> str \<Rightarrow> bool \<times> 'w \<Rightarrow> bool" where
  "write_took taken arrived broken w s r \<longleftrightarrow>
     (case r of (ok, w') \<Rightarrow>
        prefix (arrived w') (taken w') \<and> broken w' = (\<not> ok) \<and>
        (if ok then \<not> broken w \<and> taken w' = taken w @ s
         else \<exists>p. prefix p s \<and> taken w' = taken w @ p \<and> (broken w \<longrightarrow> p = [])))"

lemma sink_put:
  assumes "sink put flush close taken arrived broken" and "prefix (arrived w) (taken w)"
  shows "write_took taken arrived broken w s (put w s)"
proof -
  obtain ok w' where r: "put w s = (ok, w')" by (cases "put w s")
  with assms have "prefix (arrived w') (taken w') \<and> broken w' = (\<not> ok) \<and>
        (if broken w then \<not> ok \<and> taken w' = taken w
         else \<exists>p. prefix p s \<and> taken w' = taken w @ p \<and> (ok \<longrightarrow> p = s))"
    unfolding sink_def by blast
  then show ?thesis by (cases ok) (auto simp: write_took_def r split: if_splits)
qed

lemma sink_flush:
  assumes "sink put flush close taken arrived broken" and "prefix (arrived w) (taken w)"
  shows "write_took taken arrived broken w [] (flush w)"
    and "flush w = (True, w') \<Longrightarrow> arrived w' = taken w'"
proof -
  obtain ok v where r: "flush w = (ok, v)" by (cases "flush w")
  with assms have f: "prefix (arrived v) (taken v) \<and> broken v = (\<not> ok) \<and> taken v = taken w \<and>
        (if broken w then \<not> ok else ok \<longrightarrow> arrived v = taken v)"
    unfolding sink_def by blast
  then show "write_took taken arrived broken w [] (flush w)" by (cases ok) (auto simp: write_took_def r split: if_splits)
  show "flush w = (True, w') \<Longrightarrow> arrived w' = taken w'" using f r by (auto split: if_splits)
qed

lemma wrote_and_ok:
  assumes "write_took taken arrived broken w s r"
    and "\<And>w'. r = (True, w') \<Longrightarrow> prefix (arrived w') (taken w') \<Longrightarrow> write_took taken arrived broken w' t (g w')"
  shows "write_took taken arrived broken w (s @ t) (and_ok r g)"
proof -
  obtain ok w' where r: "r = (ok, w')" by (cases r)
  show ?thesis
  proof (cases ok)
    case True
    with assms r have "write_took taken arrived broken w' t (g w')" "\<not> broken w" "\<not> broken w'" "taken w' = taken w @ s"
      by (auto simp: write_took_def)
    then show ?thesis
      by (auto simp: and_ok_def r True write_took_def split: prod.splits if_splits)
  next
    case False
    with assms(1) r show ?thesis by (auto simp: and_ok_def write_took_def intro: prefix_prefix)
  qed
qed


definition crlf :: "str \<Rightarrow> str" where
  "crlf line = line @ [CHR 0x0D, newline]"

abbreviation wire :: "str list \<Rightarrow> str" where
  "wire lines \<equiv> concat (map crlf lines)"

lemma wrote_prefix: "write_took taken arrived broken w s (ok, w') \<Longrightarrow> prefix (arrived w') (taken w')"
  by (simp add: write_took_def)

lemma buffered_wrote:
  assumes "sink put flush close taken arrived broken" and "prefix (arrived w) (taken w)"
  shows "write_took taken arrived broken w (crlf line) (write_line_buffered put w line)"
  unfolding write_line_buffered_def crlf_def
  by (rule wrote_and_ok [OF sink_put [OF assms] sink_put [OF assms(1)]])

lemma line_wrote:
  assumes "sink put flush close taken arrived broken" and "prefix (arrived w) (taken w)"
  shows "write_took taken arrived broken w (crlf line) (write_line put flush w line)"
    and "write_line put flush w line = (True, w') \<Longrightarrow> arrived w' = taken w'"
proof -
  have "write_took taken arrived broken w (crlf line @ []) (write_line put flush w line)"
    unfolding write_line_def
    by (rule wrote_and_ok [OF buffered_wrote [OF assms] sink_flush(1) [OF assms(1)]])
  then show "write_took taken arrived broken w (crlf line) (write_line put flush w line)" by simp
  assume l: "write_line put flush w line = (True, w')"
  then obtain v where v: "write_line_buffered put w line = (True, v)" "flush v = (True, w')"
    by (auto simp: write_line_def and_ok_def split: prod.splits bool.splits)
  have "prefix (arrived v) (taken v)"
    using buffered_wrote [OF assms, of line] unfolding v(1) by (rule wrote_prefix)
  from sink_flush(2) [OF assms(1) this v(2)] show "arrived w' = taken w'" .
qed

lemma burst_wrote:
  assumes "sink put flush close taken arrived broken"
  shows "prefix (arrived w) (taken w) \<Longrightarrow> \<not> broken w \<Longrightarrow>
    write_took taken arrived broken w (wire lines) (write_burst put w lines)"
proof (induction lines arbitrary: w)
  case Nil
  then show ?case by (simp add: write_took_def)
next
  case (Cons line lines)
  have "write_took taken arrived broken w (crlf line @ wire lines) (write_burst put w (line # lines))"
    unfolding write_burst.simps
  proof (rule wrote_and_ok [OF buffered_wrote [OF assms Cons.prems(1)]])
    fix v
    assume "write_line_buffered put w line = (True, v)" and "prefix (arrived v) (taken v)"
    with buffered_wrote [OF assms Cons.prems(1), of line] show "write_took taken arrived broken v (wire lines) (write_burst put v lines)"
      by (intro Cons.IH) (simp_all add: write_took_def)
  qed
  then show ?case by simp
qed

subsection \<open>What is sent\<close>

fun loop_lines :: "str \<Rightarrow> str \<Rightarrow> feed_event list \<Rightarrow> str list" where
  "loop_lines version server_id [] = []"
| "loop_lines version server_id (Feed line burst # es) = line # burst @ loop_lines version server_id es"
| "loop_lines version server_id (Tick now # es) = keepalive version server_id now # loop_lines version server_id es"
| "loop_lines version server_id (FeedShutdown # es) = []"
| "loop_lines version server_id (FeedClosed # es) = []"

definition ends :: "feed_event list \<Rightarrow> bool" where
  "ends es \<longleftrightarrow> FeedShutdown \<in> set es \<or> FeedClosed \<in> set es"

definition feed_lines :: "str \<Rightarrow> str \<Rightarrow> bool \<Rightarrow> feed_event list \<Rightarrow> str list" where
  "feed_lines version server_id triggered es =
     loop_lines version server_id es @ (if ends es \<and> triggered then [farewell] else [])"

definition loop_ok ::
  "('w \<Rightarrow> str) \<Rightarrow> ('w \<Rightarrow> str) \<Rightarrow> ('w \<Rightarrow> bool) \<Rightarrow> 'w \<Rightarrow> str list \<Rightarrow> bool \<Rightarrow> feed_end option \<times> 'w \<Rightarrow> bool" where
  "loop_ok taken arrived broken w lines ended x \<longleftrightarrow>
     (case x of (r, w') \<Rightarrow>
        prefix (arrived w') (taken w') \<and>
        (if broken w' then \<exists>p. prefix p (wire lines) \<and> taken w' = taken w @ p
         else taken w' = taken w @ wire lines \<and> arrived w' = taken w' \<and> r = (if ended then Some Break else None)))"

lemma loop_ok_failed:
  "write_took taken arrived broken w s (False, w') \<Longrightarrow> prefix s (wire lines) \<Longrightarrow> loop_ok taken arrived broken w lines ended (r, w')"
  by (auto simp: write_took_def loop_ok_def)

lemma loop_ok_append:
  assumes "write_took taken arrived broken w (wire ls) (True, v)" and "loop_ok taken arrived broken v lines ended x"
  shows "loop_ok taken arrived broken w (ls @ lines) ended x"
  using assms by (auto simp: write_took_def loop_ok_def split: prod.splits)

lemma feed_loop_ok:
  assumes sink: "sink put flush close taken arrived broken"
  shows "\<not> broken w \<Longrightarrow> arrived w = taken w \<Longrightarrow>
    loop_ok taken arrived broken w (loop_lines version server_id es) (ends es) (feed_loop put flush version server_id es w)"
proof (induction es arbitrary: w)
  case Nil
  then show ?case by (simp add: loop_ok_def ends_def)
next
  case (Cons e es)
  have p: "prefix (arrived w) (taken w)" using Cons.prems(2) by simp
  show ?case
  proof (cases e)
    case (Feed line burst)
    obtain ok v where v: "write_line put flush w line = (ok, v)" by (cases "write_line put flush w line")
    note l = line_wrote(1) [OF sink p, of line, unfolded v]
    show ?thesis
    proof (cases ok)
      case False
      with l have "write_took taken arrived broken w (crlf line) (False, v)" by simp
      then show ?thesis by (auto simp: Feed v False intro: loop_ok_failed)
    next
      case True
      with l have v': "write_took taken arrived broken w (crlf line) (True, v)" "prefix (arrived v) (taken v)" "\<not> broken v"
        by (auto simp: write_took_def)
      obtain ok2 x where x: "write_burst put v burst = (ok2, x)" by (cases "write_burst put v burst")
      note b = burst_wrote [OF sink v'(2,3), of burst, unfolded x]
      have all: "write_took taken arrived broken w (wire (line # burst)) (ok2, x)"
        using wrote_and_ok [OF v'(1), where g = "\<lambda>_. (ok2, x)" and t = "wire burst"] b by (simp add: and_ok_def)
      show ?thesis
      proof (cases ok2)
        case False
        with all have "write_took taken arrived broken w (wire (line # burst)) (False, x)" by simp
        then show ?thesis by (auto simp: Feed v True x False intro: loop_ok_failed)
      next
        case True2: True
        with all have x': "write_took taken arrived broken w (wire (line # burst)) (True, x)" "prefix (arrived x) (taken x)"
          by (auto simp: write_took_def)
        obtain ok3 y where y: "flush x = (ok3, y)" by (cases "flush x")
        have f: "write_took taken arrived broken w (wire (line # burst)) (ok3, y)"
          using wrote_and_ok [OF x'(1), where g = "\<lambda>_. (ok3, y)" and t = "[]"] sink_flush(1) [OF sink x'(2)]
          by (simp add: and_ok_def y)
        show ?thesis
        proof (cases ok3)
          case False
          with f have "write_took taken arrived broken w (wire (line # burst)) (False, y)" by simp
          then show ?thesis by (auto simp: Feed v True x True2 y False intro: loop_ok_failed)
        next
          case True3: True
          have u: "\<not> broken y" "arrived y = taken y"
            using f sink_flush(2) [OF sink x'(2)] by (auto simp: True3 write_took_def y)
          have "write_took taken arrived broken w (wire (line # burst)) (True, y)" using f True3 by simp
          from loop_ok_append [OF this Cons.IH [OF u]] show ?thesis
            by (simp add: Feed v True x True2 y True3 ends_def)
        qed
      qed
    qed
  next
    case (Tick now)
    let ?l = "keepalive version server_id now"
    obtain ok v where v: "write_line put flush w ?l = (ok, v)" by (cases "write_line put flush w ?l")
    note l = line_wrote(1) [OF sink p, of ?l, unfolded v]
    show ?thesis
    proof (cases ok)
      case False
      with l have "write_took taken arrived broken w (crlf ?l) (False, v)" by simp
      then show ?thesis by (auto simp: Tick v False intro: loop_ok_failed)
    next
      case True
      have "\<not> broken v" "arrived v = taken v"
        using l line_wrote(2) [OF sink p] v by (auto simp: True write_took_def)
      with loop_ok_append [of taken arrived broken w "[?l]", OF _ Cons.IH [OF this]] l show ?thesis
        by (simp add: Tick v True ends_def)
    qed
  qed (use Cons.prems in \<open>simp_all add: loop_ok_def ends_def\<close>)
qed


text \<open>What reaches the peer are the first bytes of the lines sent, all of them when the connection has not broken.\<close>

lemma feed_prefix_arrives:
  assumes sink: "sink put flush close taken arrived broken" and "\<not> broken w" and "arrived w = []" and "taken w = []"
    and "w' = write_feed put flush close version server_id triggered es w"
  shows "prefix (arrived w') (wire (feed_lines version server_id triggered es))"
    and "\<not> broken w' \<Longrightarrow> arrived w' = wire (feed_lines version server_id triggered es)"
proof -
  let ?lines = "loop_lines version server_id es"
  obtain r v where v: "feed_loop put flush version server_id es w = (r, v)"
    by (cases "feed_loop put flush version server_id es w")
  have k: "loop_ok taken arrived broken w ?lines (ends es) (r, v)"
    using feed_loop_ok [OF sink assms(2)] assms(3,4) unfolding v [symmetric] by simp
  then have pv: "prefix (arrived v) (taken v)" by (simp add: loop_ok_def)
  have close: "prefix (arrived x) (taken x) \<Longrightarrow> prefix (arrived (close x)) (taken x)"
    "prefix (arrived x) (taken x) \<Longrightarrow> prefix (arrived x) (arrived (close x))"
    "prefix (arrived x) (taken x) \<Longrightarrow> broken (close x) = broken x" for x
    using sink unfolding sink_def by blast+
  obtain ok x where x: "write_line put flush v farewell = (ok, x)" by (cases "write_line put flush v farewell")
  note l = line_wrote(1) [OF sink pv, of farewell, unfolded x]
  have full: "arrived y = taken y \<Longrightarrow> arrived (close y) = taken y" for y
    using close(1,2) [of y] by (simp add: prefix_order.antisym)
  have goal: "prefix (arrived w') (wire (feed_lines version server_id triggered es)) \<and>
      (\<not> broken w' \<longrightarrow> arrived w' = wire (feed_lines version server_id triggered es))"
  proof (cases "broken v")
    case True
    then obtain p where p: "prefix p (wire ?lines)" "taken v = p" using k assms(4) by (auto simp: loop_ok_def)
    have "taken x = p" "broken x"
      using l True p(2) by (auto simp: write_took_def split: if_splits)
    moreover have "prefix (arrived x) (taken x)" using l by (simp add: write_took_def)
    ultimately have "prefix (arrived w') p \<and> broken w'"
      using assms(5) p(2) True pv close(1,3) [of v] close(1,3) [of x]
      by (auto simp: write_feed_def v x Let_def split: option.splits feed_end.splits)
    with p(1) show ?thesis by (auto simp: feed_lines_def intro: prefix_order.trans prefix_prefix)
  next
    case False
    with k assms(4) have t: "taken v = wire ?lines" "arrived v = taken v" "r = (if ends es then Some Break else None)"
      by (auto simp: loop_ok_def)
    show ?thesis
    proof (cases "ends es \<and> triggered")
      case True
      then have w': "w' = close x" using assms(5) t(3) by (simp add: write_feed_def v x Let_def)
      have px: "prefix (arrived x) (taken x)" using l by (simp add: write_took_def)
      have "\<not> broken x \<Longrightarrow> arrived x = taken x"
        using l line_wrote(2) [OF sink pv] x by (auto simp: write_took_def)
      with l t(1) px close [OF px] full [of x] True show ?thesis
        by (auto simp: w' feed_lines_def write_took_def split: if_splits intro: prefix_order.trans)
    next
      case False
      then have "w' = (if ends es then close v else v)"
        using assms(5) t(3) by (auto simp: write_feed_def v Let_def)
      with False t full [of v] show ?thesis by (auto simp: feed_lines_def)
    qed
  qed
  then show "prefix (arrived w') (wire (feed_lines version server_id triggered es))"
    "\<not> broken w' \<Longrightarrow> arrived w' = wire (feed_lines version server_id triggered es)" by simp_all
qed

subsection \<open>What the peer reads\<close>

text \<open>A line that survives the framing.\<close>

definition wire_line :: "nat \<Rightarrow> str \<Rightarrow> bool" where
  "wire_line mx line \<longleftrightarrow> length line < mx \<and> newline \<notin> set line \<and> valid_utf8 line"

lemma stream_lines_wire:
  "list_all (wire_line mx) ls \<Longrightarrow> stream_lines mx (wire ls @ s) = map Text ls @ stream_lines mx s"
proof (induction ls)
  case (Cons l ls)
  then have l: "wire_line mx l" and ls: "list_all (wire_line mx) ls" by simp_all
  have "newline \<notin> set (l @ [CHR 0x0D])" using l by (simp add: wire_line_def newline_def)
  from stream_lines_newline [OF this] l Cons.IH [OF ls] show ?case
    by (simp add: crlf_def line_item_def wire_line_def decode_line_def strip_carriage_return_def)
qed simp

lemma stream_lines_written: "list_all (wire_line mx) ls \<Longrightarrow> stream_lines mx (wire ls) = map Text ls"
  using stream_lines_wire [of mx ls "[]"] by (simp add: stream_lines_last)

lemma feed_stream: "Codec.feed (with_max_length mx) [] chunks = stream_lines mx (concat chunks)"
  by (subst feed_pending) (simp_all add: with_max_length_def codec_inv_def pending_def)

lemma prefix_wire:
  "prefix s (wire ls) \<Longrightarrow>
     \<exists>k rest. k \<le> length ls \<and> s = wire (take k ls) @ rest \<and>
       (rest = [] \<or> k < length ls \<and> strict_prefix rest (crlf (ls ! k)))"
proof (induction ls arbitrary: s)
  case Nil
  then show ?case by simp
next
  case (Cons l ls)
  show ?case
  proof (cases "prefix (crlf l) s")
    case True
    then obtain t where t: "s = crlf l @ t" by (auto simp: prefix_def)
    with Cons.prems have "prefix t (wire ls)" by simp
    from Cons.IH [OF this] obtain k rest where "k \<le> length ls" "t = wire (take k ls) @ rest"
      "rest = [] \<or> k < length ls \<and> strict_prefix rest (crlf (ls ! k))" by blast
    then show ?thesis by (intro exI [of _ "Suc k"] exI [of _ rest]) (simp add: t)
  next
    case False
    with Cons.prems have "strict_prefix s (crlf l)"
      by (auto simp: strict_prefix_def dest: prefix_same_cases [of s "crlf l @ wire ls" "crlf l"])
    then show ?thesis by (intro exI [of _ 0] exI [of _ s]) simp
  qed
qed

text \<open>C23: a peer with the same line decoder reads from the feed the packets, keepalives and the farewell in the order they were
  sent, however they were grouped into bursts and however the network cuts the bytes: all of them when the connection
  holds, and when a write fails the first ones of them, with at most one line after them that was cut off.\<close>

theorem feed_reaches_peer:
  assumes "sink put flush close taken arrived broken" and "\<not> broken w" and "arrived w = []" and "taken w = []"
    and "w' = write_feed put flush close version server_id triggered es w"
    and "lines = feed_lines version server_id triggered es" and "list_all (wire_line mx) lines"
    and "concat chunks = arrived w'"
  shows "\<exists>k cut. k \<le> length lines \<and> Codec.feed (with_max_length mx) [] chunks = map Text (take k lines) @ cut \<and>
    (cut = [] \<or> k < length lines \<and> (\<exists>rest. strict_prefix rest (crlf (lines ! k)) \<and> cut = [line_item mx rest])) \<and>
    (\<not> broken w' \<longrightarrow> k = length lines \<and> cut = [])"
proof (cases "broken w'")
  case False
  then have "concat chunks = wire lines" using feed_prefix_arrives(2) [OF assms(1-5)] assms(6,8) by simp
  then show ?thesis
    using stream_lines_written [OF assms(7)]
    by (intro exI [of _ "length lines"] exI [of _ "[]"]) (simp add: feed_stream)
next
  case True
  obtain k rest where k: "k \<le> length lines" "concat chunks = wire (take k lines) @ rest"
    "rest = [] \<or> k < length lines \<and> strict_prefix rest (crlf (lines ! k))"
    using prefix_wire [OF feed_prefix_arrives(1) [OF assms(1-5)]] unfolding assms(6,8) by blast
  have "list_all (wire_line mx) (take k lines)" using assms(7) by (auto simp: list_all_iff dest: in_set_takeD)
  from stream_lines_wire [OF this, of rest] have
    f: "Codec.feed (with_max_length mx) [] chunks = map Text (take k lines) @ stream_lines mx rest"
    by (simp add: feed_stream k(2))
  have "newline \<notin> set rest"
  proof (cases "rest = []")
    case False
    with k(3) have "strict_prefix rest (crlf (lines ! k))" "lines ! k \<in> set lines" by simp_all
    then have "prefix rest (lines ! k @ [CHR 0x0D])"
      using prefix_snoc [of rest "lines ! k @ [CHR 0x0D]" newline] by (auto simp: crlf_def strict_prefix_def)
    then have "set rest \<subseteq> set (lines ! k @ [CHR 0x0D])" by (rule set_mono_prefix)
    moreover have "newline \<notin> set (lines ! k)" using assms(7) \<open>lines ! k \<in> set lines\<close> by (auto simp: list_all_iff wire_line_def)
    ultimately show ?thesis by (auto simp: newline_def)
  qed simp
  then have "stream_lines mx rest = (if rest = [] then [] else [line_item mx rest])" by (rule stream_lines_last)
  with f k(1,3) True show ?thesis
    by (intro exI [of _ k] exI [of _ "stream_lines mx rest"]) auto
qed


subsection \<open>Witnesses\<close>

text \<open>A socket that takes \<open>n\<close> more bytes before it breaks, and passes everything on at once: what it has taken, how much
  it will still take, and whether it is broken.\<close>

fun limited_put :: "str \<times> nat \<times> bool \<Rightarrow> str \<Rightarrow> bool \<times> str \<times> nat \<times> bool" where
  "limited_put (out, n, b) s =
     (if b then (False, out, n, b)
      else if length s \<le> n then (True, out @ s, n - length s, False)
      else (False, out @ take n s, 0, True))"

definition limited_flush :: "str \<times> nat \<times> bool \<Rightarrow> bool \<times> str \<times> nat \<times> bool" where
  "limited_flush w = (\<not> snd (snd w), w)"

lemma limited_sink: "sink limited_put limited_flush id fst fst (\<lambda>w. snd (snd w))"
  unfolding sink_def
  by (auto simp: limited_flush_def take_is_prefix split: if_splits)

theorem feed_reaches_peer_witness:
  "\<exists>k cut. Codec.feed (with_max_length 512) [] [''# hi'', [CHR 0x0D, newline], ''# apr''] = map Text (take k [''# hi'', farewell]) @ cut \<and>
     Codec.feed (with_max_length 512) [] [''# h'', ''i'' @ [CHR 0x0D, newline] @ farewell @ [CHR 0x0D], [newline]] =
       [Text ''# hi'', Text farewell]"
proof -
  let ?es = "[Feed ''# hi'' [], FeedShutdown]"
  let ?feed = "write_feed limited_put limited_flush id [] [] True ?es"
  have lines: "[''# hi'', farewell] = feed_lines [] [] True ?es" by (simp add: feed_lines_def ends_def)
  have wl: "list_all (wire_line 512) [''# hi'', farewell]"
    by (simp add: wire_line_def farewell_def newline_def valid_utf8_ascii is_ascii_def)
  have b1: "concat [''# hi'', [CHR 0x0D, newline], ''# apr''] = fst (?feed ([], 11, False))"
    by (simp add: write_feed_def write_line_def write_line_buffered_def and_ok_def limited_flush_def farewell_def)
  have b2: "concat [''# h'', ''i'' @ [CHR 0x0D, newline] @ farewell @ [CHR 0x0D], [newline]] = fst (?feed ([], 99, False))"
    "\<not> snd (snd (?feed ([], 99, False)))"
    by (simp_all add: write_feed_def write_line_def write_line_buffered_def and_ok_def limited_flush_def farewell_def)
  note peer = feed_reaches_peer [where version = "[]" and server_id = "[]" and triggered = True and es = ?es,
    OF limited_sink _ _ _ refl lines wl]
  have "\<exists>k cut. Codec.feed (with_max_length 512) [] [''# hi'', [CHR 0x0D, newline], ''# apr''] =
      map Text (take k [''# hi'', farewell]) @ cut"
    using peer [of "([], 11, False)", OF _ _ _ b1] by auto
  moreover have "Codec.feed (with_max_length 512) [] [''# h'', ''i'' @ [CHR 0x0D, newline] @ farewell @ [CHR 0x0D], [newline]] =
      [Text ''# hi'', Text farewell]"
    using peer [of "([], 99, False)", OF _ _ _ b2(1)] b2(2) by auto
  ultimately show ?thesis by blast
qed

end
