(* ===== verification/End_To_End.thy ===== *)
theory End_To_End
  imports Progress Client_Feed
begin

section \<open>From bytes to bytes\<close>

text \<open>
  The way of a packet through the whole server: the bytes of one connection, cut up by the network, through the
  decoder, the login and the submissions of its task (\<open>client.rs\<close>, \<open>codec.rs\<close>), through the queue and the ingest path
  of the dispatcher (\<open>dispatch.rs\<close>, \<open>qconstruct.rs\<close>), into the queue of another client and over its feed back into
  bytes. \<open>delivered_bytes\<close> shows that a line that goes in comes out as UTF-8 on one line and within the limit of the
  peer's decoder; \<open>packets_cross_server\<close> composes the theorems of the components.
\<close>

subsection \<open>Slices of UTF-8 text\<close>

lemma valid_utf8_append: "valid_utf8 s \<Longrightarrow> valid_utf8 (s @ t) \<longleftrightarrow> valid_utf8 t"
  by (simp add: valid_utf8_def segs_append)

lemma valid_utf8_comma: "valid_utf8 s \<Longrightarrow> is_ascii c \<Longrightarrow> valid_utf8 t \<Longrightarrow> valid_utf8 (s @ c # t)"
  by (simp add: valid_utf8_append valid_utf8_ascii_Cons)

lemma valid_seg_cont: "valid_seg (b # w) \<Longrightarrow> list_all is_cont w"
  by (cases "b # w" rule: valid_seg.cases) (auto simp: in_range_def is_cont_def)

lemma valid_seg_width: "valid_seg (b # take n bs) \<Longrightarrow> n = utf8_width b - 1 \<Longrightarrow> n \<le> length bs"
  by (cases "b # take n bs" rule: valid_seg.cases)
     (auto simp: utf8_width_def is_ascii_def in_range_def split: if_splits dest!: arg_cong [where f = length])

text \<open>A slice up to a character boundary is a string again.\<close>

lemma valid_utf8_take: "valid_utf8 s \<Longrightarrow> is_char_boundary s i \<Longrightarrow> valid_utf8 (take i s)"
proof (induction s arbitrary: i rule: segs.induct)
  case (2 b bs)
  define n where "n = utf8_width b - 1"
  have seg: "valid_seg (b # take n bs)" and v: "valid_utf8 (drop n bs)"
    using "2.prems"(1) by (simp_all add: valid_utf8_def n_def)
  note n = valid_seg_width [OF seg n_def]
  consider "i = 0" | "0 < i" "i \<le> n" | "n < i" by linarith
  then show ?case
  proof cases
    case 2
    have "is_cont (bs ! (i - 1))"
      using valid_seg_cont [OF seg] 2 n by (auto simp: list_all_length dest: spec [of _ "i - 1"])
    with "2.prems"(2) 2 n have "i = length (b # bs)"
      by (auto simp: is_char_boundary_def nth_Cons')
    then show ?thesis using "2.prems"(1) by simp
  next
    case 3
    have "is_char_boundary (drop n bs) (i - Suc n)"
      using "2.prems"(2) 3 n by (auto simp: is_char_boundary_def nth_Cons')
    then have u: "valid_utf8 (take (i - Suc n) (drop n bs))"
      using "2.IH" v by (simp add: n_def)
    have "take i (b # bs) = (b # take n bs) @ take (i - Suc n) (drop n bs)"
      using 3 take_add [of "Suc n" "i - Suc n" "b # bs"] by simp
    moreover have "valid_utf8 (b # take n bs)"
      using seg n by (simp add: valid_utf8_def min_def) (simp add: n_def)
    ultimately show ?thesis using u valid_utf8_append by fastforce
  qed simp
qed simp

lemma truncated_utf8: "valid_utf8 raw \<Longrightarrow> valid_utf8 (truncated_to raw i)"
  by (auto simp: truncated_to_def get_to_def intro: valid_utf8_take)

lemma field_utf8: "valid_utf8 raw \<Longrightarrow> f \<in> set (path_fields raw) \<Longrightarrow> valid_utf8 f"
proof (induction "length raw" arbitrary: raw rule: less_induct)
  case less
  show ?case
  proof (cases "find_byte CHR '','' raw")
    case None
    then show ?thesis using less.prems by (simp add: path_fields_find_None)
  next
    case (Some i)
    then have i: "i < length raw" "raw = take i raw @ CHR '','' # drop (Suc i) raw"
      by (auto dest!: find_byte_SomeD simp: id_take_nth_drop [symmetric])
    then have v: "valid_utf8 (take i raw)" "valid_utf8 (drop (Suc i) raw)"
      using valid_utf8_split_ascii [of "take i raw" "CHR '',''" "drop (Suc i) raw"] less.prems(1)
      by (simp_all add: is_ascii_def)
    from less.prems(2) consider "f = take i raw" | "f \<in> set (path_fields (drop (Suc i) raw))"
      unfolding path_fields_find_Some [OF Some] by auto
    then show ?thesis
      using v less.hyps [of "drop (Suc i) raw"] i(1) by cases auto
  qed
qed

lemma i_construct_utf8:
  assumes "valid_utf8 path" and "path_valid path" and "i_construct path = Some igate"
  shows "valid_utf8 igate"
proof -
  obtain cs i where "calls path = cs @ [igate, i]"
    using assms(3) unfolding i_construct_iff by blast
  then have "igate \<in> set (calls path)" by simp
  then obtain f where f: "f \<in> set (path_fields path)" "igate = plain_call f"
    unfolding calls_eq [OF path_valid_ok [OF assms(2)]] by auto
  note v = field_utf8 [OF assms(1) f(1)]
  have "valid_utf8 (plain_call f)"
  proof (cases "strip_suffix_char CHR ''*'' f")
    case (Some g)
    with v have "valid_utf8 (g @ CHR ''*'' # [])" by (simp add: strip_suffix_char_Some)
    then have "valid_utf8 g" using valid_utf8_split_ascii [of g "CHR ''*''" "[]"] by (simp add: is_ascii_def)
    with Some show ?thesis by (simp add: plain_call_def hop_of_def)
  qed (use v in \<open>simp add: plain_call_def hop_of_def\<close>)
  then show ?thesis by (simp add: f(2))
qed


subsection \<open>What is delivered is a line on the wire\<close>

lemma tagged_utf8:
  "valid_utf8 base \<Longrightarrow> valid_utf8 call \<Longrightarrow> valid_utf8 (base @ CHR '','' # qcode_as_str code @ CHR '','' # call)"
  "valid_utf8 call \<Longrightarrow> valid_utf8 (qcode_as_str code @ CHR '','' # call)"
proof -
  have c: "is_ascii CHR '',''" by (simp add: is_ascii_def)
  have q: "valid_utf8 (qcode_as_str code)"
    by (rule valid_utf8_ascii) (cases code, simp_all add: is_ascii_def)
  have u: "valid_utf8 (qcode_as_str code @ CHR '','' # call)" if "valid_utf8 call"
    using q c that by (rule valid_utf8_comma)
  show "valid_utf8 call \<Longrightarrow> valid_utf8 (qcode_as_str code @ CHR '','' # call)" by (rule u)
  show "valid_utf8 base \<Longrightarrow> valid_utf8 call \<Longrightarrow> valid_utf8 (base @ CHR '','' # qcode_as_str code @ CHR '','' # call)"
    by (rule valid_utf8_comma [OF _ c u])
qed

lemma writers_utf8:
  assumes "valid_utf8 path" and "valid_utf8 call"
  shows "valid_utf8 (qo_path (append_q path code call))"
    and "valid_utf8 (qo_path (replace_at path k code call))"
    and "valid_utf8 (qo_path (replace_or_append path e code call))"
    and "valid_utf8 (qo_path (rewrite_i_construct path code call))"
    and "valid_utf8 (qo_path (unchanged path code))"
  using assms tagged_utf8 truncated_utf8
  by (simp_all add: append_q_def replace_at_def replace_or_append_def rewrite_i_construct_def unchanged_def Let_def
      split: option.split)

lemma rewrite_of_utf8:
  assumes "valid_utf8 (p_path p)" and "path_valid (p_path p)"
    and "valid_utf8 (qc_server_id ctx)" and "valid_utf8 (qc_login ctx)"
  shows "valid_utf8 (qo_path (rewrite_of p ctx))"
  using writers_utf8 [OF assms(1)] assms(3,4) i_construct_utf8 [OF assms(1,2)]
  by (simp add: rewrite_of_def Let_def split: option.split)

lemma station_utf8: "valid_station c \<Longrightarrow> valid_utf8 c"
  using validate_for_packet_ascii by (auto simp: valid_station_def intro: valid_utf8_ascii)

lemma packet_utf8:
  assumes "packet_parse line = Inr p" and "valid_utf8 line"
  shows "valid_utf8 (p_source p)" and "valid_utf8 (p_destination p)" and "valid_utf8 (p_path p)"
    and "valid_utf8 (p_payload p)"
proof -
  obtain s d rest where r: "line = s @ CHR ''>'' # d @ rest @ CHR '':'' # p_payload p" "path_part rest (p_path p)"
    "s = p_source p" "d = p_destination p" "validate_for_packet d = Inr ()"
    using assms(1) by (rule packet_parse_InrE) auto
  note a = valid_utf8_split_ascii [where a = "CHR ''>''"] valid_utf8_split_ascii [where a = "CHR '':''"]
    valid_utf8_split_ascii [where a = "CHR '',''"]
  have gt: "valid_utf8 s \<and> valid_utf8 (d @ rest @ CHR '':'' # p_payload p)"
    by (rule a(1)) (use assms(2) r(1) in \<open>simp_all add: is_ascii_def\<close>)
  then have colon: "valid_utf8 (d @ rest) \<and> valid_utf8 (p_payload p)"
    by (intro a(2)) (simp_all add: is_ascii_def)
  have path: "valid_utf8 d \<and> valid_utf8 (p_path p)"
  proof (cases "p_path p = []")
    case True
    then show ?thesis using r(5) validate_for_packet_ascii by (simp add: valid_utf8_ascii)
  next
    case False
    then have "rest = CHR '','' # p_path p"
      using r(2) by (cases rest) (auto simp: path_part_def split: if_splits)
    with colon show ?thesis by (intro a(3)) (simp_all add: is_ascii_def)
  qed
  show "valid_utf8 (p_source p)" "valid_utf8 (p_destination p)" "valid_utf8 (p_path p)" "valid_utf8 (p_payload p)"
    using gt path colon r(3,4) by simp_all
qed

text \<open>A line the server delivers can be sent: it is UTF-8, has no newline and leaves room for its carriage return
  within the 512 bytes of a peer's decoder.\<close>

lemma delivered_bytes:
  assumes "process hash send m i dc st now = (Delivered line code, dc', st')"
    and "valid_utf8 (in_line i)" and "valid_station (ss_server_id st)" and "valid_station (in_login i)"
  shows "wire_line MAX_PACKET_LEN line"
  using assms(1)
proof (cases rule: process_cases)
  case (delivered p out final)
  let ?ctx = "context_of st i"
  have v: "valid_utf8 (qc_server_id ?ctx)" "valid_utf8 (qc_login ?ctx)"
    using assms(3,4) by (simp_all add: context_of_def station_utf8)
  have "out = rewrite_of p ?ctx"
    using delivered(4) by (simp add: apply_client_eq split: option.splits)
  then have o: "valid_utf8 (qo_path out)"
    using rewrite_of_utf8 [OF packet_utf8(3) [OF delivered(2) assms(2)] packet_path_valid [OF delivered(2) assms(2)] v]
    by simp
  have c: "is_ascii CHR ''>''" "is_ascii CHR '':''" "is_ascii CHR '',''" by (simp_all add: is_ascii_def)
  have "valid_utf8 (with_path p (qo_path out))"
    unfolding with_path_def using o packet_utf8 [OF delivered(2) assms(2)] c
    by (simp add: valid_utf8_append valid_utf8_ascii_Cons)
  then have u: "valid_utf8 line"
    using delivered(6) assms(2) by (auto simp: rendered_line_def)
  have "packet_wf final" "p_raw final = line"
    using packet_codec.parse_wf delivered(5,6) by (auto elim: packet_parse_InrE)
  then have "length line \<le> MAX_PACKET_BODY_LEN" "list_all (\<lambda>b. \<not> is_control b) line"
    by (auto simp: packet_wf_def)
  with u show ?thesis
    by (auto simp: wire_line_def MAX_PACKET_BODY_LEN_def MAX_PACKET_LEN_def list_all_iff is_control_def newline_def)
qed simp_all


subsection \<open>The bytes of a connection as arrivals\<close>

text \<open>
  What the reading half of a connection (\<open>FramedRead\<close> over the decoder, \<open>lines\<close> in \<open>serve\<close>) delivers for chunks of bytes
  that come in after the given seconds, until the peer closes after \<open>e\<close> more: the first line a chunk completes has waited
  since the line before it, the lines behind it in the same chunk have not waited at all.
\<close>

definition timed :: "nat \<Rightarrow> line list \<Rightarrow> arrival list" where
  "timed t items = (case items of [] \<Rightarrow> [] | item # rest \<Rightarrow> Arrives t item # map (Arrives 0) rest)"

definition waiting :: "nat \<Rightarrow> line list \<Rightarrow> nat" where
  "waiting t items = (if items = [] then t else 0)"

fun framed :: "line_codec \<Rightarrow> str \<Rightarrow> nat \<Rightarrow> (nat \<times> str) list \<Rightarrow> nat \<Rightarrow> arrival list" where
  "framed c buf t [] e =
     (case drain c buf of (ls, c', buf') \<Rightarrow>
        let items = ls @ (case decode_eof c' buf' of (Some l, _) \<Rightarrow> [l] | (None, _) \<Rightarrow> [])
        in timed (t + e) items @ [Ends (waiting (t + e) items)])"
| "framed c buf t ((w, chunk) # chunks) e =
     (case drain c (buf @ chunk) of (ls, c', buf') \<Rightarrow>
        timed (t + w) ls @ framed c' buf' (waiting (t + w) ls) chunks e)"

lemma timed_eq: "\<exists>ws. length ws = length items \<and> timed t items = map2 Arrives ws items"
proof (cases items)
  case (Cons item rest)
  have "map (Arrives 0) rest = map2 Arrives (replicate (length rest) 0) rest"
    by (induction rest) simp_all
  with Cons show ?thesis by (intro exI [of _ "t # replicate (length rest) 0"]) (simp add: timed_def)
qed (simp add: timed_def)

lemma framed_eq:
  "\<exists>ws w. length ws = length (Codec.feed c buf (map snd chunks)) \<and>
     framed c buf t chunks e = map2 Arrives ws (Codec.feed c buf (map snd chunks)) @ [Ends w]"
proof (induction c buf t chunks e rule: framed.induct)
  case (1 c buf t e)
  obtain ls c' buf' where d: "drain c buf = (ls, c', buf')" by (metis prod_cases3)
  define items where "items = Codec.feed c buf []"
  obtain ws where "length ws = length items" "timed (t + e) items = map2 Arrives ws items"
    using timed_eq by blast
  moreover have "framed c buf t [] e = timed (t + e) items @ [Ends (waiting (t + e) items)]"
    by (simp add: items_def d Let_def)
  ultimately show ?case unfolding list.map items_def [symmetric] by auto
next
  case (2 c buf t w chunk chunks e)
  obtain ls c' buf' where d: "drain c (buf @ chunk) = (ls, c', buf')" by (metis prod_cases3)
  from "2.IH" [OF d [symmetric] refl] obtain ws v where
    ws: "length ws = length (Codec.feed c' buf' (map snd chunks))"
      "framed c' buf' (waiting (t + w) ls) chunks e = map2 Arrives ws (Codec.feed c' buf' (map snd chunks)) @ [Ends v]"
    by blast
  obtain us where us: "length us = length ls" "timed (t + w) ls = map2 Arrives us ls"
    using timed_eq by blast
  show ?case
    by (rule exI [of _ "us @ ws"], rule exI [of _ v]) (simp add: d ws us)
qed

lemma framed_stream:
  "concat (map snd chunks) = wire lines \<Longrightarrow> list_all (wire_line mx) lines \<Longrightarrow>
     \<exists>ws w. length ws = length lines \<and>
       framed (with_max_length mx) [] 0 chunks e = map2 Arrives ws (map Text lines) @ [Ends w]"
proof -
  assume b: "concat (map snd chunks) = wire lines" and l: "list_all (wire_line mx) lines"
  have "Codec.feed (with_max_length mx) [] (map snd chunks) = map Text lines"
    by (simp add: feed_stream b stream_lines_written [OF l])
  then show ?thesis using framed_eq [of "with_max_length mx" "[]" chunks 0 e] by simp
qed

lemma timed_waits: "list_all (\<lambda>a. waited a \<le> t) (timed t items)"
  by (cases items) (simp_all add: timed_def list_all_iff)

lemma waits_mono: "list_all (\<lambda>a. waited a \<le> s) as \<Longrightarrow> s \<le> t \<Longrightarrow> list_all (\<lambda>a. waited a \<le> t) as"
  by (auto simp: list_all_iff)

text \<open>No wait is longer than all the silence together.\<close>

lemma framed_waits: "list_all (\<lambda>a. waited a \<le> t + sum_list (map fst chunks) + e) (framed c buf t chunks e)"
proof (induction c buf t chunks e rule: framed.induct)
  case (1 c buf t e)
  then show ?case using timed_waits by (auto simp: Let_def waiting_def split: prod.split)
next
  case (2 c buf t w chunk chunks e)
  obtain ls c' buf' where d: "drain c (buf @ chunk) = (ls, c', buf')" by (metis prod_cases3)
  have "list_all (\<lambda>a. waited a \<le> t + (w + sum_list (map fst chunks)) + e) (timed (t + w) ls)"
    using timed_waits by (rule waits_mono) simp
  moreover have "list_all (\<lambda>a. waited a \<le> t + (w + sum_list (map fst chunks)) + e)
      (framed c' buf' (waiting (t + w) ls) chunks e)"
    using "2.IH" [OF d [symmetric] refl] by (rule waits_mono) (simp add: waiting_def)
  ultimately show ?case by (simp add: d)
qed

lemma received_arrivals:
  "length ws = length items \<Longrightarrow> list_all (\<lambda>a. waited a \<le> timeout) (map2 Arrives ws items) \<Longrightarrow>
     received timeout (map ReadInput (map2 Arrives ws items @ [Ends w])) = items"
  by (induction ws items rule: list_induct2) simp_all


subsection \<open>Bounded channels\<close>

text \<open>What is relied on of a channel whose receiver is there (\<open>live\<close>): it keeps the order and takes up to \<open>cap\<close> items.\<close>

definition buffer :: "('q \<Rightarrow> 'x \<Rightarrow> 'q option) \<Rightarrow> ('q \<Rightarrow> 'x list) \<Rightarrow> nat \<Rightarrow> ('q \<Rightarrow> bool) \<Rightarrow> bool" where
  "buffer put items cap live \<longleftrightarrow>
     (\<forall>q x. live q \<longrightarrow>
        (if length (items q) < cap then \<exists>q'. put q x = Some q' \<and> live q' \<and> items q' = items q @ [x]
         else put q x = None))"

lemma buffer_put:
  assumes "buffer put items cap live" and "live q" and "length (items q) < cap"
  shows "\<exists>q'. put q x = Some q' \<and> live q' \<and> items q' = items q @ [x]"
  using assms by (auto simp: buffer_def)

lemma buffer_offered:
  "buffer submit items cap live \<Longrightarrow> live q \<Longrightarrow> length (items q) + length is \<le> cap \<Longrightarrow>
     \<exists>q'. offered submit is q = (q', 0) \<and> live q' \<and> items q' = items q @ is"
proof (induction "is" arbitrary: q)
  case (Cons i "is")
  then obtain q1 where q1: "submit q i = Some q1" "live q1" "items q1 = items q @ [i]"
    using buffer_put [OF Cons.prems(1,2)] by fastforce
  with Cons show ?case by fastforce
qed simp

subsection \<open>The receiving client\<close>

definition delivered_lines :: "disposition list \<Rightarrow> str list" where
  "delivered_lines ds = List.map_filter (\<lambda>d. case d of Delivered line _ \<Rightarrow> Some line | _ \<Rightarrow> None) ds"

lemma delivered_lines_simps [simp]:
  "delivered_lines [] = []"
  "delivered_lines (d # ds) = (case d of Delivered line _ \<Rightarrow> [line] | _ \<Rightarrow> []) @ delivered_lines ds"
  by (simp_all add: delivered_lines_def List.map_filter_def split: disposition.split)

definition full_feed :: "client_id \<Rightarrow> 'o server_state \<Rightarrow> 'o client \<Rightarrow> bool" where
  "full_feed j st b \<longleftrightarrow> reg_get (ss_registry st) j = Some b \<and> cl_id b = j \<and> cl_port_kind b = FullFeed"

lemma deliver_full_feed:
  assumes "full_feed j st b" and "in_origin i \<noteq> Some j"
    and "send (cl_outbox b) line = Some o'"
  shows "\<exists>b'. full_feed j (deliver send m i line p now st) b' \<and> cl_outbox b' = o'"
proof -
  let ?f = "\<lparr>fd_packet = p, fd_parsed = aprs_parse p, fd_line = line, fd_origin = in_origin i,
      fd_positions = position_of (record_position p (aprs_parse p) now (ss_positions st))\<rparr>"
  have r: "ss_registry (deliver send m i line p now st) = fst (broadcast send m (ss_registry st) ?f (ss_metrics st))"
    by (simp add: deliver_def Let_def split: prod.split)
  have "eligible m ?f b" using assms(1,2) by (auto simp: eligible_def accepts_def full_feed_def)
  then have "cl_outbox (after_offer send m ?f b) = o'" "cl_id (after_offer send m ?f b) = cl_id b"
    "cl_port_kind (after_offer send m ?f b) = cl_port_kind b"
    using assms(3) by (simp_all add: after_offer_cases)
  moreover have "reg_get (ss_registry (deliver send m i line p now st)) j = Some (after_offer send m ?f b)"
    unfolding r broadcast_get using assms(1) by (simp add: full_feed_def)
  ultimately show ?thesis using assms(1) by (auto simp: full_feed_def)
qed

lemma process_full_feed:
  assumes "process hash send m i dc st now = (d, dc', st')" and "full_feed j st b" and "in_origin i \<noteq> Some j"
    and "buffer send lines cap live" and "live (cl_outbox b)" and "length (lines (cl_outbox b)) < cap"
  shows "\<exists>b'. full_feed j st' b' \<and> live (cl_outbox b') \<and>
    lines (cl_outbox b') = lines (cl_outbox b) @ delivered_lines [d]"
  using assms(1)
proof (cases rule: process_cases)
  case (delivered packet out final)
  let ?st = "with_metrics st (count_received (in_line i))" and ?line = "rendered_line i packet out"
  obtain o' where o': "send (cl_outbox b) ?line = Some o'" "live o'" "lines o' = lines (cl_outbox b) @ [?line]"
    using buffer_put [OF assms(4-6)] by blast
  have "full_feed j ?st b" using assms(2) by (simp add: full_feed_def with_metrics_def)
  then have "\<exists>b'. full_feed j (deliver send m i ?line final now ?st) b' \<and> cl_outbox b' = o'"
    using assms(3) o'(1) by (rule deliver_full_feed)
  with delivered o' show ?thesis by auto
qed (use assms(2,5) in \<open>auto simp: full_feed_def with_metrics_def\<close>)

lemma process_all_full_feed:
  "process_all hash send m is dc st = (ds, dc', st') \<Longrightarrow> full_feed j st b \<Longrightarrow>
     list_all (\<lambda>(i, _). in_origin i \<noteq> Some j) is \<Longrightarrow> buffer send lines cap live \<Longrightarrow> live (cl_outbox b) \<Longrightarrow>
     length (lines (cl_outbox b)) + length is \<le> cap \<Longrightarrow>
     \<exists>b'. full_feed j st' b' \<and> lines (cl_outbox b') = lines (cl_outbox b) @ delivered_lines ds"
proof (induction "is" arbitrary: dc st ds b)
  case (Cons a "is")
  obtain i now where a: "a = (i, now)" by (cases a)
  obtain d dc1 st1 where p: "process hash send m i dc st now = (d, dc1, st1)" by (metis prod_cases3)
  obtain es where q: "process_all hash send m is dc1 st1 = (es, dc', st')" and ds: "ds = d # es"
    using Cons.prems(1) by (auto simp: a p split: prod.splits)
  have "in_origin i \<noteq> Some j" "length (lines (cl_outbox b)) < cap" using Cons.prems(3,6) by (simp_all add: a)
  then obtain b1 where b1: "full_feed j st1 b1" "live (cl_outbox b1)"
    "lines (cl_outbox b1) = lines (cl_outbox b) @ delivered_lines [d]"
    using process_full_feed [OF p Cons.prems(2) _ Cons.prems(4,5)] by blast
  have "length (delivered_lines [d]) \<le> 1" by (simp split: disposition.split)
  with Cons.IH [OF q b1(1) _ Cons.prems(4) b1(2)] Cons.prems(3,6) b1(3) show ?case
    by (fastforce simp: ds)
qed auto


subsection \<open>A session from its bytes\<close>

lemma log_in_constant:
  assumes "log_in channel login peer l now row st = (c, st')"
  shows "ss_config st' = ss_config st" and "ss_server_id st' = ss_server_id st"
  using assms by (auto simp: log_in_def register_def Let_def with_metrics_def split: prod.splits if_splits)

lemma login_station: "login_parse text = Inr login \<Longrightarrow> valid_station (cs_raw (lr_callsign login))"
proof -
  assume "login_parse text = Inr login"
  then obtain c where "parse_login c = Inr (lr_callsign login)" by (rule login_parse_InrD)
  then have "callsign_parse c = Inr (lr_callsign login)" "c = cs_raw (lr_callsign login)"
    by (auto simp: parse_login_def callsign_parse_wf_iff split: if_splits)
  then have "\<exists>r. validate (cs_raw (lr_callsign login)) = Inr r" by (auto simp: callsign_parse_def res_simps)
  then show ?thesis by (simp add: valid_station_def validate_for_packet_Inr)
qed

text \<open>A client's bytes, a login line and then others, become its login and its lines.\<close>

lemma session_arrivals:
  assumes "concat (map snd chunks) = wire (text # ls)"
    and "list_all (wire_line mx) (text # ls)"
    and "login_parse text = Inr login" and "\<not> login_skipped (Text text)"
    and "list_all (\<lambda>a. waited a \<le> LOGIN_TIMEOUT \<and> waited a \<le> timeout) (framed (with_max_length mx) [] 0 chunks e)"
  shows "\<exists>rest. read_login (framed (with_max_length mx) [] 0 chunks e) = (Some login, rest) \<and>
    received timeout (map ReadInput rest) = map Text ls"
proof -
  obtain ws w where f: "length ws = length (text # ls)"
    "framed (with_max_length mx) [] 0 chunks e = map2 Arrives ws (map Text (text # ls)) @ [Ends w]"
    using framed_stream [OF assms(1,2)] by blast
  then obtain v vs where ws: "ws = v # vs" "length vs = length (map Text ls)" by (cases ws) auto
  have "received timeout (map ReadInput (map2 Arrives vs (map Text ls) @ [Ends w])) = map Text ls"
    by (rule received_arrivals [OF ws(2)]) (use assms(5) f(2) in \<open>simp add: ws list_all_iff\<close>)
  moreover have "v \<le> LOGIN_TIMEOUT" using assms(5) f(2) by (simp add: ws)
  with assms(3,4) have "read_login (Arrives v (Text text) # map2 Arrives vs (map Text ls) @ [Ends w]) =
      (Some login, map2 Arrives vs (map Text ls) @ [Ends w])"
    by (simp add: login_skipped_def)
  ultimately show ?thesis by (simp add: f(2) ws(1))
qed

lemma other_client_kept:
  assumes "reg_inv (ss_registry st, n)" and "n < 2 ^ 64" and "full_feed j st b"
    and "log_in channel login peer l now row st = (c, st1)"
  shows "full_feed j st1 b \<and> cl_id c \<noteq> j"
proof -
  obtain g where g: "c = fst (reg_insert (ss_registry st) g)" "ss_registry st1 = snd (reg_insert (ss_registry st) g)"
    using log_in_effect(1) [OF assms(4)] by blast
  note fresh = reg_inv_fresh [OF assms(1,2)]
  have "j \<in> fst ` set (rg_clients (ss_registry st))"
    using assms(3) by (auto simp: full_feed_def reg_get_def dest: map_of_SomeD intro: rev_image_eqI)
  with fresh have "j \<noteq> rg_next_id (ss_registry st)" by blast
  with assms(3) show ?thesis
    by (auto simp: full_feed_def g reg_insert_fresh [OF fresh] reg_insert_id reg_get_def map_add_def split: option.split)
qed

lemma full_feed_on_client:
  "cl_id c \<noteq> j \<Longrightarrow> full_feed j st b \<Longrightarrow> full_feed j (on_client st (cl_id c) g) b"
  by (simp add: full_feed_def on_client_def with_client_get)

lemma full_feed_disconnect:
  "cl_id c \<noteq> j \<Longrightarrow> full_feed j st b \<Longrightarrow> full_feed j (snd (disconnect c now st)) b"
  by (simp add: full_feed_def disconnect_def reg_remove_def reg_get_def with_metrics_def delete_conv' split: prod.split)


lemma process_all_wire:
  "process_all hash send m is dc st = (ds, dc', st') \<Longrightarrow> valid_station (ss_server_id st) \<Longrightarrow>
     list_all (\<lambda>(i, _). valid_utf8 (in_line i) \<and> valid_station (in_login i)) is \<Longrightarrow>
     list_all (wire_line MAX_PACKET_LEN) (delivered_lines ds)"
proof (induction "is" arbitrary: dc st ds)
  case (Cons a "is")
  obtain i now where a: "a = (i, now)" by (cases a)
  obtain d dc1 st1 where p: "process hash send m i dc st now = (d, dc1, st1)" by (metis prod_cases3)
  obtain es where q: "process_all hash send m is dc1 st1 = (es, dc', st')" and ds: "ds = d # es"
    using Cons.prems(1) by (auto simp: a p split: prod.splits)
  have "list_all (wire_line MAX_PACKET_LEN) (delivered_lines [d])"
    using delivered_bytes [of hash send m i dc st now] p Cons.prems(2,3) by (auto simp: a split: disposition.split)
  moreover have "list_all (wire_line MAX_PACKET_LEN) (delivered_lines es)"
    using Cons.IH [OF q] process_constant [OF p] Cons.prems(2,3) by (simp add: a)
  ultimately show ?case by (simp add: ds)
qed simp

lemma process_all_content:
  "process_all hash send m is dc st = (ds, dc', st') \<Longrightarrow> valid_station (ss_server_id st) \<Longrightarrow>
     list_all (\<lambda>(i, _). valid_utf8 (in_line i) \<and> valid_station (in_login i)) is \<Longrightarrow>
     line \<in> set (delivered_lines ds) \<Longrightarrow>
     \<exists>i \<in> fst ` set is. \<exists>p q. in_verified i \<and> packet_parse (in_line i) = Inr p \<and> packet_parse line = Inr q \<and>
       p_source q = p_source p \<and> p_destination q = p_destination p \<and> p_payload q = p_payload p"
proof (induction "is" arbitrary: dc st ds)
  case (Cons a "is")
  obtain i now where a: "a = (i, now)" by (cases a)
  obtain d dc1 st1 where p: "process hash send m i dc st now = (d, dc1, st1)" by (metis prod_cases3)
  obtain es where q: "process_all hash send m is dc1 st1 = (es, dc', st')" and ds: "ds = d # es"
    using Cons.prems(1) by (auto simp: a p split: prod.splits)
  consider code where "d = Delivered line code" | "line \<in> set (delivered_lines es)"
    using Cons.prems(4) by (auto simp: ds split: disposition.splits)
  then show ?case
  proof cases
    case 1
    have v: "valid_utf8 (in_line i)" "valid_station (ss_server_id st)" "valid_station (in_login i)"
      using Cons.prems(2,3) by (simp_all add: a)
    have "process hash send m i dc st now = (Delivered line code, dc1, st1)" using p 1 by simp
    then obtain pk q where "in_verified i" "packet_parse (in_line i) = Inr pk"
      "packet_parse line = Inr q" "p_source q = p_source pk" "p_destination q = p_destination pk"
      "p_payload q = p_payload pk" by (rule delivered_packet [OF _ v]) blast
    then show ?thesis by (auto simp: a)
  next
    case 2
    with Cons.IH [OF q] process_constant [OF p] Cons.prems(2,3) show ?thesis by (simp add: a)
  qed
qed simp

lemma packet_lines_texts: "line \<in> set (List.map_filter packet_line (map Text ls)) \<Longrightarrow> line \<in> set ls"
  by (auto simp: List.map_filter_def packet_line_def split: if_splits)

text \<open>C7: a packet crosses the server from bytes to bytes. A peer's bytes, a login line and further lines cut up anywhere
  but never silent past the timeouts, are served from the handshake to the disconnection; whatever the dispatcher
  then makes of the packets among the lines, a client on a full-feed port is queued exactly what was delivered, and
  whichever way its writer groups the queue and the network cuts the bytes, it reads exactly those lines, in the order they were
  sent, each of them with the source, the destination and the payload of a packet of the peer, who proved its callsign.\<close>

theorem packets_cross_server:
  fixes st :: "'o server_state"
  assumes "concat (map snd chunks) = wire (text # ls)"
    and "list_all (wire_line MAX_PACKET_LEN) (text # ls)"
    and "login_parse text = Inr login" and "\<not> login_skipped (Text text)"
    and "arrivals = framed (with_max_length MAX_PACKET_LEN) [] 0 chunks closing"
    and "list_all (\<lambda>a. waited a \<le> LOGIN_TIMEOUT \<and>
           waited a \<le> as_secs (lm_client_timeout (cf_limits (ss_config st)))) arrivals"
    and "admits st l" and "reg_inv (ss_registry st, n)" and "n < 2 ^ 64" and "valid_station (ss_server_id st)"
    and "serve channel submit version (True, True) l peer t row arrivals (map ReadInput (snd (read_login arrivals)))
           ending (q0, st) = (sent, q1, st1)"
    and "buffer submit queue cap live" and "live q0" and "queue q0 = []" and "length ls \<le> cap"
    and "fifo take_next queue" and "length nows = length (List.map_filter packet_line (map Text ls))"
    and "dispatch_loop hash send m take_next nows q1 dc st1 = (q2, dc2, st2)"
    and "reg_get (ss_registry st) j = Some b" and "cl_id b = j" and "cl_port_kind b = FullFeed"
    and "buffer send outbox capacity present" and "present (cl_outbox b)" and "outbox (cl_outbox b) = []" and "length ls \<le> capacity"
    and "sink put flush close taken arrived broken" and "\<not> broken w" and "arrived w = []" and "taken w = []"
  shows "\<exists>(c :: 'o client) b' ds. cl_callsign c = cs_raw (lr_callsign login) \<and> cl_verified c = may_transmit (login_verify login) \<and>
    process_all hash send m (zip (map (submission l c) (List.map_filter packet_line (map Text ls))) nows) dc st1 =
      (ds, dc2, st2) \<and>
    queue q2 = [] \<and> reg_get (ss_registry st2) j = Some b' \<and>
    outbox (cl_outbox b') = delivered_lines ds \<and>
    (\<forall>es w' chunks'. feed_lines version (ss_server_id st2) triggered es = outbox (cl_outbox b') \<and>
       w' = write_feed put flush close version (ss_server_id st2) triggered es w \<and> \<not> broken w' \<and>
       concat chunks' = arrived w' \<longrightarrow>
       Codec.feed (with_max_length MAX_PACKET_LEN) [] chunks' = map Text (delivered_lines ds)) \<and>
    (\<forall>line \<in> set (delivered_lines ds). login_verify login = Verified \<and>
       (\<exists>sent \<in> set ls. \<exists>p q. packet_parse sent = Inr p \<and> packet_parse line = Inr q \<and>
          p_source q = p_source p \<and> p_destination q = p_destination p \<and> p_payload q = p_payload p))"
proof -
  let ?T = "as_secs (lm_client_timeout (cf_limits (ss_config st)))"
  let ?packets = "List.map_filter packet_line (map Text ls)"
  obtain rest where rest: "read_login arrivals = (Some login, rest)" "received ?T (map ReadInput rest) = map Text ls"
    using session_arrivals [OF assms(1-4)] assms(6) unfolding assms(5) by blast
  obtain c sta where c: "log_in channel login peer l t row st = (c, sta)" by (metis surj_pair)
  have b0: "full_feed j st b" using assms(19-21) by (simp add: full_feed_def)
  note k = log_in_constant [OF c] other_client_kept [OF assms(8,9) b0 c] log_in_client [OF c]
  let ?is = "map (submission l c) ?packets"
  have len: "length ?packets \<le> length ls" by (simp add: List.map_filter_def)
  obtain q' where q': "offered submit ?is q0 = (q', 0)" "live q'" "queue q' = ?is"
    using buffer_offered [OF assms(12,13), of ?is] assms(14,15) len by auto
  obtain stb where r: "read_submissions submit l c (map ReadInput rest) (q0, sta) = (q', stb)"
    and stb: "stb = (on_client sta (cl_id c) (fold (line_update l) (map Text ls)))
      \<lparr>ss_metrics := metrics_after (map Text ls) 0 (ss_metrics sta)\<rparr>"
    by (simp add: read_submissions_eq k(1) rest(2) q'(1) Let_def)
  have s: "q1 = q'" "st1 = snd (disconnect c ending stb)"
    using assms(11) by (simp_all add: serve_def assms(7) rest(1) c r Let_def)
  have "full_feed j stb b"
    using full_feed_on_client [of c j sta b] k(3) by (simp add: stb full_feed_def)
  then have b1: "full_feed j st1 b" unfolding s(2) using k(3) by (intro full_feed_disconnect) simp_all
  have sid: "ss_server_id st1 = ss_server_id st"
    by (simp add: s(2) stb disconnect_def with_metrics_def on_client_def k(2) split: prod.split)
  have "length nows = length (queue q1)" using assms(17) by (simp add: s(1) q'(3))
  from dispatch_loop_all [OF assms(16) this assms(18)] obtain ds where
    d: "queue q2 = []" "process_all hash send m (zip ?is nows) dc st1 = (ds, dc2, st2)"
    by (auto simp: s(1) q'(3))
  have in_zip: "\<exists>line \<in> set ls. i = submission l c line" if "(i, now) \<in> set (zip ?is nows)" for i now
    using set_zip_leftD [OF that] packet_lines_texts [of _ ls] by auto
  have ok: "list_all (\<lambda>(i, _). valid_utf8 (in_line i) \<and> valid_station (in_login i)) (zip ?is nows)"
    using assms(2) login_station [OF assms(3)] k(4)
    by (auto simp: list_all_iff wire_line_def submission_def dest!: in_zip)
  have other: "list_all (\<lambda>(i, _). in_origin i \<noteq> Some j) (zip ?is nows)"
    using k(3) by (auto simp: list_all_iff submission_def dest!: in_zip)
  have "length (outbox (cl_outbox b)) + length (zip ?is nows) \<le> capacity"
    using assms(17,24,25) len by simp
  from process_all_full_feed [OF d(2) b1 other assms(22,23) this] obtain b' where
    b': "full_feed j st2 b'" "outbox (cl_outbox b') = delivered_lines ds" using assms(24) by auto
  have wire: "list_all (wire_line MAX_PACKET_LEN) (delivered_lines ds)"
    using process_all_wire [OF d(2) _ ok] assms(10) by (simp add: sid)
  have sends: "Codec.feed (with_max_length MAX_PACKET_LEN) [] chunks' = map Text (delivered_lines ds)"
    if f: "feed_lines version (ss_server_id st2) triggered es = delivered_lines ds"
      "w' = write_feed put flush close version (ss_server_id st2) triggered es w" "\<not> broken w'"
      "concat chunks' = arrived w'" for es w' chunks'
    using feed_prefix_arrives(2) [OF assms(26-29) f(2,3)] stream_lines_written [OF wire]
    by (simp add: feed_stream f(1,4))
  have content: "login_verify login = Verified \<and>
      (\<exists>sent \<in> set ls. \<exists>p q. packet_parse sent = Inr p \<and> packet_parse line = Inr q \<and>
        p_source q = p_source p \<and> p_destination q = p_destination p \<and> p_payload q = p_payload p)"
    if "line \<in> set (delivered_lines ds)" for line
  proof -
    from process_all_content [OF d(2) _ ok that] assms(10) obtain i p q where
      i: "i \<in> fst ` set (zip ?is nows)" "in_verified i" and
      pq: "packet_parse (in_line i) = Inr p" "packet_parse line = Inr q" "p_source q = p_source p"
        "p_destination q = p_destination p" "p_payload q = p_payload p"
      by (auto simp: sid)
    obtain snt where "snt \<in> set ls" "i = submission l c snt" using i(1) by (auto dest!: in_zip)
    with i(2) pq k(4) show ?thesis by (auto simp: submission_def may_transmit_def)
  qed
  have "\<forall>es w' chunks'. feed_lines version (ss_server_id st2) triggered es = delivered_lines ds \<and>
      w' = write_feed put flush close version (ss_server_id st2) triggered es w \<and> \<not> broken w' \<and>
      concat chunks' = arrived w' \<longrightarrow>
      Codec.feed (with_max_length MAX_PACKET_LEN) [] chunks' = map Text (delivered_lines ds)"
    using sends by blast
  then show ?thesis
    by - (rule exI [of _ c], rule exI [of _ b'], rule exI [of _ ds],
        use d b' content k(4) in \<open>auto simp: full_feed_def\<close>)
qed


subsection \<open>Witnesses\<close>

lemma serve_server_id:
  assumes "serve channel submit version wrote l peer t row as is ending (q, st) = (sent, q', st')"
  shows "ss_server_id st' = ss_server_id st"
  using assms log_in_constant(2) [of channel _ peer l t row st]
  by (auto simp: serve_def Let_def with_metrics_def read_submissions_eq disconnect_def on_client_def
      split: if_splits prod.splits option.splits)

definition full_feed_state :: "str list server_state" where
  "full_feed_state = sample_state
     \<lparr>ss_registry := snd (reg_insert registry_new (sample_registration FullFeed [] True))\<rparr>"

definition sample_bytes :: "(nat \<times> str) list" where
  "sample_bytes =
     [(2, ''user N0CALL pa''), (3, ''ss 13023'' @ [CHR 0x0D, newline] @ ''N0CALL>APRS,TC''),
      (1, ''PIP*:>status'' @ [CHR 0x0D]), (1, [newline])]"

abbreviation sample_line :: str where
  "sample_line \<equiv> ''N0CALL>APRS,TCPIP*:>status''"

lemma sample_packet_lines: "List.map_filter packet_line (map Text [sample_line]) = [sample_line]"
proof -
  have "trim sample_line = sample_line" by (rule trim_id) (simp_all add: is_ascii_def is_whitespace_def)
  then show ?thesis by (simp add: List.map_filter_def packet_line_def starts_with_def strip_prefix_char_def)
qed

lemma sample_arrivals:
  "concat (map snd sample_bytes) = wire [''user N0CALL pass 13023'', sample_line]"
  "list_all (wire_line MAX_PACKET_LEN) [''user N0CALL pass 13023'', sample_line]"
  "\<not> login_skipped (Text ''user N0CALL pass 13023'')"
  "list_all (\<lambda>a. waited a \<le> LOGIN_TIMEOUT \<and>
     waited a \<le> as_secs (lm_client_timeout (cf_limits (ss_config full_feed_state))))
     (framed (with_max_length MAX_PACKET_LEN) [] 0 sample_bytes 4)"
proof -
  show "concat (map snd sample_bytes) = wire [''user N0CALL pass 13023'', sample_line]"
    by (simp add: sample_bytes_def crlf_def)
  show "list_all (wire_line MAX_PACKET_LEN) [''user N0CALL pass 13023'', sample_line]"
    by (simp add: wire_line_def newline_def valid_utf8_ascii is_ascii_def MAX_PACKET_LEN_def)
  have "trim ''user N0CALL pass 13023'' = ''user N0CALL pass 13023''"
    by (rule trim_id) (simp_all add: is_ascii_def is_whitespace_def)
  then show "\<not> login_skipped (Text ''user N0CALL pass 13023'')"
    by (simp add: login_skipped_def starts_with_def strip_prefix_char_def)
  have "list_all (\<lambda>a. waited a \<le> 11) (framed (with_max_length MAX_PACKET_LEN) [] 0 sample_bytes 4)"
    using framed_waits [of 0 sample_bytes 4 "with_max_length MAX_PACKET_LEN" "[]"] by (simp add: sample_bytes_def)
  moreover have "11 \<le> as_secs (lm_client_timeout (cf_limits (ss_config full_feed_state)))"
    by (simp add: full_feed_state_def server_state_new_def sample_config_def default_limits_def
        default_client_timeout_def from_secs_def as_secs_def)
  ultimately show "list_all (\<lambda>a. waited a \<le> LOGIN_TIMEOUT \<and>
     waited a \<le> as_secs (lm_client_timeout (cf_limits (ss_config full_feed_state))))
     (framed (with_max_length MAX_PACKET_LEN) [] 0 sample_bytes 4)"
    by (auto simp: list_all_iff LOGIN_TIMEOUT_def)
qed

lemma sample_buffers:
  "buffer (list_submit cap) (\<lambda>q. q) cap (\<lambda>_. True)" "buffer (bounded_send cap) (\<lambda>q. q) cap (\<lambda>_. True)"
  "fifo (\<lambda>q. case q of [] \<Rightarrow> None | i # is \<Rightarrow> Some (i, is)) (\<lambda>q. q)"
  by (simp_all add: buffer_def list_submit_def bounded_send_def fifo_def split: list.split)

lemma full_feed_state_facts:
  "ss_server_id full_feed_state = ''T2TEST''" "reg_inv (ss_registry full_feed_state, 1)"
  "admits full_feed_state sample_context"
  "\<exists>b. reg_get (ss_registry full_feed_state) 0 = Some b \<and> cl_id b = 0 \<and> cl_port_kind b = FullFeed \<and> cl_outbox b = []"
  by (simp_all add: full_feed_state_def server_state_new_def sample_config_def reg_inv_def reg_insert_def registry_new_def reg_get_def
      sample_registration_def admits_def sample_context_def context_of_listener_def sample_listener_def Let_def)

theorem packets_cross_server_witness:
  "\<exists>sent q1 st1 q2 dc2 st2 b.
     serve (\<lambda>_. []) (list_submit 4) ''1'' (True, True) sample_context sample_addr 0 None
       (framed (with_max_length MAX_PACKET_LEN) [] 0 sample_bytes 4)
       (map ReadInput (snd (read_login (framed (with_max_length MAX_PACKET_LEN) [] 0 sample_bytes 4))))
       9 ([], full_feed_state) = (sent, q1, st1) \<and>
     dispatch_loop sample_hash (bounded_send 4) sample_libm (\<lambda>q. case q of [] \<Rightarrow> None | i # is \<Rightarrow> Some (i, is)) [5]
       q1 (with_window 30) st1 = (q2, dc2, st2) \<and>
     reg_get (ss_registry st2) 0 = Some b \<and> cl_outbox b = [tagged_line] \<and>
     Codec.feed (with_max_length MAX_PACKET_LEN) [] [tagged_line, [CHR 0x0D], [newline]] = [Text tagged_line]"
proof -
  let ?as = "framed (with_max_length MAX_PACKET_LEN) [] 0 sample_bytes 4"
  let ?take = "\<lambda>q. case q of [] \<Rightarrow> None | i # is \<Rightarrow> Some (i, is)"
  obtain sent q1 st1 where sv: "serve (\<lambda>_. []) (list_submit 4) ''1'' (True, True) sample_context sample_addr 0 None
      ?as (map ReadInput (snd (read_login ?as))) 9 ([], full_feed_state) = (sent, q1, st1)" by (metis prod_cases3)
  obtain q2 dc2 st2 where dl: "dispatch_loop sample_hash (bounded_send 4) sample_libm ?take [5] q1 (with_window 30) st1 =
      (q2, dc2, st2)" by (metis prod_cases3)
  obtain b where b: "reg_get (ss_registry full_feed_state) 0 = Some b" "cl_id b = 0" "cl_port_kind b = FullFeed"
    "cl_outbox b = []" using full_feed_state_facts(4) by blast
  have vs: "valid_station (ss_server_id full_feed_state)"
    using sample_stations(2) unfolding full_feed_state_facts(1) sample_state_id .
  have cs: "cs_raw (lr_callsign sample_n0call) = ''N0CALL''" by (simp add: sample_n0call_def)
  have n: "(1 :: nat) < 2 ^ 64" "length [sample_line] \<le> 4"
    "length [5 :: nat] = length (List.map_filter packet_line (map Text [sample_line]))"
    unfolding sample_packet_lines by simp_all
  have fresh: "\<not> snd (snd ([] :: str, 99 :: nat, False))" "fst ([] :: str, 99 :: nat, False) = []" by simp_all
  from packets_cross_server [OF sample_arrivals(1,2) sample_n0call_parsed sample_arrivals(3) refl sample_arrivals(4)
      full_feed_state_facts(3,2) n(1) vs sv sample_buffers(1) TrueI refl n(2) sample_buffers(3) n(3) dl b(1-3)
      sample_buffers(2) TrueI b(4) n(2), where triggered = False and w = "([], 99, False)", OF limited_sink fresh(1) fresh(2) fresh(2)]
  obtain c :: "str list client" and b' ds where r: "cl_callsign c = ''N0CALL''" "cl_verified c = may_transmit (login_verify sample_n0call)"
    "process_all sample_hash (bounded_send 4) sample_libm (zip (map (submission sample_context c) [sample_line]) [5])
       (with_window 30) st1 = (ds, dc2, st2)"
    "reg_get (ss_registry st2) 0 = Some b'" "cl_outbox b' = delivered_lines ds"
    "\<forall>es w' chunks'. feed_lines ''1'' (ss_server_id st2) False es = cl_outbox b' \<and>
       w' = write_feed limited_put limited_flush id ''1'' (ss_server_id st2) False es ([], 99, False) \<and>
       \<not> snd (snd w') \<and> concat chunks' = fst w' \<longrightarrow>
       Codec.feed (with_max_length MAX_PACKET_LEN) [] chunks' = map Text (delivered_lines ds)"
    unfolding sample_packet_lines cs by blast
  have "login_verify sample_n0call = Verified" by code_simp
  with r(1,2) have "submission sample_context c sample_line = sample_ingest\<lparr>in_origin := Some (cl_id c)\<rparr>"
    by (simp add: submission_def sample_ingest_def may_transmit_def sample_context_def context_of_listener_def
        sample_listener_def is_send_only_def)
  moreover have "ss_server_id st1 = ''T2TEST''"
    using serve_server_id [OF sv] by (simp add: full_feed_state_facts(1))
  ultimately have "delivered_lines ds = [tagged_line]"
    using r(3) sample_delivered_in [of st1 "bounded_send 4" sample_libm "Some (cl_id c)"] by auto
  moreover have "Codec.feed (with_max_length MAX_PACKET_LEN) [] [tagged_line, [CHR 0x0D], [newline]] = [Text tagged_line]"
  proof -
    let ?w = "write_feed limited_put limited_flush id ''1'' (ss_server_id st2) False [Feed tagged_line []] ([], 99, False)"
    have "feed_lines ''1'' (ss_server_id st2) False [Feed tagged_line []] = [tagged_line]"
      by (simp add: feed_lines_def)
    moreover have "fst ?w = tagged_line @ [CHR 0x0D, newline]" "\<not> snd (snd ?w)"
      by (simp_all add: write_feed_def write_line_def write_line_buffered_def and_ok_def limited_flush_def tagged_line_def)
    ultimately show ?thesis
      using r(6) [rule_format, of "[Feed tagged_line []]" ?w "[tagged_line, [CHR 0x0D], [newline]]"] r(5)
        \<open>delivered_lines ds = [tagged_line]\<close>
      by (simp del: Codec.feed.simps)
  qed
  ultimately show ?thesis using sv dl r(4,5) by auto
qed

end
