(* ===== verification/Runtime.thy ===== *)
theory Runtime
  imports Shutdown Client_Feed
begin

section \<open>Around the server: signals, the shutdown flag, the maintenance loop\<close>

text \<open>
  How a signal of the operating system ends the program: \<open>watch_for_signals\<close> (\<open>aprsr/src/commands.rs\<close>) raises a flag,
  \<open>wait_for_shutdown\<close> resolves on it for the server, the maintenance task and the web server, \<open>Server::run\<close>
  (\<open>aprsr-server/src/lib.rs\<close>) raises a second flag, and \<open>Shutdown::wait\<close> resolves on that one in every accept loop and every
  connection. Both flags are \<open>watch\<close> channels of tokio; \<open>watch_laws\<close> is what its documentation promises of them.
\<close>

subsection \<open>The flag\<close>

datatype watch_event = Sent bool | SenderDropped

text \<open>
  A receiver: \<open>borrow\<close> reads the value; \<open>changed\<close> is \<open>None\<close> while there is nothing new, \<open>Some (True, r)\<close> when a value came that
  had not been seen, \<open>Some (False, r)\<close> when the sender is gone; \<open>after\<close> is the receiver after something happened at the other end.
  \<open>unseen\<close> and \<open>gone\<close> tell its state apart.
\<close>

definition watch_laws ::
  "('r \<Rightarrow> bool) \<Rightarrow> ('r \<Rightarrow> (bool \<times> 'r) option) \<Rightarrow> (watch_event \<Rightarrow> 'r \<Rightarrow> 'r) \<Rightarrow> ('r \<Rightarrow> bool) \<Rightarrow> ('r \<Rightarrow> bool) \<Rightarrow> bool" where
  "watch_laws borrow changed after unseen gone \<longleftrightarrow>
     (\<forall>r. case changed r of
        None \<Rightarrow> \<not> unseen r \<and> \<not> gone r
      | Some (new, r') \<Rightarrow>
          new = unseen r \<and> (new \<or> gone r) \<and> borrow r' = borrow r \<and> gone r' = gone r \<and> \<not> unseen r') \<and>
     (\<forall>r b. borrow (after (Sent b) r) = b \<and> unseen (after (Sent b) r) \<and> gone (after (Sent b) r) = gone r) \<and>
     (\<forall>r. borrow (after SenderDropped r) = borrow r \<and> unseen (after SenderDropped r) = unseen r \<and>
        gone (after SenderDropped r))"

text \<open>The loop of \<open>wait\<close> and \<open>wait_for_shutdown\<close> up to the point where it has to wait: whether it has returned.\<close>

partial_function (option) wait_poll :: "('r \<Rightarrow> bool) \<Rightarrow> ('r \<Rightarrow> (bool \<times> 'r) option) \<Rightarrow> 'r \<Rightarrow> (bool \<times> 'r) option" where
  "wait_poll borrow changed r =
     (if borrow r then Some (True, r)
      else case changed r of
        None \<Rightarrow> Some (False, r)
      | Some (ok, r') \<Rightarrow> if \<not> ok then Some (True, r') else wait_poll borrow changed r')"

text \<open>The future over what happens at the other end: what is left of it when it has resolved.\<close>

fun shutdown_wait ::
  "('r \<Rightarrow> bool) \<Rightarrow> ('r \<Rightarrow> (bool \<times> 'r) option) \<Rightarrow> (watch_event \<Rightarrow> 'r \<Rightarrow> 'r) \<Rightarrow> watch_event list \<Rightarrow> 'r \<Rightarrow>
     (watch_event list \<times> 'r) option" where
  "shutdown_wait borrow changed after es r =
     (case wait_poll borrow changed r of
        None \<Rightarrow> None
      | Some (ready, r') \<Rightarrow>
          if ready then Some (es, r')
          else (case es of [] \<Rightarrow> None | e # es' \<Rightarrow> shutdown_wait borrow changed after es' (after e r')))"

declare shutdown_wait.simps [simp del]

definition is_triggered :: "('r \<Rightarrow> bool) \<Rightarrow> 'r \<Rightarrow> bool" where
  "is_triggered borrow r = borrow r"

lemma wait_poll_returns:
  assumes "watch_laws borrow changed after unseen gone"
  shows "\<exists>r'. wait_poll borrow changed r = Some (borrow r \<or> gone r, r') \<and> borrow r' = borrow r \<and> gone r' = gone r"
proof -
  have c: "case changed r of
        None \<Rightarrow> \<not> unseen r \<and> \<not> gone r
      | Some (new, r') \<Rightarrow>
          new = unseen r \<and> (new \<or> gone r) \<and> borrow r' = borrow r \<and> gone r' = gone r \<and> \<not> unseen r'" for r
    using assms unfolding watch_laws_def by blast
  have seen: "\<exists>r'. wait_poll borrow changed r = Some (borrow r \<or> gone r, r') \<and> borrow r' = borrow r \<and> gone r' = gone r"
    if "\<not> unseen r" for r
    using c [of r] that by (subst (1) wait_poll.simps) (auto split: option.splits)
  show ?thesis
  proof (cases "unseen r \<and> \<not> borrow r")
    case True
    then obtain r' where r': "changed r = Some (True, r')" "borrow r' = borrow r" "gone r' = gone r" "\<not> unseen r'"
      using c [of r] by (auto split: option.splits)
    have "wait_poll borrow changed r = wait_poll borrow changed r'"
      using True r'(1) by (subst wait_poll.simps) simp
    with seen [OF r'(4)] r'(2,3) show ?thesis by simp
  next
    case False
    show ?thesis
    proof (cases "borrow r")
      case True
      then show ?thesis by (subst (1) wait_poll.simps) simp
    qed (use False seen in blast)
  qed
qed

definition stops :: "watch_event \<Rightarrow> bool" where
  "stops e \<longleftrightarrow> e = Sent True \<or> e = SenderDropped"

lemma watch_after:
  assumes "watch_laws borrow changed after unseen gone"
  shows "borrow (after (Sent b) r) = b" "gone (after (Sent b) r) = gone r"
    "borrow (after SenderDropped r) = borrow r" "gone (after SenderDropped r)"
  using assms unfolding watch_laws_def by blast+

text \<open>The future resolves at the first moment the flag is up or its sender is gone, and not before.\<close>

lemma shutdown_wait_eq:
  assumes laws: "watch_laws borrow changed after unseen gone"
  shows "\<not> borrow r \<Longrightarrow> \<not> gone r \<Longrightarrow>
    (case shutdown_wait borrow changed after es r of
       None \<Rightarrow> \<not> list_ex stops es
     | Some (rest, r') \<Rightarrow> \<exists>pre e. es = pre @ e # rest \<and> \<not> list_ex stops pre \<and> stops e \<and>
         borrow r' = (e = Sent True) \<and> gone r' = (e = SenderDropped))"
proof (induction es arbitrary: r)
  case Nil
  obtain r' where "wait_poll borrow changed r = Some (False, r')"
    using wait_poll_returns [OF laws, of r] Nil by auto
  then show ?case by (simp add: shutdown_wait.simps)
next
  case (Cons e es)
  obtain r' where r': "wait_poll borrow changed r = Some (False, r')" "\<not> borrow r'" "\<not> gone r'"
    using wait_poll_returns [OF laws, of r] Cons.prems by auto
  note a = watch_after [OF laws]
  show ?case
  proof (cases "stops e")
    case True
    then have "borrow (after e r') = (e = Sent True)" "gone (after e r') = (e = SenderDropped)"
      "borrow (after e r') \<or> gone (after e r')"
      using a r'(2,3) by (auto simp: stops_def)
    moreover obtain r2 where "wait_poll borrow changed (after e r') = Some (True, r2)"
      "borrow r2 = borrow (after e r')" "gone r2 = gone (after e r')"
      using wait_poll_returns [OF laws, of "after e r'"] calculation(3) by auto
    ultimately have "shutdown_wait borrow changed after (e # es) r = Some (es, r2)"
      "borrow r2 = (e = Sent True)" "gone r2 = (e = SenderDropped)"
      using r'(1) by (simp_all add: shutdown_wait.simps)
    with True show ?thesis by (auto intro!: exI [of _ "[]"])
  next
    case False
    then have "\<not> borrow (after e r')" "\<not> gone (after e r')"
      using a r'(2,3) by (cases e; auto simp: stops_def)+
    note ih = Cons.IH [OF this]
    have "shutdown_wait borrow changed after (e # es) r = shutdown_wait borrow changed after es (after e r')"
      using r'(1) by (subst shutdown_wait.simps) simp
    with ih False show ?thesis
      by (auto split: option.splits intro!: exI [of _ "e # _"])
  qed
qed

lemma shutdown_wait_resolves:
  assumes "watch_laws borrow changed after unseen gone" and "\<not> borrow r" and "\<not> gone r"
  shows "shutdown_wait borrow changed after es r \<noteq> None \<longleftrightarrow> list_ex stops es"
  using shutdown_wait_eq [OF assms, of es] by (auto split: option.splits)

text \<open>Once resolved it stays resolved, as nobody ever lowers the flag.\<close>

lemma shutdown_wait_again:
  assumes laws: "watch_laws borrow changed after unseen gone" and "borrow r \<or> gone r"
    and "list_all (\<lambda>e. e \<noteq> Sent False) es"
  shows "shutdown_wait borrow changed after fut (fold after es r) \<noteq> None"
proof -
  have "borrow (fold after es r) \<or> gone (fold after es r)"
    using assms(2,3)
  proof (induction es arbitrary: r)
    case (Cons e es)
    then have "borrow (after e r) \<or> gone (after e r)" using watch_after [OF laws] by (cases e) auto
    with Cons show ?case by simp
  qed simp
  then show ?thesis
    using wait_poll_returns [OF laws, of "fold after es r"] by (auto simp: shutdown_wait.simps)
qed


subsection \<open>From a signal to every task\<close>

datatype os_event = CtrlC | Term

text \<open>What \<open>watch_for_signals\<close> does to its channel; \<open>sigterm\<close> says whether the handler for SIGTERM could be installed.\<close>

fun watch_for_signals :: "bool \<Rightarrow> os_event list \<Rightarrow> watch_event list" where
  "watch_for_signals sigterm [] = []"
| "watch_for_signals sigterm (e # es) =
     (if sigterm \<or> e = CtrlC then [Sent True, SenderDropped] else watch_for_signals sigterm es)"

text \<open>What \<open>Server::run\<close> does to its channel, given the shutdown future it was started with.\<close>

definition run_flag :: "'a option \<Rightarrow> watch_event list" where
  "run_flag resolved = (case resolved of None \<Rightarrow> [] | Some _ \<Rightarrow> [Sent True])"

lemma watch_for_signals_stops: "list_ex stops (watch_for_signals sigterm os) \<longleftrightarrow> os \<noteq> [] \<and> (sigterm \<or> CtrlC \<in> set os)"
  by (induction os) (auto simp: stops_def)


subsection \<open>The maintenance loop\<close>

datatype 'o maintenance = TickDue "'o server_state" nat | ShutdownDue

text \<open>The state is the shared one as it is when the timer fires; when the list ends the task has been aborted.\<close>

fun maintain ::
  "('db, station_row, 'e) table \<Rightarrow> ('db, counter_row, 'e) table \<Rightarrow> 'o maintenance list \<Rightarrow> 'db \<Rightarrow> 'db" where
  "maintain stations counters [] db = db"
| "maintain stations counters (TickDue st now # es) db =
     maintain stations counters es (maintain_tick stations counters st now db)"
| "maintain stations counters (ShutdownDue # es) db = db"

definition MAINTENANCE_INTERVAL :: nat where "MAINTENANCE_INTERVAL = 60"

lemma maintain_ticks:
  "maintain stations counters (map (\<lambda>(st, now). TickDue st now) ts @ ShutdownDue # es) db = ticks stations counters ts db"
  by (induction ts arbitrary: db) (auto simp: ticks_def)

text \<open>The clock: seconds since the epoch, 0 before it.\<close>

definition now_secs :: "int \<Rightarrow> nat" where
  "now_secs nanos = (if nanos < 0 then 0 else nat (nanos div 10 ^ 9))"

subsection \<open>Witnesses\<close>

text \<open>A receiver as three bits: the value, whether it is unseen, whether the sender is gone.\<close>

fun flag_changed :: "bool \<times> bool \<times> bool \<Rightarrow> (bool \<times> bool \<times> bool \<times> bool) option" where
  "flag_changed (v, u, g) = (if u then Some (True, v, False, g) else if g then Some (False, v, u, g) else None)"

fun flag_after :: "watch_event \<Rightarrow> bool \<times> bool \<times> bool \<Rightarrow> bool \<times> bool \<times> bool" where
  "flag_after (Sent b) (v, u, g) = (b, True, g)"
| "flag_after SenderDropped (v, u, g) = (v, u, True)"

lemma flag_laws: "watch_laws fst flag_changed flag_after (\<lambda>r. fst (snd r)) (\<lambda>r. snd (snd r))"
  by (simp add: watch_laws_def)


end
