(* ===== verification/Overlapping_Saves.thy ===== *)
theory Overlapping_Saves
  imports Persistence
begin

section \<open>Two saves at the same time (\<open>Store::save_positions\<close>, from \<open>maintain\<close> and \<open>Server::run\<close>)\<close>

text \<open>
  The maintenance task is still running when \<open>Server::run\<close> saves the positions for the last time, and is aborted only after that.
  Each save works through a snapshot of the cache with two statements for each station, a lookup and an insert or an
  update, and no transaction, so a maintenance save that had begun before overlaps with the last one, statement by
  statement. \<open>save_stmt\<close> is one statement of a save and \<open>interleaved\<close> runs two of them under any schedule; \<open>save_loop_statements\<close> shows that alone
  such a save is \<open>save_positions\<close>.

  \<open>overlapping_saves\<close> says what the table is worth after any overlap, \<open>stale_save_wins\<close> that it may be left with an old
  position, and \<open>collision_ends_save\<close> that a station both of them insert ends one of the two saves.
\<close>

definition row_with :: "position_entry \<Rightarrow> station_row \<Rightarrow> station_row" where
  "row_with entry model =
     model\<lparr>sr_latitude := ps_latitude (pe_position entry), sr_longitude := ps_longitude (pe_position entry),
       sr_symbol_table := map_option (char_to_string \<circ> sy_table) (pe_symbol entry),
       sr_symbol_code := map_option (char_to_string \<circ> sy_code) (pe_symbol entry),
       sr_heard_at := pe_heard_at entry\<rparr>"

definition new_row :: "position_entry \<Rightarrow> station_row" where
  "new_row entry =
     \<lparr>sr_id = 0, sr_callsign = pe_callsign entry, sr_latitude = ps_latitude (pe_position entry),
      sr_longitude = ps_longitude (pe_position entry),
      sr_symbol_table = map_option (char_to_string \<circ> sy_table) (pe_symbol entry),
      sr_symbol_code = map_option (char_to_string \<circ> sy_code) (pe_symbol entry),
      sr_heard_at = pe_heard_at entry\<rparr>"

text \<open>The second statement, given the rows the lookup found.\<close>

definition save_write ::
  "('db, station_row, 'e) table \<Rightarrow> station_row list \<Rightarrow> position_entry \<Rightarrow> 'db \<Rightarrow> bool \<times> 'db" where
  "save_write stations existing entry db =
     (case existing of
        model # _ \<Rightarrow> map_prod is_ok id (tb_update stations db (row_with entry model))
      | [] \<Rightarrow> map_prod is_ok id (tb_insert stations db (new_row entry)))"

datatype save_state =
    Looking "position_entry list"
  | Found "station_row list" position_entry "position_entry list"
  | SaveFailed

fun save_stmt ::
  "('db, station_row, 'e) table \<Rightarrow> save_state \<times> 'db \<Rightarrow> save_state \<times> 'db" where
  "save_stmt stations (Looking [], db) = (Looking [], db)"
| "save_stmt stations (Looking (entry # entries), db) =
     (case tb_select stations db (\<lambda>r. sr_callsign r = pe_callsign entry) (\<lambda>_. 0) (Some 1) of
        Inl _ \<Rightarrow> (SaveFailed, db)
      | Inr existing \<Rightarrow> (Found existing entry entries, db))"
| "save_stmt stations (Found existing entry entries, db) =
     (case save_write stations existing entry db of
        (False, db) \<Rightarrow> (SaveFailed, db)
      | (True, db) \<Rightarrow> (Looking entries, db))"
| "save_stmt stations (SaveFailed, db) = (SaveFailed, db)"

text \<open>\<open>True\<close> in the schedule is a statement of the first save.\<close>

fun interleaved ::
  "('db, station_row, 'e) table \<Rightarrow> bool list \<Rightarrow> save_state \<times> save_state \<times> 'db \<Rightarrow> save_state \<times> save_state \<times> 'db" where
  "interleaved stations [] x = x"
| "interleaved stations (first # schedule) (a, b, db) =
     (if first then (case save_stmt stations (a, db) of (a, db) \<Rightarrow> interleaved stations schedule (a, b, db))
      else (case save_stmt stations (b, db) of (b, db) \<Rightarrow> interleaved stations schedule (a, b, db)))"

subsection \<open>Alone, it is the save of the store\<close>

lemma save_entry_statements:
  "save_entry stations db entry =
     (case tb_select stations db (\<lambda>r. sr_callsign r = pe_callsign entry) (\<lambda>_. 0) (Some 1) of
        Inl e \<Rightarrow> (Inl (Database e), db)
      | Inr existing \<Rightarrow>
          (case existing of
             model # _ \<Rightarrow> map_prod (map_err Database) id (tb_update stations db (row_with entry model))
           | [] \<Rightarrow> map_prod (map_err Database \<circ> map_sum id (\<lambda>_. ())) id
               (tb_insert stations db (new_row entry))))"
  by (cases "pe_symbol entry")
     (auto simp: save_entry_def row_with_def new_row_def split: sum.split list.split prod.split)

lemma save_entry_step:
  "save_entry stations db entry = (x, db') \<Longrightarrow>
     \<exists>k. (save_stmt stations ^^ k) (Looking (entry # entries), db) =
       (case x of Inl _ \<Rightarrow> SaveFailed | Inr _ \<Rightarrow> Looking entries, db')"
proof -
  assume s: "save_entry stations db entry = (x, db')"
  show ?thesis
  proof (cases "tb_select stations db (\<lambda>r. sr_callsign r = pe_callsign entry) (\<lambda>_. 0) (Some 1)")
    case (Inl e)
    with s show ?thesis by (intro exI [of _ 1]) (auto simp: save_entry_statements)
  next
    case (Inr existing)
    have "save_write stations existing entry db = (is_ok x, db')"
    proof (cases existing)
      case Nil
      obtain y d where y: "tb_insert stations db (new_row entry) = (y, d)" by fastforce
      with s Inr Nil show ?thesis by (cases y) (auto simp: save_entry_statements save_write_def)
    next
      case (Cons model more_rows)
      obtain y d where y: "tb_update stations db (row_with entry model) = (y, d)" by fastforce
      with s Inr Cons show ?thesis by (cases y) (auto simp: save_entry_statements save_write_def)
    qed
    then have "save_stmt stations (save_stmt stations (Looking (entry # entries), db)) =
        (case x of Inl _ \<Rightarrow> SaveFailed | Inr _ \<Rightarrow> Looking entries, db')"
      using Inr by (cases x) simp_all
    then show ?thesis by (intro exI [of _ 2]) (simp add: numeral_2_eq_2)
  qed
qed

text \<open>With nothing else running, the statements are those of \<open>save_positions\<close>.\<close>

theorem save_loop_statements:
  "save_loop stations entries written db = (x, db') \<Longrightarrow>
     \<exists>k. (save_stmt stations ^^ k) (Looking entries, db) = (case x of Inl _ \<Rightarrow> SaveFailed | Inr _ \<Rightarrow> Looking [], db')"
proof (induction entries arbitrary: written db)
  case Nil
  then show ?case by (intro exI [of _ 0]) auto
next
  case (Cons entry entries)
  obtain y db1 where y: "save_entry stations db entry = (y, db1)" by fastforce
  from save_entry_step [OF this] obtain k where
    k: "(save_stmt stations ^^ k) (Looking (entry # entries), db) =
      (case y of Inl _ \<Rightarrow> SaveFailed | Inr _ \<Rightarrow> Looking entries, db1)" by blast
  show ?case
  proof (cases y)
    case (Inl e)
    with Cons.prems y k show ?thesis by auto
  next
    case (Inr u)
    with Cons.prems y have "save_loop stations entries (written + 1) db1 = (x, db')" by simp
    from Cons.IH [OF this] obtain j where
      j: "(save_stmt stations ^^ j) (Looking entries, db1) = (case x of Inl _ \<Rightarrow> SaveFailed | Inr _ \<Rightarrow> Looking [], db')"
      by blast
    have "(save_stmt stations ^^ (j + k)) (Looking (entry # entries), db) =
        (case x of Inl _ \<Rightarrow> SaveFailed | Inr _ \<Rightarrow> Looking [], db')"
      unfolding funpow_add using k j Inr by simp
    then show ?thesis by blast
  qed
qed

subsection \<open>What an overlap can do\<close>

text \<open>The unique key on the callsign: an insert of a callsign that is there fails.\<close>

definition unique_callsigns ::
  "('db, station_row, 'e) table \<Rightarrow> ('db \<Rightarrow> bool) \<Rightarrow> ('db \<Rightarrow> station_row set) \<Rightarrow> bool" where
  "unique_callsigns stations db_ok contents \<longleftrightarrow>
     (\<forall>db r. db_ok db \<longrightarrow> sr_callsign r \<in> sr_callsign ` contents db \<longrightarrow> \<not> is_ok (fst (tb_insert stations db r)))"

definition table_inv ::
  "('db \<Rightarrow> bool) \<Rightarrow> ('db \<Rightarrow> station_row set) \<Rightarrow> station_row set \<Rightarrow> position_entry set \<Rightarrow> 'db \<Rightarrow> bool" where
  "table_inv db_ok contents before entries db \<longleftrightarrow>
     db_ok db \<and> inj_on sr_callsign (contents db) \<and>
     (\<forall>r \<in> contents db. r \<in> before \<or> (\<exists>e \<in> entries. saved e r)) \<and>
     sr_callsign ` before \<subseteq> sr_callsign ` contents db"

definition save_inv :: "station_row set \<Rightarrow> position_entry set \<Rightarrow> save_state \<Rightarrow> bool" where
  "save_inv rows entries s \<longleftrightarrow>
     (case s of
        Looking es \<Rightarrow> set es \<subseteq> entries
      | Found existing e es \<Rightarrow> e \<in> entries \<and> set es \<subseteq> entries \<and>
          (\<forall>model. existing \<noteq> [] \<and> model = hd existing \<longrightarrow> sr_callsign model = pe_callsign e \<and>
             (\<exists>r \<in> rows. sr_id r = sr_id model \<and> sr_callsign r = sr_callsign model))
      | SaveFailed \<Rightarrow> True)"

text \<open>Ids and callsigns of rows only accumulate.\<close>

definition keeps_rows :: "station_row set \<Rightarrow> station_row set \<Rightarrow> bool" where
  "keeps_rows rows rows' \<longleftrightarrow> (\<lambda>r. (sr_id r, sr_callsign r)) ` rows \<subseteq> (\<lambda>r. (sr_id r, sr_callsign r)) ` rows'"

lemma save_inv_mono: "save_inv rows entries s \<Longrightarrow> keeps_rows rows rows' \<Longrightarrow> save_inv rows' entries s"
  unfolding save_inv_def keeps_rows_def
  by (cases s) (auto simp: image_subset_iff image_iff, metis)

lemma keeps_rows_refl: "keeps_rows rows rows"
  by (simp add: keeps_rows_def)

lemma row_with_row: "sr_id (row_with e m) = sr_id m" "sr_callsign (row_with e m) = sr_callsign m"
  by (simp_all add: row_with_def)

lemma saved_row_with: "sr_callsign m = pe_callsign e \<Longrightarrow> saved e (row_with e m)"
  by (simp add: saved.simps row_with_def)

lemma row_insert_inv:
  assumes laws: "stations_laws stations db_ok contents" and unique: "unique_callsigns stations db_ok contents"
    and inv: "table_inv db_ok contents before entries db" and "e \<in> entries"
    and i: "tb_insert stations db (new_row e) = (Inr r', db')"
  shows "table_inv db_ok contents before entries db' \<and> keeps_rows (contents db) (contents db')"
proof -
  have ok: "db_ok db" and inj: "inj_on sr_callsign (contents db)" using inv by (simp_all add: table_inv_def)
  note l = laws_insert [OF laws ok i]
  have r': "r' = (new_row e)\<lparr>sr_id := sr_id r'\<rparr>" and c: "contents db' = insert r' (contents db)"
    using l(3) [OF refl] by simp_all
  have cs: "sr_callsign r' = pe_callsign e" by (subst r') (simp add: new_row_def)
  have "saved e r'" by (subst r') (simp add: saved.simps new_row_def)
  moreover have "sr_callsign (new_row e) \<notin> sr_callsign ` contents db"
    using unique ok i unfolding unique_callsigns_def by (metis fst_conv is_ok.simps(2))
  then have "inj_on sr_callsign (contents db')"
    using inj cs by (simp add: c new_row_def) (auto simp: inj_on_def image_iff)
  ultimately show ?thesis
    using inv l(1) assms(4) by (auto simp: table_inv_def c keeps_rows_def)
qed

lemma row_update_inv:
  assumes laws: "stations_laws stations db_ok contents"
    and inv: "table_inv db_ok contents before entries db" and "e \<in> entries"
    and model: "sr_callsign model = pe_callsign e" "r \<in> contents db" "sr_id r = sr_id model" "sr_callsign r = sr_callsign model"
    and u: "tb_update stations db (row_with e model) = (Inr (), db')"
  shows "table_inv db_ok contents before entries db' \<and> keeps_rows (contents db) (contents db')"
    and "row_with e model \<in> contents db'"
proof -
  let ?m = "row_with e model"
  let ?f = "\<lambda>x. if sr_id x = sr_id model then ?m else x"
  have ok: "db_ok db" and inj: "inj_on sr_callsign (contents db)" using inv by (simp_all add: table_inv_def)
  have c: "contents db' = ?f ` contents db" and ok': "db_ok db'"
    using laws_update(3) [OF laws ok u refl] laws_update(1) [OF laws ok u] by (simp_all add: row_with_row)
  have only: "x = r" if "x \<in> contents db" "sr_id x = sr_id model" for x
    using laws_id [OF laws ok] that model(2,3) by (auto simp: inj_on_def)
  then have same: "sr_id (?f x) = sr_id x \<and> sr_callsign (?f x) = sr_callsign x" if "x \<in> contents db" for x
    using that model(4) by (auto simp: row_with_row)
  have "inj_on sr_callsign (contents db')"
  proof (rule inj_onI)
    fix x y
    assume "x \<in> contents db'" "y \<in> contents db'" "sr_callsign x = sr_callsign y"
    then obtain x0 y0 where "x0 \<in> contents db" "x = ?f x0" "y0 \<in> contents db" "y = ?f y0" unfolding c by blast
    with same [of x0] same [of y0] \<open>sr_callsign x = sr_callsign y\<close> inj show "x = y" by (auto simp: inj_on_def)
  qed
  moreover have "(\<lambda>q. (sr_id q, sr_callsign q)) ` contents db' = (\<lambda>q. (sr_id q, sr_callsign q)) ` contents db"
    unfolding c image_image using same by (intro image_cong) auto
  then have k: "keeps_rows (contents db) (contents db')" "sr_callsign ` contents db' = sr_callsign ` contents db"
    by (simp_all add: keeps_rows_def) (metis (no_types, lifting) image_cong image_image snd_conv)
  moreover have "q \<in> before \<or> (\<exists>e \<in> entries. saved e q)" if "q \<in> contents db'" for q
    using that inv assms(3) saved_row_with [OF model(1)] by (auto simp: c table_inv_def)
  ultimately show "table_inv db_ok contents before entries db' \<and> keeps_rows (contents db) (contents db')"
    using inv ok' by (auto simp: table_inv_def)
  show "?m \<in> contents db'" unfolding c using model(2,3) by (intro image_eqI [of _ _ r]) simp_all
qed

lemma save_stmt_inv:
  assumes laws: "stations_laws stations db_ok contents" and unique: "unique_callsigns stations db_ok contents"
    and inv: "table_inv db_ok contents before entries db" and s: "save_inv (contents db) entries a"
    and step: "save_stmt stations (a, db) = (a', db')"
  shows "table_inv db_ok contents before entries db' \<and> save_inv (contents db') entries a' \<and>
    keeps_rows (contents db) (contents db')"
proof (cases a)
  case (Looking es)
  show ?thesis
  proof (cases es)
    case Nil
    with Looking step inv s show ?thesis by (auto simp: keeps_rows_refl)
  next
    case (Cons e rest)
    let ?find = "tb_select stations db (\<lambda>r. sr_callsign r = pe_callsign e) (\<lambda>_. 0) (Some 1)"
    have ok: "db_ok db" using inv by (simp add: table_inv_def)
    show ?thesis
    proof (cases ?find)
      case (Inl err)
      with Looking Cons step inv show ?thesis by (auto simp: keeps_rows_refl save_inv_def)
    next
      case (Inr rs)
      from laws_find [OF laws ok Inr] Looking Cons step inv s Inr show ?thesis
        by (auto simp: keeps_rows_refl save_inv_def)
    qed
  qed
next
  case (Found existing e es)
  have e: "e \<in> entries" "set es \<subseteq> entries" using s by (simp_all add: Found save_inv_def)
  have ok: "db_ok db" using inv by (simp add: table_inv_def)
  show ?thesis
  proof (cases existing)
    case Nil
    obtain y d where i: "tb_insert stations db (new_row e) = (y, d)" by fastforce
    show ?thesis
    proof (cases y)
      case (Inl err)
      with laws_insert(1,2) [OF laws ok i] Nil Found step i inv show ?thesis
        by (auto simp: save_write_def table_inv_def keeps_rows_def save_inv_def)
    next
      case (Inr r')
      have "a' = Looking es" "db' = d" using Nil Found step i Inr by (simp_all add: save_write_def)
      with row_insert_inv [OF laws unique inv e(1) i [unfolded Inr]] e(2) show ?thesis by (simp add: save_inv_def)
    qed
  next
    case (Cons model more_rows)
    with s Found obtain r where r: "sr_callsign model = pe_callsign e" "r \<in> contents db" "sr_id r = sr_id model"
      "sr_callsign r = sr_callsign model" by (auto simp: save_inv_def)
    obtain y d where u: "tb_update stations db (row_with e model) = (y, d)" by fastforce
    show ?thesis
    proof (cases y)
      case (Inl err)
      with laws_update(1,2) [OF laws ok u] Cons Found step u inv show ?thesis
        by (auto simp: save_write_def table_inv_def keeps_rows_def save_inv_def)
    next
      case (Inr v)
      have "a' = Looking es" "db' = d" using Cons Found step u Inr by (simp_all add: save_write_def)
      moreover have "tb_update stations db (row_with e model) = (Inr (), d)" using u Inr by simp
      note row_update_inv(1) [OF laws inv e(1) r this]
      ultimately show ?thesis using e(2) by (simp add: save_inv_def)
    qed
  qed
next
  case SaveFailed
  with step inv show ?thesis by (auto simp: keeps_rows_refl save_inv_def)
qed

lemma interleaved_inv:
  assumes laws: "stations_laws stations db_ok contents" and unique: "unique_callsigns stations db_ok contents"
  shows "table_inv db_ok contents before entries db \<Longrightarrow> save_inv (contents db) entries a \<Longrightarrow>
    save_inv (contents db) entries b \<Longrightarrow> interleaved stations schedule (a, b, db) = (a', b', db') \<Longrightarrow>
    table_inv db_ok contents before entries db'"
proof (induction schedule arbitrary: a b db)
  case (Cons first schedule)
  define s where "s = (if first then a else b)"
  obtain s' d where st: "save_stmt stations (s, db) = (s', d)" by fastforce
  have "save_inv (contents db) entries s" using Cons.prems(2,3) by (simp add: s_def)
  note i = save_stmt_inv [OF laws unique Cons.prems(1) this st]
  have "interleaved stations schedule ((if first then s' else a), (if first then b else s'), d) = (a', b', db')"
    using Cons.prems(4) st by (auto simp: s_def split: if_splits)
  with Cons.IH [of d "if first then s' else a" "if first then b else s'"] i
    save_inv_mono [OF Cons.prems(2)] save_inv_mono [OF Cons.prems(3)] show ?case by auto
qed simp

text \<open>C12: two saves that overlap in any way, and fail at any statement, leave a table with one row for each station: no
  station that was there is lost, and every row is either as it was or holds the whole of one entry of one of the two
  snapshots, never a mixture.\<close>

theorem overlapping_saves:
  assumes laws: "stations_laws stations db_ok contents" and unique: "unique_callsigns stations db_ok contents"
    and "db_ok db" and "inj_on sr_callsign (contents db)"
    and "interleaved stations schedule (Looking (cache_snapshot older), Looking (cache_snapshot newer), db) = (a, b, db')"
  shows "db_ok db' \<and> inj_on sr_callsign (contents db') \<and> sr_callsign ` contents db \<subseteq> sr_callsign ` contents db' \<and>
    (\<forall>r \<in> contents db'. r \<in> contents db \<or>
       (\<exists>e \<in> set (cache_snapshot older) \<union> set (cache_snapshot newer). saved e r))"
proof -
  let ?E = "set (cache_snapshot older) \<union> set (cache_snapshot newer)"
  have "table_inv db_ok contents (contents db) ?E db" using assms(3,4) by (simp add: table_inv_def)
  from interleaved_inv [OF laws unique this _ _ assms(5)] show ?thesis by (auto simp: save_inv_def table_inv_def)
qed

text \<open>The last save can be undone: a maintenance save that has looked a station up before the last save and writes after it puts
  back the position it had taken its snapshot of. Both saves end without an error.\<close>

theorem stale_save_wins:
  assumes laws: "stations_laws stations db_ok contents"
    and reliable: "\<And>db P key mx r. is_ok (tb_select stations db P key mx) \<and> is_ok (fst (tb_update stations db r))"
    and "db_ok db" and "inj_on sr_callsign (contents db)" and "r \<in> contents db"
    and "pe_callsign older = sr_callsign r" and "pe_callsign newer = sr_callsign r"
  shows "\<exists>db'. interleaved stations [True, False, False, True] (Looking [older], Looking [newer], db) =
      (Looking [], Looking [], db') \<and>
    (\<forall>q \<in> contents db'. sr_callsign q = sr_callsign r \<longrightarrow> saved older q)"
proof -
  let ?inv = "table_inv db_ok contents (contents db) {older, newer}"
  have inv: "?inv db" using assms(3,4) by (simp add: table_inv_def)
  have find: "tb_select stations db (\<lambda>q. sr_callsign q = sr_callsign r) (\<lambda>_. 0) (Some 1) = Inr [r]"
  proof -
    have "is_ok (tb_select stations db (\<lambda>q. sr_callsign q = sr_callsign r) (\<lambda>_. 0) (Some 1))"
      using reliable by (rule conjunct1)
    then obtain rs where rs: "tb_select stations db (\<lambda>q. sr_callsign q = sr_callsign r) (\<lambda>_. 0) (Some 1) = Inr rs"
      unfolding is_ok_iff ..
    from laws_find [OF laws assms(3) rs] rs assms(4,5) show ?thesis by (auto simp: inj_on_def)
  qed
  have upd: "\<exists>d. tb_update stations x q = (Inr (), d)" for x q
  proof -
    have "is_ok (fst (tb_update stations x q))" using reliable by (rule conjunct2)
    then show ?thesis by (cases "tb_update stations x q") (auto simp: is_ok_iff)
  qed
  obtain d1 where d1: "tb_update stations db (row_with newer r) = (Inr (), d1)" using upd by blast
  obtain d2 where d2: "tb_update stations d1 (row_with older r) = (Inr (), d2)" using upd by blast
  have e: "newer \<in> {older, newer}" "older \<in> {older, newer}" by simp_all
  note u1 = row_update_inv [OF laws inv e(1) assms(7) [symmetric] assms(5) refl refl d1]
  have i1: "?inv d1" "row_with newer r \<in> contents d1" using conjunct1 [OF u1(1)] u1(2) .
  note u2 = row_update_inv [OF laws i1(1) e(2) assms(6) [symmetric] i1(2) row_with_row d2]
  have i2: "?inv d2" "row_with older r \<in> contents d2" using conjunct1 [OF u2(1)] u2(2) .
  have "saved older q" if "q \<in> contents d2" "sr_callsign q = sr_callsign r" for q
  proof -
    have "inj_on sr_callsign (contents d2)" using i2(1) by (simp add: table_inv_def)
    then have "q = row_with older r" using that i2(2) by (simp add: inj_on_def row_with_row)
    with saved_row_with assms(6) show ?thesis by simp
  qed
  moreover have "interleaved stations [True, False, False, True] (Looking [older], Looking [newer], db) =
      (Looking [], Looking [], d2)"
    using find assms(6,7) by (simp add: save_write_def d1 d2)
  ultimately show ?thesis by blast
qed

text \<open>A station that both saves insert ends the save that comes second; what it had not reached yet is not saved.\<close>

theorem collision_ends_save:
  assumes laws: "stations_laws stations db_ok contents" and "unique_callsigns stations db_ok contents"
    and "db_ok db" and "pe_callsign e \<in> sr_callsign ` contents db"
  shows "\<exists>db'. save_stmt stations (Found [] e entries, db) = (SaveFailed, db') \<and> contents db' = contents db"
proof -
  obtain y d where i: "tb_insert stations db (new_row e) = (y, d)" by fastforce
  have "\<not> is_ok (fst (tb_insert stations db (new_row e)))"
    using assms(2-4) by (simp add: unique_callsigns_def new_row_def)
  then obtain err where "y = Inl err" using i by (cases y) simp_all
  with laws_insert(2) [OF laws assms(3) i] i show ?thesis by (simp add: save_write_def)
qed

subsection \<open>Witnesses\<close>

text \<open>The table of lists with the unique key.\<close>

definition keyed_stations :: "(station_row list, station_row, unit) table" where
  "keyed_stations = list_stations
     \<lparr>tb_insert := \<lambda>db r. if sr_callsign r \<in> sr_callsign ` set db then (Inl (), db) else tb_insert list_stations db r\<rparr>"

lemma keyed_stations_laws:
  "stations_laws keyed_stations (\<lambda>db. distinct (map sr_id db)) set"
  "unique_callsigns keyed_stations (\<lambda>db. distinct (map sr_id db)) set"
proof -
  have "stations_laws list_stations (\<lambda>db. distinct (map sr_id db)) set"
    unfolding list_stations_def by (rule list_table_laws) simp
  then show "stations_laws keyed_stations (\<lambda>db. distinct (map sr_id db)) set"
    by (auto simp: table_laws_def keyed_stations_def select_law_def insert_law_def update_law_def delete_law_def)
  show "unique_callsigns keyed_stations (\<lambda>db. distinct (map sr_id db)) set"
    by (simp add: unique_callsigns_def keyed_stations_def)
qed

definition sample_entry :: "int \<Rightarrow> position_entry" where
  "sample_entry t =
     \<lparr>pe_callsign = ''N0CALL'', pe_position = \<lparr>ps_latitude = f64_of_int 61, ps_longitude = f64_of_int 24\<rparr>,
      pe_symbol = None, pe_heard_at = t\<rparr>"

theorem stale_save_wins_witness:
  "\<exists>db'. interleaved keyed_stations [True, False, False, True] (Looking [sample_entry 60], Looking [sample_entry 120],
       [sample_row 1 ''N0CALL'']) = (Looking [], Looking [], db') \<and>
     (\<forall>q \<in> set db'. sr_callsign q = ''N0CALL'' \<longrightarrow> sr_heard_at q = 60)"
proof -
  have r: "is_ok (tb_select keyed_stations db P key mx) \<and> is_ok (fst (tb_update keyed_stations db r))" for db P key mx r
    by (simp add: keyed_stations_def list_stations_def list_table_def)
  have c: "sr_callsign (sample_row 1 ''N0CALL'') = ''N0CALL''" by (simp add: sample_row_def)
  from stale_save_wins [OF keyed_stations_laws(1) r, of "[sample_row 1 ''N0CALL'']" "sample_row 1 ''N0CALL''"
      "sample_entry 60" "sample_entry 120"]
  show ?thesis by (auto simp: c sample_entry_def saved.simps)
qed

theorem overlapping_saves_witness:
  "\<exists>a b db'. interleaved keyed_stations [True, False, False, True]
       (Looking (cache_snapshot sample_cache), Looking (cache_snapshot cache_new), [sample_row 1 ''N0CALL'']) = (a, b, db') \<and>
     ''N0CALL'' \<in> sr_callsign ` set db'"
proof -
  obtain a b db' where i: "interleaved keyed_stations [True, False, False, True]
       (Looking (cache_snapshot sample_cache), Looking (cache_snapshot cache_new), [sample_row 1 ''N0CALL'']) = (a, b, db')"
    by (metis prod_cases3)
  have "distinct (map sr_id [sample_row 1 ''N0CALL''])" "inj_on sr_callsign (set [sample_row 1 ''N0CALL''])" by simp_all
  from overlapping_saves [OF keyed_stations_laws this i] i show ?thesis by (auto simp: sample_row_def)
qed

end
