(* ===== verification/Command_Line.thy ===== *)
theory Command_Line
  imports Commands Runtime
begin

section \<open>The command line (\<open>aprsr/src/cli.rs\<close>, \<open>main.rs\<close>)\<close>

text \<open>
  The commands with their arguments and defaults, the set-up of the log, and \<open>main\<close>. The argument parser is generated by
  \<open>clap\<close> from the attributes in \<open>cli.rs\<close>; what it hands over, the arguments that were given, is the record \<open>arguments\<close>, and
  \<open>cli_parse\<close> fills in the declared defaults. The log filter of the environment and whether the standard error is a terminal are
  parameters.

  \<open>printed_passcode_logs_in\<close> follows a number from the output of \<open>aprsr passcode\<close> to the login of a station.
\<close>

datatype log_format = TextLog | JsonLog

datatype command =
    Run str
  | CheckConfig str
  | ConvertConfig str "str option"
  | Passcode str

record cli =
  cli_log_format :: log_format
  cli_log_level :: str
  cli_command :: command

subsection \<open>Defaults\<close>

datatype given_command =
    GivenRun "str option"
  | GivenCheckConfig "str option"
  | GivenConvertConfig str "str option"
  | GivenPasscode str

record arguments =
  ar_log_format :: "log_format option"
  ar_log_level :: "str option"
  ar_command :: given_command

definition DEFAULT_CONFIG :: str where "DEFAULT_CONFIG = ''aprsr.toml''"

fun command_parse :: "given_command \<Rightarrow> command" where
  "command_parse (GivenRun config) = Run (unwrap_or DEFAULT_CONFIG config)"
| "command_parse (GivenCheckConfig config) = CheckConfig (unwrap_or DEFAULT_CONFIG config)"
| "command_parse (GivenConvertConfig inp outp) = ConvertConfig inp outp"
| "command_parse (GivenPasscode callsign) = Passcode callsign"

definition cli_parse :: "arguments \<Rightarrow> cli" where
  "cli_parse a =
     \<lparr>cli_log_format = unwrap_or TextLog (ar_log_format a), cli_log_level = unwrap_or ''info'' (ar_log_level a),
      cli_command = command_parse (ar_command a)\<rparr>"

subsection \<open>Logging\<close>

text \<open>The subscriber that is installed: its filter, its format, whether it names the target, whether it uses colours.\<close>

record 'f subscriber =
  su_filter :: 'f
  su_json :: bool
  su_target :: bool
  su_ansi :: bool

definition init_tracing ::
  "('e, 'f) result \<Rightarrow> (str \<Rightarrow> 'f) \<Rightarrow> bool \<Rightarrow> log_format \<Rightarrow> str \<Rightarrow> 'f subscriber" where
  "init_tracing from_env filter_new terminal fmt level =
     (let filter = (case from_env of Inr f \<Rightarrow> f | Inl _ \<Rightarrow> filter_new level) in
      case fmt of
        JsonLog \<Rightarrow> \<lparr>su_filter = filter, su_json = True, su_target = True, su_ansi = False\<rparr>
      | TextLog \<Rightarrow> \<lparr>su_filter = filter, su_json = False, su_target = False, su_ansi = terminal\<rparr>)"

subsection \<open>The end of \<open>run\<close>\<close>

datatype 'w web_end = WebStopped | WebFailed 'w | WebPanicked

text \<open>After the server has stopped: an error of the status server is only logged.\<close>

definition run_end :: "'w web_end option \<Rightarrow> ('e, unit) result \<times> bool" where
  "run_end web_task =
     (case web_task of
        None \<Rightarrow> (Inr (), False)
      | Some WebStopped \<Rightarrow> (Inr (), False)
      | Some (WebFailed _) \<Rightarrow> (Inr (), True)
      | Some WebPanicked \<Rightarrow> (Inr (), True))"

text \<open>\<open>aprsr run\<close>: the start, then \<open>Server::run\<close>, which has no error to return and leaves its effects to \<open>run_step\<close>; \<open>web\<close>
  is what became of the task of the status server, if the configuration has one. No client is registered when the server starts,
  so the type of their outboxes is immaterial.\<close>

definition run_command ::
  "(str \<Rightarrow> ('e, config) result) \<Rightarrow> (str \<Rightarrow> ('io, unit) result) \<Rightarrow> (str \<Rightarrow> ('d store_error, 'db) result) \<Rightarrow>
     ('os \<Rightarrow> socket_addr \<Rightarrow> ('io, 'sock \<times> 'os) result) \<Rightarrow> ('sock \<Rightarrow> ('io, socket_addr) result) \<Rightarrow>
     ('db, station_row, 'd) table \<Rightarrow> 'os \<Rightarrow> nat \<Rightarrow> 'w web_end \<Rightarrow> str \<Rightarrow>
     (('e, 'io, 'd) start_error, unit) result \<times> bool" where
  "run_command figment create_dir_all store_open bind local_addr stations os now web path =
     (case start_up figment create_dir_all store_open bind local_addr stations path os now of
        Inl e \<Rightarrow> (Inl e, False)
      | Inr (config, _, (_ :: unit server_state), _) \<Rightarrow> run_end (map_option (\<lambda>_. web) (cf_status_bind config)))"

datatype ('se, 'io, 'r) main_error = RunFailed 'se | CommandFailed "('io, 'r) command_error"

subsection \<open>\<open>main\<close>\<close>

definition main ::
  "(str \<Rightarrow> ('e, config) result) \<Rightarrow> (str \<Rightarrow> ('io, unit) result) \<Rightarrow> (str \<Rightarrow> ('d store_error, 'db) result) \<Rightarrow>
     ('os \<Rightarrow> socket_addr \<Rightarrow> ('io, 'sock \<times> 'os) result) \<Rightarrow> ('sock \<Rightarrow> ('io, socket_addr) result) \<Rightarrow>
     ('db, station_row, 'd) table \<Rightarrow> 'os \<Rightarrow> nat \<Rightarrow> 'w web_end \<Rightarrow>
     (socket_addr \<Rightarrow> str) \<Rightarrow> (str \<Rightarrow> ('io, str) result) \<Rightarrow> (str \<Rightarrow> str \<Rightarrow> ('io, unit) result) \<Rightarrow>
     (config \<Rightarrow> ('r, str) result) \<Rightarrow> (str \<Rightarrow> str) \<Rightarrow>
     ('v, 'f) result \<Rightarrow> (str \<Rightarrow> 'f) \<Rightarrow> bool \<Rightarrow> arguments \<Rightarrow>
     'f subscriber \<times> ((('e, 'io, 'd) start_error, 'io, 'r) main_error, unit) result \<times> emitted list" where
  "main figment create_dir_all store_open bind local_addr stations os now web
     show_addr read_to_string write to_toml debug_str from_env filter_new terminal args =
     (let cli = cli_parse args in
      (init_tracing from_env filter_new terminal (cli_log_format cli) (cli_log_level cli),
      case cli_command cli of
        Run config \<Rightarrow>
          (map_err RunFailed
             (fst (run_command figment create_dir_all store_open bind local_addr stations os now web config)), [])
      | CheckConfig config \<Rightarrow>
          map_prod (map_err RunFailed) id (check_config show_addr figment config)
      | ConvertConfig inp outp \<Rightarrow>
          map_prod (map_err CommandFailed) id (convert_config read_to_string write to_toml debug_str inp outp)
      | Passcode callsign \<Rightarrow> (Inr (), passcode_command callsign)))"

subsection \<open>From the command to the login\<close>

lemma plain_login:
  assumes "parse_login c = Inr cs" and "n < 2 ^ 31"
  shows "login_parse (''user '' @ c @ '' pass '' @ show_nat n) =
    Inr \<lparr>lr_callsign = cs, lr_passcode = int n, lr_software = None, lr_software_version = None,
      lr_udp_port = None, lr_filter = None\<rparr>"
proof -
  let ?r = "\<lparr>lr_callsign = cs, lr_passcode = int n, lr_software = None, lr_software_version = None,
      lr_udp_port = None, lr_filter = None\<rparr>"
  have "callsign_wf cs" "cs_raw cs = c" "MIN_LOGIN_LEN \<le> length c"
    using assms(1) by (auto simp: parse_login_def callsign_parse_wf_iff split: if_splits)
  then have "login_wf ?r" "login_render ?r = ''user '' @ c @ '' pass '' @ show_nat n"
    using assms(2) by (auto simp: login_wf_def options_wf_def login_render_def login_tokens_def show_int_def)
  then show ?thesis using login_parse_render by metis
qed

lemma generate_same_station:
  assumes "eq_ignore_ascii_case (base_of s) (base_of t)"
  shows "generate s = generate t"
proof -
  have b: "generate u = generate (base_of u)" for u
    by (simp add: generate_eq base_of_def)
  from generate_case [OF assms] b [of s] b [of t] show ?thesis by simp
qed

text \<open>C31: what \<open>aprsr passcode\<close> prints lets the station in. For any callsign typed in any case, with or without an SSID,
  the output is one line, a decimal number, and a client that logs in with that number under any callsign of the same
  station is answered as verified and may transmit.\<close>

theorem printed_passcode_logs_in:
  assumes "parse_login c = Inr cs" and "eq_ignore_ascii_case (base_of typed) (base_of c)"
  shows "\<exists>number login.
    snd (main figment create_dir_all store_open bind local_addr stations os now web
        show_addr read_to_string write to_toml debug_str from_env filter_new terminal (args\<lparr>ar_command := GivenPasscode typed\<rparr>)) =
      (Inr (), [Stdout (number @ nl)]) \<and> list_all is_ascii_digit number \<and>
    login_parse (''user '' @ c @ '' pass '' @ number) = Inr login \<and> login_verify login = Verified \<and>
    may_transmit (login_verify login)"
proof -
  let ?n = "unat (generate typed)"
  let ?login = "\<lparr>lr_callsign = cs, lr_passcode = int ?n, lr_software = None, lr_software_version = None,
      lr_udp_port = None, lr_filter = None\<rparr>"
  have "?n < 2 ^ 31" using generate_bound [of typed] by simp
  with assms(1) have l: "login_parse (''user '' @ c @ '' pass '' @ show_nat ?n) = Inr ?login"
    by (rule plain_login)
  have "cs_raw cs = c"
    using assms(1) by (auto simp: parse_login_def callsign_parse_wf_iff split: if_splits)
  moreover have "int ?n = uint (generate c)"
    unfolding generate_same_station [OF assms(2)] by (rule uint_nat [symmetric])
  ultimately have "login_verify ?login = Verified"
    by (simp add: login_verify_def callsign_as_str_def verify_Verified_iff)
  moreover from this have "may_transmit (login_verify ?login)" by (simp add: may_transmit_def)
  moreover have "snd (main figment create_dir_all store_open bind local_addr stations os now web
      show_addr read_to_string write to_toml debug_str from_env filter_new terminal (args\<lparr>ar_command := GivenPasscode typed\<rparr>)) =
      (Inr (), [Stdout (show_nat ?n @ nl)])"
    by (simp add: main_def cli_parse_def passcode_command_def)
  ultimately show ?thesis using l show_nat_digits [of ?n] by blast
qed

text \<open>The number printed for \<open>n0call-9\<close> logs \<open>N0CALL\<close> in.\<close>

theorem printed_passcode_logs_in_witness:
  "\<forall>(stations :: (station_row list, station_row, unit) table).
    \<exists>number login.
    snd (main (\<lambda>_. Inl ()) (\<lambda>_. Inl ()) (\<lambda>_. Inl (Database ())) (\<lambda>(_ :: unit) _. (Inl () :: (unit, unit \<times> unit) result)) (\<lambda>_. Inl ())
        stations () 0 (WebStopped :: unit web_end)
        (\<lambda>_. []) (\<lambda>_. Inl ()) (\<lambda>_ _. Inl ()) (\<lambda>_. Inl ()) id (Inl ()) (\<lambda>level. level) True
        \<lparr>ar_log_format = Some JsonLog, ar_log_level = None, ar_command = GivenPasscode ''n0call-9''\<rparr>) =
      (Inr () :: (((unit, unit, unit) start_error, unit, unit) main_error, unit) result, [Stdout (number @ nl)]) \<and>
    list_all is_ascii_digit number \<and> login_parse (''user '' @ ''N0CALL'' @ '' pass '' @ number) = Inr login \<and>
    login_verify login = Verified \<and> may_transmit (login_verify login)"
proof -
  let ?args = "\<lparr>ar_log_format = Some JsonLog, ar_log_level = None, ar_command = GivenPasscode ''n0call-9''\<rparr>"
  have "parse_login ''N0CALL'' = Inr \<lparr>cs_raw = ''N0CALL'', cs_separator = None\<rparr>" by code_simp
  moreover have "eq_ignore_ascii_case (base_of ''n0call-9'') (base_of ''N0CALL'')" by code_simp
  moreover have "?args = ?args\<lparr>ar_command := GivenPasscode ''n0call-9''\<rparr>" by simp
  ultimately show ?thesis by (intro allI) (subst \<open>?args = _\<close>, rule printed_passcode_logs_in)
qed

end
